(* ===== verification/Prelude.thy ===== *)
theory Prelude
  imports Main "HOL-Library.Word" "HOL-Library.Sublist" "HOL-Library.AList"
    "HOL-Library.Char_ord" "HOL-Library.Multiset"
begin

text \<open>
  Shared ground of the development: the types of bytes and strings, the pieces of the C and
  C++ standard libraries that several components use (character classes, substring search,
  decimal printing and parsing), and the generic lemmas about them.
\<close>

named_theorems io_exec \<open>symbolic execution of the scripted-environment monad\<close>
named_theorems srv_consts \<open>the numeric constants of srv_defs.h\<close>

type_synonym bytes = "char list"
type_synonym errno = int
type_synonym time_t = "64 word"

section \<open>Bytes and character classes\<close>

abbreviation CR :: char where "CR \<equiv> CHR 0x0D"
abbreviation LF :: char where "LF \<equiv> CHR 0x0A"
abbreviation NUL :: char where "NUL \<equiv> CHR 0x00"

definition char_code :: "char \<Rightarrow> nat" where
  "char_code c = of_char c"

text \<open>\<open>std::tolower\<close>, \<open>isspace\<close> and \<open>isdigit\<close> of the C locale.\<close>

definition tolower :: "char \<Rightarrow> char" where
  "tolower c = (if 65 \<le> char_code c \<and> char_code c \<le> 90 then char_of (char_code c + 32) else c)"

definition isspace :: "char \<Rightarrow> bool" where
  "isspace c \<longleftrightarrow> c = CHR '' '' \<or> (9 \<le> char_code c \<and> char_code c \<le> 13)"

definition is_digit :: "char \<Rightarrow> bool" where
  "is_digit c \<longleftrightarrow> 48 \<le> char_code c \<and> char_code c \<le> 57"

definition digit_char :: "nat \<Rightarrow> char" where
  "digit_char d = char_of (48 + d)"

definition digit_val :: "char \<Rightarrow> nat" where
  "digit_val c = char_code c - 48"

lemma char_code_char_of: "n < 256 \<Longrightarrow> char_code (char_of n) = n"
  by (simp add: char_code_def)

lemma char_code_less: "char_code c < 256"
  proof -
  have "char_code c = char_code c mod 256"
    unfolding char_code_def by (metis char_of_char of_char_of)
  then show ?thesis by (metis mod_less_divisor zero_less_numeral)
qed

lemma char_code_eq_iff: "char_code c = char_code d \<longleftrightarrow> c = d"
  by (simp add: char_code_def)

lemma char_of_code [simp]: "char_of (char_code c) = c"
  by (simp add: char_code_def)

lemma tolower_tolower [simp]: "tolower (tolower c) = tolower c"
  by (simp add: tolower_def char_code_char_of)

lemma digit_val_char: "d < 10 \<Longrightarrow> digit_val (digit_char d) = d"
  by (simp add: digit_val_def digit_char_def char_code_char_of)

lemma is_digit_char: "d < 10 \<Longrightarrow> is_digit (digit_char d)"
  by (simp add: is_digit_def digit_char_def char_code_char_of)

section \<open>Substring search\<close>

text \<open>
  \<open>std::string_view::find\<close> for a string: the least position where the pattern occurs,
  \<open>npos\<close> is \<open>None\<close>.
\<close>

fun find_sub :: "string \<Rightarrow> string \<Rightarrow> nat option" where
  "find_sub p [] = (if p = [] then Some 0 else None)"
| "find_sub p (c # cs) =
     (if take (length p) (c # cs) = p then Some 0 else map_option Suc (find_sub p cs))"

definition occurs_at :: "string \<Rightarrow> string \<Rightarrow> nat \<Rightarrow> bool" where
  "occurs_at p s i \<longleftrightarrow> take (length p) (drop i s) = p"

lemma occurs_at_0 [simp]: "occurs_at p s 0 \<longleftrightarrow> take (length p) s = p"
  by (simp add: occurs_at_def)

lemma occurs_at_Cons_Suc [simp]: "occurs_at p (c # cs) (Suc i) \<longleftrightarrow> occurs_at p cs i"
  by (simp add: occurs_at_def)

lemma occurs_at_bound: "occurs_at p s i \<Longrightarrow> p \<noteq> [] \<Longrightarrow> i + length p \<le> length s"
proof -
  assume "occurs_at p s i" and "p \<noteq> []"
  then have "length (take (length p) (drop i s)) = length p" by (simp add: occurs_at_def)
  with \<open>p \<noteq> []\<close> show ?thesis by (cases "i \<le> length s") auto
qed

lemma occurs_at_append: "occurs_at p s i \<Longrightarrow> p \<noteq> [] \<Longrightarrow> occurs_at p (s @ t) i"
  using occurs_at_bound [of p s i] by (simp add: occurs_at_def)

lemma occurs_at_appendD:
  "occurs_at p (s @ t) i \<Longrightarrow> i + length p \<le> length s \<Longrightarrow> occurs_at p s i"
  by (simp add: occurs_at_def)

lemma find_sub_Some_occurs: "find_sub p s = Some i \<Longrightarrow> occurs_at p s i"
  by (induction p s arbitrary: i rule: find_sub.induct) (auto split: if_splits)

lemma find_sub_Some_least: "find_sub p s = Some i \<Longrightarrow> j < i \<Longrightarrow> \<not> occurs_at p s j"
proof (induction p s arbitrary: i j rule: find_sub.induct)
  case (2 p c cs)
  then show ?case by (cases j) (auto split: if_splits)
qed (auto split: if_splits)

lemma find_sub_None: "find_sub p s = None \<longleftrightarrow> (\<forall>i. \<not> occurs_at p s i)"
proof (induction p s rule: find_sub.induct)
  case (1 p)
  then show ?case by (auto simp: occurs_at_def)
next
  case (2 p c cs)
  show ?case
  proof (cases "take (length p) (c # cs) = p")
    case True
    then have "occurs_at p (c # cs) 0" by simp
    then have "\<not> (\<forall>i. \<not> occurs_at p (c # cs) i)" by blast
    with True show ?thesis by simp
  next
    case False
    then have "(\<forall>i. \<not> occurs_at p (c # cs) i) \<longleftrightarrow> (\<forall>i. \<not> occurs_at p cs i)"
      by (metis occurs_at_0 occurs_at_Cons_Suc not0_implies_Suc)
    with False 2 show ?thesis by simp
  qed
qed

lemma find_sub_eq_Some:
  "find_sub p s = Some i \<longleftrightarrow> occurs_at p s i \<and> (\<forall>j<i. \<not> occurs_at p s j)"
proof
  assume "find_sub p s = Some i"
  then show "occurs_at p s i \<and> (\<forall>j<i. \<not> occurs_at p s j)"
    using find_sub_Some_occurs find_sub_Some_least by blast
next
  assume r: "occurs_at p s i \<and> (\<forall>j<i. \<not> occurs_at p s j)"
  then obtain k where k: "find_sub p s = Some k"
    using find_sub_None [of p s] by (cases "find_sub p s") auto
  with r have "\<not> i < k" and "\<not> k < i"
    using find_sub_Some_least find_sub_Some_occurs by blast+
  with k show "find_sub p s = Some i" by simp
qed

lemma find_sub_bound: "find_sub p s = Some i \<Longrightarrow> p \<noteq> [] \<Longrightarrow> i + length p \<le> length s"
  using find_sub_Some_occurs occurs_at_bound by blast

lemma find_sub_append:
  assumes "find_sub p s = Some i" and "p \<noteq> []"
  shows "find_sub p (s @ t) = Some i"
  unfolding find_sub_eq_Some
proof (intro conjI allI impI)
  show "occurs_at p (s @ t) i"
    using assms by (simp add: find_sub_Some_occurs occurs_at_append)
next
  fix j assume j: "j < i"
  with assms find_sub_bound [of p s i] have "j + length p \<le> length s" by simp
  then show "\<not> occurs_at p (s @ t) j"
    using find_sub_Some_least [OF assms(1) j] occurs_at_appendD by blast
qed

lemma find_sub_take:
  assumes "find_sub p s = Some i" and "p \<noteq> []"
  shows "find_sub p (take (i + length p) s) = Some i"
proof -
  have b: "i + length p \<le> length s" using assms by (rule find_sub_bound)
  have *: "occurs_at p (take (i + length p) s) j \<longleftrightarrow> occurs_at p s j" if "j \<le> i" for j
    using that b by (simp add: occurs_at_def drop_take min_def)
  show ?thesis
    unfolding find_sub_eq_Some using assms(1) * by (auto simp: find_sub_eq_Some)
qed

text \<open>\<open>find\<close> and \<open>rfind\<close> for one character.\<close>

fun find_char :: "char \<Rightarrow> string \<Rightarrow> nat option" where
  "find_char x [] = None"
| "find_char x (c # cs) = (if c = x then Some 0 else map_option Suc (find_char x cs))"

definition rfind_char :: "char \<Rightarrow> string \<Rightarrow> nat option" where
  "rfind_char x s = map_option (\<lambda>i. length s - Suc i) (find_char x (rev s))"

lemma find_char_None: "find_char x s = None \<longleftrightarrow> x \<notin> set s"
  by (induction s) auto

lemma find_char_append_notin:
  "x \<notin> set s \<Longrightarrow> find_char x (s @ x # t) = Some (length s)"
  by (induction s) auto

lemma find_char_SomeD:
  "find_char x s = Some i \<Longrightarrow> i < length s \<and> s ! i = x \<and> x \<notin> set (take i s)"
proof (induction s arbitrary: i)
  case (Cons c cs)
  show ?case
  proof (cases "c = x")
    case True
    with Cons.prems show ?thesis by simp
  next
    case False
    with Cons.prems obtain k where k: "find_char x cs = Some k" "i = Suc k" by auto
    with Cons.IH [of k] False show ?thesis by auto
  qed
qed simp

lemma rfind_char_append_notin:
  "x \<notin> set t \<Longrightarrow> rfind_char x (s @ x # t) = Some (length s)"
  by (simp add: rfind_char_def find_char_append_notin)

lemma rfind_char_SomeD:
  "rfind_char x s = Some i \<Longrightarrow> i < length s \<and> s ! i = x \<and> x \<notin> set (drop (Suc i) s)"
proof -
  assume "rfind_char x s = Some i"
  then obtain k where k: "find_char x (rev s) = Some k" and i: "i = length s - Suc k"
    by (auto simp: rfind_char_def)
  from find_char_SomeD [OF k] have *: "k < length s" "rev s ! k = x" "x \<notin> set (take k (rev s))"
    by auto
  have "drop (Suc i) s = rev (take k (rev s))"
    using * i by (simp add: take_rev Suc_diff_Suc)
  with * i show ?thesis by (simp add: rev_nth)
qed

section \<open>Decimal numbers\<close>

text \<open>Printing of an unsigned number by an output stream or \<open>std::to_string\<close>.\<close>

fun show_nat :: "nat \<Rightarrow> string" where
  "show_nat n = (if n < 10 then [digit_char n] else show_nat (n div 10) @ [digit_char (n mod 10)])"

declare show_nat.simps [simp del]

definition digits_val :: "string \<Rightarrow> nat" where
  "digits_val s = foldl (\<lambda>v c. 10 * v + digit_val c) 0 s"

lemma digits_val_snoc: "digits_val (s @ [c]) = 10 * digits_val s + digit_val c"
  by (simp add: digits_val_def)

lemma show_nat_digits: "\<forall>c\<in>set (show_nat n). is_digit c"
proof (induction n rule: show_nat.induct)
  case (1 n)
  then show ?case
    by (subst show_nat.simps) (auto simp: is_digit_char)
qed

lemma show_nat_nonempty [simp]: "show_nat n \<noteq> []"
  by (subst show_nat.simps) simp

lemma digits_val_show_nat [simp]: "digits_val (show_nat n) = n"
proof (induction n rule: show_nat.induct)
  case (1 n)
  show ?case
  proof (cases "n < 10")
    case True
    then show ?thesis
      by (subst show_nat.simps) (simp add: digits_val_def digit_val_char)
  next
    case False
    then have "digits_val (show_nat n) = 10 * digits_val (show_nat (n div 10)) + n mod 10"
      by (subst show_nat.simps) (simp add: digits_val_snoc digit_val_char)
    with False 1 show ?thesis by simp
  qed
qed

text \<open>
  \<open>std::from_chars\<close> for \<open>size_t\<close> in base ten: the longest prefix of digits; no digit is
  \<open>errc::invalid_argument\<close>, a value that does not fit 64 bits \<open>errc::result_out_of_range\<close>.
  The rest of the input is what \<open>ptr\<close> points to.
\<close>

datatype from_chars_errc = Invalid_argument | Result_out_of_range

definition from_chars :: "string \<Rightarrow> from_chars_errc + (nat \<times> string)" where
  "from_chars s =
     (let ds = takeWhile is_digit s; rest = dropWhile is_digit s in
      if ds = [] then Inl Invalid_argument
      else if digits_val ds < 2 ^ 64 then Inr (digits_val ds, rest)
      else Inl Result_out_of_range)"

lemma from_chars_show_nat: "n < 2 ^ 64 \<Longrightarrow> from_chars (show_nat n) = Inr (n, [])"
proof -
  have "takeWhile is_digit (show_nat n) = show_nat n" and "dropWhile is_digit (show_nat n) = []"
    using show_nat_digits [of n] by (simp_all only: takeWhile_eq_all_conv dropWhile_eq_Nil_conv)
  then show "n < 2 ^ 64 \<Longrightarrow> ?thesis" by (simp add: from_chars_def Let_def del: takeWhile_eq_all_conv dropWhile_eq_Nil_conv)
qed

lemma from_chars_Inr:
  "from_chars s = Inr (n, []) \<longleftrightarrow>
    s \<noteq> [] \<and> (\<forall>c\<in>set s. is_digit c) \<and> n = digits_val s \<and> n < 2 ^ 64"
proof (cases "\<forall>c\<in>set s. is_digit c")
  case True
  then have "takeWhile is_digit s = s" and "dropWhile is_digit s = []"
    by (simp_all only: takeWhile_eq_all_conv dropWhile_eq_Nil_conv)
  with True show ?thesis
    by (auto simp: from_chars_def Let_def simp del: takeWhile_eq_all_conv dropWhile_eq_Nil_conv
        split: if_splits)
next
  case False
  then have "dropWhile is_digit s \<noteq> []" by (simp add: dropWhile_eq_Nil_conv)
  with False show ?thesis by (auto simp: from_chars_def Let_def split: if_splits)
qed

end
