(* ===== verification/Env_IO.thy ===== *)
theory Env_IO
  imports Prelude
begin

text \<open>
  Effects. A piece of the program that calls the operating system is a function on a
  \<open>world\<close>: the \<open>script\<close> holds the answers the environment gives to the calls still to come
  (in order), \<open>st\<close> the program's own state, \<open>trace\<close> what the program has done that the
  outside can see. Every finite script is a finite prefix of an execution: a run that needs an
  answer the script no longer holds ends with \<open>Wait\<close>, or with \<open>Suspended\<close> when the coroutine
  has switched to the main context and was not resumed. So a loop that may run forever needs
  no fuel: it runs as long as the environment answers. A loop whose body makes no call at all
  would be \<open>Diverge\<close>; that this never happens is a theorem of each loop.
\<close>

section \<open>Outcomes and worlds\<close>

datatype fault =
    Out_of_bounds int    \<comment> \<open>memory access outside the buffer\<close>
  | Null_deref           \<comment> \<open>access through a null pointer\<close>
  | Bad_variant          \<comment> \<open>\<open>std::bad_variant_access\<close>\<close>
  | Vector_index nat     \<comment> \<open>element access past the end of a vector\<close>
  | Sigpipe              \<comment> \<open>killed for writing to a connection the peer has reset\<close>
  | Undefined_value      \<comment> \<open>a library call outside its defined domain\<close>

datatype stop =
    Exit int             \<comment> \<open>\<open>exit()\<close> with a code\<close>
  | Fault fault          \<comment> \<open>the process is killed or its behaviour is undefined\<close>
  | Wait                 \<comment> \<open>blocked in a call that was not answered yet\<close>
  | Suspended            \<comment> \<open>switched out, waiting to be resumed\<close>
  | Mismatch             \<comment> \<open>the script answers another call than the one made\<close>
  | Diverge              \<comment> \<open>a loop that makes no call\<close>

record ('r, 's, 'e) world =
  script :: "'r list"
  st :: 's
  trace :: "'e list"

type_synonym ('r, 's, 'e, 'a) io =
  "('r, 's, 'e) world \<Rightarrow> (stop + 'a) \<times> ('r, 's, 'e) world"

definition ret :: "'a \<Rightarrow> ('r, 's, 'e, 'a) io" where
  "ret a w = (Inr a, w)"

definition stop_with :: "stop \<Rightarrow> ('r, 's, 'e, 'a) io" where
  "stop_with s w = (Inl s, w)"

definition io_bind ::
  "('r, 's, 'e, 'a) io \<Rightarrow> ('a \<Rightarrow> ('r, 's, 'e, 'b) io) \<Rightarrow> ('r, 's, 'e, 'b) io" where
  "io_bind m f w = (case m w of (Inl s, v) \<Rightarrow> (Inl s, v) | (Inr a, v) \<Rightarrow> f a v)"

definition io_then ::
  "('r, 's, 'e, 'a) io \<Rightarrow> ('r, 's, 'e, 'b) io \<Rightarrow> ('r, 's, 'e, 'b) io" where
  "io_then m k = io_bind m (\<lambda>_. k)"

definition io_when :: "bool \<Rightarrow> ('r, 's, 'e, unit) io \<Rightarrow> ('r, 's, 'e, unit) io" where
  "io_when b m = (if b then m else ret ())"

definition gets_st :: "('s \<Rightarrow> 'a) \<Rightarrow> ('r, 's, 'e, 'a) io" where
  "gets_st f w = (Inr (f (st w)), w)"

definition modify_st :: "('s \<Rightarrow> 's) \<Rightarrow> ('r, 's, 'e, unit) io" where
  "modify_st f w = (Inr (), w\<lparr>st := f (st w)\<rparr>)"

definition emit :: "'e \<Rightarrow> ('r, 's, 'e, unit) io" where
  "emit e w = (Inr (), w\<lparr>trace := trace w @ [e]\<rparr>)"

text \<open>The environment's answer to the next call; with none left the run ends as \<open>s\<close>.\<close>

definition answer :: "stop \<Rightarrow> ('r, 's, 'e, 'r) io" where
  "answer s w = (case script w of [] \<Rightarrow> (Inl s, w) | r # rs \<Rightarrow> (Inr r, w\<lparr>script := rs\<rparr>))"

text \<open>A computation of the pure part that may be undefined.\<close>

definition lift_fault :: "fault + 'a \<Rightarrow> ('r, 's, 'e, 'a) io" where
  "lift_fault r = (case r of Inl f \<Rightarrow> stop_with (Fault f) | Inr a \<Rightarrow> ret a)"

text \<open>
  A loop over the local state \<open>l\<close>: the body returns \<open>Inl\<close> of the next local state, or
  \<open>Inr\<close> of the loop's result. Going round without consuming an answer is \<open>Diverge\<close>.
\<close>

function io_loop :: "('l \<Rightarrow> ('r, 's, 'e, 'l + 'a) io) \<Rightarrow> 'l \<Rightarrow> ('r, 's, 'e, 'a) io" where
  "io_loop body l w =
     (case body l w of
        (Inl s, v) \<Rightarrow> (Inl s, v)
      | (Inr (Inr a), v) \<Rightarrow> (Inr a, v)
      | (Inr (Inl l'), v) \<Rightarrow>
          if length (script v) < length (script w) then io_loop body l' v else (Inl Diverge, v))"
  by pat_completeness auto
termination
  by (relation "measure (\<lambda>(body, l, w). length (script w))") auto

declare io_loop.simps [simp del]

section \<open>Symbolic execution\<close>

lemma ret_run [io_exec]: "ret a w = (Inr a, w)"
  by (simp add: ret_def)

lemma stop_with_run [io_exec]: "stop_with s w = (Inl s, w)"
  by (simp add: stop_with_def)

lemma gets_st_run [io_exec]: "gets_st f w = (Inr (f (st w)), w)"
  by (simp add: gets_st_def)

lemma modify_st_run [io_exec]: "modify_st f w = (Inr (), w\<lparr>st := f (st w)\<rparr>)"
  by (simp add: modify_st_def)

lemma emit_run [io_exec]: "emit e w = (Inr (), w\<lparr>trace := trace w @ [e]\<rparr>)"
  by (simp add: emit_def)

lemma io_bind_Inr [io_exec]: "m w = (Inr a, v) \<Longrightarrow> io_bind m f w = f a v"
  by (simp add: io_bind_def)

lemma io_bind_Inl [io_exec]: "m w = (Inl s, v) \<Longrightarrow> io_bind m f w = (Inl s, v)"
  by (simp add: io_bind_def)

lemma io_then_Inr [io_exec]: "m w = (Inr a, v) \<Longrightarrow> io_then m k w = k v"
  by (simp add: io_then_def io_bind_def)

lemma io_then_Inl [io_exec]: "m w = (Inl s, v) \<Longrightarrow> io_then m k w = (Inl s, v)"
  by (simp add: io_then_def io_bind_def)

lemma io_when_True [io_exec]: "b \<Longrightarrow> io_when b m = m"
  by (simp add: io_when_def)

lemma io_when_False [io_exec]: "\<not> b \<Longrightarrow> io_when b m = ret ()"
  by (simp add: io_when_def)

lemma answer_Cons [io_exec]: "script w = r # rs \<Longrightarrow> answer s w = (Inr r, w\<lparr>script := rs\<rparr>)"
  by (simp add: answer_def)

lemma answer_Nil [io_exec]: "script w = [] \<Longrightarrow> answer s w = (Inl s, w)"
  by (simp add: answer_def)

lemma io_bind_returns:
  "io_bind m f w = (Inr b, v) \<longleftrightarrow> (\<exists>a u. m w = (Inr a, u) \<and> f a u = (Inr b, v))"
  by (auto simp: io_bind_def split: prod.splits sum.splits)

lemma io_then_returns:
  "io_then m k w = (Inr b, v) \<longleftrightarrow> (\<exists>a u. m w = (Inr a, u) \<and> k u = (Inr b, v))"
  by (simp add: io_then_def io_bind_returns)

lemma io_bind_assoc: "io_bind (io_bind m f) g = io_bind m (\<lambda>a. io_bind (f a) g)"
  by (auto simp: io_bind_def fun_eq_iff split: prod.splits sum.splits)

lemma io_loop_continue:
  assumes "body l w = (Inr (Inl l'), v)" and "length (script v) < length (script w)"
  shows "io_loop body l w = io_loop body l' v"
  using assms by (simp add: io_loop.simps [of body l w])

lemma io_loop_done: "body l w = (Inr (Inr a), v) \<Longrightarrow> io_loop body l w = (Inr a, v)"
  by (simp add: io_loop.simps [of body l w])

lemma io_loop_stop: "body l w = (Inl s, v) \<Longrightarrow> io_loop body l w = (Inl s, v)"
  by (simp add: io_loop.simps [of body l w])

section \<open>Triples\<close>

text \<open>
  \<open>triple P m Q\<close>: from a world where \<open>P\<close> holds, \<open>m\<close> ends in an outcome and a world
  related by \<open>Q\<close>. The outcome may be any stop: \<open>Q\<close> says what is promised then.
\<close>

definition triple ::
  "(('r, 's, 'e) world \<Rightarrow> bool) \<Rightarrow> ('r, 's, 'e, 'a) io \<Rightarrow>
   (stop + 'a \<Rightarrow> ('r, 's, 'e) world \<Rightarrow> bool) \<Rightarrow> bool" where
  "triple P m Q \<longleftrightarrow> (\<forall>w. P w \<longrightarrow> Q (fst (m w)) (snd (m w)))"

lemma tripleI: "(\<And>w r v. P w \<Longrightarrow> m w = (r, v) \<Longrightarrow> Q r v) \<Longrightarrow> triple P m Q"
  by (metis prod.collapse triple_def)

lemma tripleD: "triple P m Q \<Longrightarrow> P w \<Longrightarrow> m w = (r, v) \<Longrightarrow> Q r v"
  by (auto simp: triple_def dest: spec [of _ w])

lemma triple_conseq:
  "triple P' m Q' \<Longrightarrow> (\<And>w. P w \<Longrightarrow> P' w) \<Longrightarrow> (\<And>r w. Q' r w \<Longrightarrow> Q r w) \<Longrightarrow> triple P m Q"
  by (simp add: triple_def)

lemma triple_bind:
  assumes m: "triple P m M"
    and f: "\<And>a. triple (M (Inr a)) (f a) Q"
    and stop: "\<And>s w. M (Inl s) w \<Longrightarrow> Q (Inl s) w"
  shows "triple P (io_bind m f) Q"
proof (rule tripleI)
  fix w r v assume P: "P w" and run: "io_bind m f w = (r, v)"
  obtain q u where mw: "m w = (q, u)" by fastforce
  with m P have M: "M q u" by (rule tripleD)
  show "Q r v"
  proof (cases q)
    case (Inl s)
    with M mw run stop show ?thesis by (auto simp: io_bind_def)
  next
    case (Inr a)
    with mw run have "f a u = (r, v)" by (simp add: io_bind_def)
    with f [of a] M Inr show ?thesis by (auto dest: tripleD)
  qed
qed

lemma triple_then:
  assumes "triple P m M" and "\<And>a. triple (M (Inr a)) k Q" and "\<And>s w. M (Inl s) w \<Longrightarrow> Q (Inl s) w"
  shows "triple P (io_then m k) Q"
  using assms unfolding io_then_def by (rule triple_bind)

lemma triple_loop:
  assumes body: "\<And>l. triple (I l) (body l)
      (\<lambda>r v. case r of Inl s \<Rightarrow> Q (Inl s) v | Inr (Inl l') \<Rightarrow> I l' v | Inr (Inr a) \<Rightarrow> Q (Inr a) v)"
    and div: "\<And>l v. I l v \<Longrightarrow> Q (Inl Diverge) v"
  shows "triple (I l) (io_loop body l) Q"
proof -
  have "(\<forall>l. triple (I l) (body l) (\<lambda>r v. case r of Inl s \<Rightarrow> Q (Inl s) v
          | Inr (Inl l') \<Rightarrow> I l' v | Inr (Inr a) \<Rightarrow> Q (Inr a) v)) \<longrightarrow>
        I l w \<longrightarrow> Q (fst (io_loop body l w)) (snd (io_loop body l w))" for w
  proof (induction body l w rule: io_loop.induct)
    case (1 body l w)
    show ?case
    proof (intro impI)
      assume b: "\<forall>l. triple (I l) (body l) (\<lambda>r v. case r of Inl s \<Rightarrow> Q (Inl s) v
          | Inr (Inl l') \<Rightarrow> I l' v | Inr (Inr a) \<Rightarrow> Q (Inr a) v)" and I: "I l w"
      obtain q v where q: "body l w = (q, v)" by fastforce
      from tripleD [OF b [rule_format] I q]
      show "Q (fst (io_loop body l w)) (snd (io_loop body l w))"
        using 1 [OF q [symmetric]] b q div
        by (auto simp: io_loop.simps [of body l w] split: sum.splits)
    qed
  qed
  with body show ?thesis by (simp add: triple_def)
qed

section \<open>Relations every run keeps\<close>

text \<open>
  \<open>keeps R m\<close>: every run of \<open>m\<close>, however it ends, relates its first world to its last.
  For a preorder \<open>R\<close> it is closed under the combinators; the interface is interpreted for
  the relations the components need (the script only shrinks, the trace only grows, an
  invariant of the state is preserved).
\<close>

definition keeps ::
  "(('r, 's, 'e) world \<Rightarrow> ('r, 's, 'e) world \<Rightarrow> bool) \<Rightarrow> ('r, 's, 'e, 'a) io \<Rightarrow> bool" where
  "keeps R m \<longleftrightarrow> (\<forall>w. R w (snd (m w)))"

lemma keepsI: "(\<And>w r v. m w = (r, v) \<Longrightarrow> R w v) \<Longrightarrow> keeps R m"
  by (metis keeps_def prod.collapse)

lemma keepsD: "keeps R m \<Longrightarrow> m w = (r, v) \<Longrightarrow> R w v"
  by (metis keeps_def snd_conv)

locale world_preorder =
  fixes R :: "('r, 's, 'e) world \<Rightarrow> ('r, 's, 'e) world \<Rightarrow> bool"
  assumes R_refl: "R w w"
    and R_trans: "R u v \<Longrightarrow> R v w \<Longrightarrow> R u w"
begin

lemma keeps_ret: "keeps R (ret a)"
  by (simp add: keeps_def ret_def R_refl)

lemma keeps_stop: "keeps R (stop_with s)"
  by (simp add: keeps_def stop_with_def R_refl)

lemma keeps_gets: "keeps R (gets_st f)"
  by (simp add: keeps_def gets_st_def R_refl)

lemma keeps_bind:
  assumes "keeps R m" and "\<And>a. keeps R (f a)"
  shows "keeps R (io_bind m f)"
proof (rule keepsI)
  fix w r v assume run: "io_bind m f w = (r, v)"
  obtain q u where m: "m w = (q, u)" by fastforce
  have "R w u" using assms(1) m by (rule keepsD)
  moreover have "R u v" using run m assms(2) R_refl
    by (cases q) (auto simp: io_bind_def dest: keepsD)
  ultimately show "R w v" by (rule R_trans)
qed

lemma keeps_then: "keeps R m \<Longrightarrow> keeps R k \<Longrightarrow> keeps R (io_then m k)"
  unfolding io_then_def by (rule keeps_bind)

lemma keeps_when: "keeps R m \<Longrightarrow> keeps R (io_when b m)"
  by (simp add: io_when_def keeps_ret)

lemma keeps_if: "keeps R m \<Longrightarrow> keeps R k \<Longrightarrow> keeps R (if b then m else k)"
  by simp

lemma keeps_loop:
  assumes "\<And>l. keeps R (body l)"
  shows "keeps R (io_loop body l)"
proof -
  have "triple (R w) (io_loop body l) (\<lambda>_. R w)" for w
  proof (rule triple_loop)
    fix l show "triple (R w) (body l)
      (\<lambda>r v. case r of Inl s \<Rightarrow> R w v | Inr (Inl l') \<Rightarrow> R w v | Inr (Inr a) \<Rightarrow> R w v)"
      using assms [of l] R_trans
      by (auto intro!: tripleI dest: keepsD split: sum.splits)
  qed
  then show ?thesis by (blast intro: keepsI R_refl dest: tripleD)
qed

lemmas keeps_combinators =
  keeps_ret keeps_stop keeps_gets keeps_bind keeps_then keeps_when keeps_if keeps_loop

end

definition script_shrinks :: "('r, 's, 'e) world \<Rightarrow> ('r, 's, 'e) world \<Rightarrow> bool" where
  "script_shrinks w v \<longleftrightarrow> suffix (script v) (script w)"

definition trace_grows :: "('r, 's, 'e) world \<Rightarrow> ('r, 's, 'e) world \<Rightarrow> bool" where
  "trace_grows w v \<longleftrightarrow> prefix (trace w) (trace v)"

interpretation shrink: world_preorder script_shrinks
  by unfold_locales (auto simp: script_shrinks_def intro: suffix_order.trans)

interpretation grow: world_preorder trace_grows
  by unfold_locales (auto simp: trace_grows_def intro: prefix_order.trans)

lemma shrink_modify: "keeps script_shrinks (modify_st f)"
  by (simp add: keeps_def modify_st_def script_shrinks_def)

lemma shrink_emit: "keeps script_shrinks (emit e)"
  by (simp add: keeps_def emit_def script_shrinks_def)

lemma shrink_answer: "keeps script_shrinks (answer s)"
  by (simp add: keeps_def answer_def script_shrinks_def suffix_ConsI split: list.split)

lemma grow_modify: "keeps trace_grows (modify_st f)"
  by (simp add: keeps_def modify_st_def trace_grows_def)

lemma grow_emit: "keeps trace_grows (emit e)"
  by (simp add: keeps_def emit_def trace_grows_def)

lemma grow_answer: "keeps trace_grows (answer s)"
  by (simp add: keeps_def answer_def trace_grows_def split: list.split)

lemmas shrink_intros = shrink.keeps_combinators shrink_modify shrink_emit shrink_answer
lemmas grow_intros = grow.keeps_combinators grow_modify grow_emit grow_answer

section \<open>Progress: loops that always make a call\<close>

text \<open>\<open>consumes\<close>: returning takes at least one answer. \<open>live\<close>: never stuck in a silent loop.\<close>

definition consumes :: "('r, 's, 'e, 'a) io \<Rightarrow> bool" where
  "consumes m \<longleftrightarrow> (\<forall>w a v. m w = (Inr a, v) \<longrightarrow> length (script v) < length (script w))"

definition live :: "('r, 's, 'e, 'a) io \<Rightarrow> bool" where
  "live m \<longleftrightarrow> (\<forall>w. fst (m w) \<noteq> Inl Diverge)"

lemma shrink_length: "keeps script_shrinks m \<Longrightarrow> m w = (r, v) \<Longrightarrow> length (script v) \<le> length (script w)"
  by (auto simp: script_shrinks_def dest!: keepsD suffix_length_le)

lemma consumes_answer: "consumes (answer s)"
  by (auto simp: consumes_def answer_def split: list.splits)

lemma consumes_stop: "consumes (stop_with s)"
  by (simp add: consumes_def stop_with_def)

lemma consumes_bind1: "consumes m \<Longrightarrow> (\<And>a. keeps script_shrinks (f a)) \<Longrightarrow> consumes (io_bind m f)"
  unfolding consumes_def io_bind_returns by (blast dest: shrink_length intro: le_less_trans)

lemma consumes_bind2: "keeps script_shrinks m \<Longrightarrow> (\<And>a. consumes (f a)) \<Longrightarrow> consumes (io_bind m f)"
  unfolding consumes_def io_bind_returns by (blast dest: shrink_length intro: less_le_trans)

lemma consumes_then1: "consumes m \<Longrightarrow> keeps script_shrinks k \<Longrightarrow> consumes (io_then m k)"
  unfolding io_then_def by (rule consumes_bind1)

lemma consumes_then2: "keeps script_shrinks m \<Longrightarrow> consumes k \<Longrightarrow> consumes (io_then m k)"
  unfolding io_then_def by (rule consumes_bind2)

lemma live_ret: "live (ret a)"
  by (simp add: live_def ret_def)

lemma live_stop: "s \<noteq> Diverge \<Longrightarrow> live (stop_with s)"
  by (simp add: live_def stop_with_def)

lemma live_gets: "live (gets_st f)"
  by (simp add: live_def gets_st_def)

lemma live_modify: "live (modify_st f)"
  by (simp add: live_def modify_st_def)

lemma live_emit: "live (emit e)"
  by (simp add: live_def emit_def)

lemma live_answer: "s \<noteq> Diverge \<Longrightarrow> live (answer s)"
  by (simp add: live_def answer_def split: list.split)

lemma live_bind: "live m \<Longrightarrow> (\<And>a. live (f a)) \<Longrightarrow> live (io_bind m f)"
  unfolding live_def io_bind_def by (auto split: prod.splits sum.splits) (metis fst_conv)+

lemma live_then: "live m \<Longrightarrow> live k \<Longrightarrow> live (io_then m k)"
  unfolding io_then_def by (rule live_bind)

lemma live_when: "live m \<Longrightarrow> live (io_when b m)"
  by (simp add: io_when_def live_ret)

lemma live_if: "live m \<Longrightarrow> live k \<Longrightarrow> live (if b then m else k)"
  by simp

lemma live_loop_run:
  assumes "\<And>l. live (body l)"
    and "\<And>l w l' v. body l w = (Inr (Inl l'), v) \<Longrightarrow> length (script v) < length (script w)"
  shows "fst (io_loop body l w) \<noteq> Inl Diverge"
  using assms
proof (induction body l w rule: io_loop.induct)
  case (1 body l w)
  obtain q v where q: "body l w = (q, v)" by fastforce
  have "q \<noteq> Inl Diverge" using "1.prems"(1) [of l] q by (metis live_def fst_conv)
  then show ?case
    using "1.IH" [OF q [symmetric]] "1.prems" q
    by (auto simp: io_loop.simps [of body l w] split: sum.splits)
qed

lemma live_loop:
  assumes "\<And>l. live (body l)"
    and "\<And>l w l' v. body l w = (Inr (Inl l'), v) \<Longrightarrow> length (script v) < length (script w)"
  shows "live (io_loop body l)"
proof -
  have "fst (io_loop body l w) \<noteq> Inl Diverge" for w
    using assms by (rule live_loop_run)
  then show ?thesis by (simp add: live_def)
qed

lemmas live_intros = live_ret live_stop live_gets live_modify live_emit live_answer
  live_bind live_then live_when live_if

section \<open>Fault-free triples\<close>

text \<open>
  \<open>hoare P m Q\<close>: from a world where \<open>P\<close> holds, \<open>m\<close> never ends in a fault, and if it
  returns \<open>a\<close> then \<open>Q a\<close> holds of the world it returns in.
\<close>

fun is_fault :: "stop \<Rightarrow> bool" where
  "is_fault (Fault f) = True"
| "is_fault _ = False"

definition safe_post ::
  "('a \<Rightarrow> ('r, 's, 'e) world \<Rightarrow> bool) \<Rightarrow> stop + 'a \<Rightarrow> ('r, 's, 'e) world \<Rightarrow> bool" where
  "safe_post Q r v = (case r of Inl s \<Rightarrow> \<not> is_fault s | Inr a \<Rightarrow> Q a v)"

lemma safe_post_simps [simp]:
  "safe_post Q (Inr a) = Q a" "safe_post Q (Inl s) = (\<lambda>_. \<not> is_fault s)"
  by (auto simp: safe_post_def)

definition hoare ::
  "(('r, 's, 'e) world \<Rightarrow> bool) \<Rightarrow> ('r, 's, 'e, 'a) io \<Rightarrow>
   ('a \<Rightarrow> ('r, 's, 'e) world \<Rightarrow> bool) \<Rightarrow> bool" where
  "hoare P m Q \<longleftrightarrow> triple P m (safe_post Q)"

lemma hoareI:
  "(\<And>w s v. P w \<Longrightarrow> m w = (Inl s, v) \<Longrightarrow> \<not> is_fault s) \<Longrightarrow>
   (\<And>w a v. P w \<Longrightarrow> m w = (Inr a, v) \<Longrightarrow> Q a v) \<Longrightarrow> hoare P m Q"
  unfolding hoare_def by (rule tripleI) (simp add: safe_post_def split: sum.split)

lemma hoare_returns: "hoare P m Q \<Longrightarrow> P w \<Longrightarrow> m w = (Inr a, v) \<Longrightarrow> Q a v"
  unfolding hoare_def by (drule (2) tripleD) (simp add: safe_post_def)

lemma hoare_no_fault: "hoare P m Q \<Longrightarrow> P w \<Longrightarrow> m w = (Inl s, v) \<Longrightarrow> \<not> is_fault s"
  unfolding hoare_def by (drule (2) tripleD) (simp add: safe_post_def)

lemma hoare_conseq:
  "hoare P' m Q' \<Longrightarrow> (\<And>w. P w \<Longrightarrow> P' w) \<Longrightarrow> (\<And>a w. Q' a w \<Longrightarrow> Q a w) \<Longrightarrow> hoare P m Q"
  unfolding hoare_def by (erule triple_conseq) (auto simp: safe_post_def split: sum.splits)

lemma hoare_pre: "hoare P' m Q \<Longrightarrow> (\<And>w. P w \<Longrightarrow> P' w) \<Longrightarrow> hoare P m Q"
  by (erule hoare_conseq)

lemma hoare_post: "hoare P m Q' \<Longrightarrow> (\<And>a w. Q' a w \<Longrightarrow> Q a w) \<Longrightarrow> hoare P m Q"
  by (erule hoare_conseq)

lemma hoare_bind:
  "hoare P m M \<Longrightarrow> (\<And>a. hoare (M a) (f a) Q) \<Longrightarrow> hoare P (io_bind m f) Q"
  unfolding hoare_def
  by (erule triple_bind) simp_all

lemma hoare_then:
  "hoare P m (\<lambda>_. M) \<Longrightarrow> hoare M k Q \<Longrightarrow> hoare P (io_then m k) Q"
  unfolding io_then_def by (erule hoare_bind)

lemma hoare_ret: "(\<And>w. P w \<Longrightarrow> Q a w) \<Longrightarrow> hoare P (ret a) Q"
  by (rule hoareI) (simp_all add: ret_def)

lemma hoare_stop: "\<not> is_fault s \<Longrightarrow> hoare P (stop_with s) Q"
  by (rule hoareI) (auto simp: stop_with_def)

lemma hoare_gets: "(\<And>w. P w \<Longrightarrow> Q (f (st w)) w) \<Longrightarrow> hoare P (gets_st f) Q"
  by (rule hoareI) (auto simp: gets_st_def)

lemma hoare_modify: "(\<And>w. P w \<Longrightarrow> Q () (w\<lparr>st := f (st w)\<rparr>)) \<Longrightarrow> hoare P (modify_st f) Q"
  by (rule hoareI) (auto simp: modify_st_def)

lemma hoare_emit: "(\<And>w. P w \<Longrightarrow> Q () (w\<lparr>trace := trace w @ [e]\<rparr>)) \<Longrightarrow> hoare P (emit e) Q"
  by (rule hoareI) (auto simp: emit_def)

lemma hoare_answer:
  "\<not> is_fault s \<Longrightarrow> (\<And>w r rs. P w \<Longrightarrow> script w = r # rs \<Longrightarrow> Q r (w\<lparr>script := rs\<rparr>)) \<Longrightarrow>
    hoare P (answer s) Q"
  by (rule hoareI) (auto simp: answer_def split: list.splits)

lemma hoare_gets_bind:
  "(\<And>x. hoare (\<lambda>w. P w \<and> x = f (st w)) (g x) Q) \<Longrightarrow> hoare P (io_bind (gets_st f) g) Q"
  by (rule hoare_bind [where M = "\<lambda>x w. P w \<and> x = f (st w)"]) (auto intro: hoare_gets)

lemma hoare_answer_bind:
  "\<not> is_fault s \<Longrightarrow> (\<And>w s'. P w \<Longrightarrow> P (w\<lparr>script := s'\<rparr>)) \<Longrightarrow> (\<And>r. hoare P (f r) Q) \<Longrightarrow>
    hoare P (io_bind (answer s) f) Q"
  by (rule hoare_bind [where M = "\<lambda>_. P"]) (auto intro: hoare_answer)

lemma hoare_if:
  "(b \<Longrightarrow> hoare P m Q) \<Longrightarrow> (\<not> b \<Longrightarrow> hoare P k Q) \<Longrightarrow> hoare P (if b then m else k) Q"
  by simp

lemma hoare_when:
  "(b \<Longrightarrow> hoare P m Q) \<Longrightarrow> (\<And>w. \<not> b \<Longrightarrow> P w \<Longrightarrow> Q () w) \<Longrightarrow> hoare P (io_when b m) Q"
  by (simp add: io_when_def hoare_ret)

lemma hoare_loop:
  assumes "\<And>l. hoare (I l) (body l) (\<lambda>r v. case r of Inl l' \<Rightarrow> I l' v | Inr a \<Rightarrow> Q a v)"
  shows "hoare (I l) (io_loop body l) Q"
  unfolding hoare_def
proof (rule triple_loop)
  fix l
  show "triple (I l) (body l) (\<lambda>r v. case r of Inl s \<Rightarrow> safe_post Q (Inl s) v
    | Inr (Inl l') \<Rightarrow> I l' v | Inr (Inr a) \<Rightarrow> safe_post Q (Inr a) v)"
    using assms [of l] unfolding hoare_def
    by (rule triple_conseq) (auto simp: safe_post_def split: sum.splits)
qed (simp add: safe_post_def)

lemma hoare_ex: "(\<And>x. hoare (P x) m Q) \<Longrightarrow> hoare (\<lambda>w. \<exists>x. P x w) m Q"
  by (auto intro!: hoareI dest: hoare_returns hoare_no_fault)

lemma hoare_pure: "(p \<Longrightarrow> hoare P m Q) \<Longrightarrow> hoare (\<lambda>w. P w \<and> p) m Q"
  by (auto intro!: hoareI dest: hoare_returns hoare_no_fault)

lemma hoare_False: "hoare (\<lambda>_. False) m Q"
  by (rule hoareI) auto

end
