(* ===== verification/Srv_Defs.thy ===== *)
theory Srv_Defs
  imports Env_IO
begin

text \<open>
  \<open>srv_async/srv_defs.h\<close>: the constants the server is built with, the verbosity levels and
  the \<open>LOG\<close> macro as the text it prints.
\<close>

section \<open>Sizes and limits\<close>

definition MAX_HTTP_BODY_SIZE :: nat where
  [srv_consts]: "MAX_HTTP_BODY_SIZE = 32 * 1024 * 1024"

definition MAX_HTTP_HDR_SIZE :: nat where
  [srv_consts]: "MAX_HTTP_HDR_SIZE = 2048"

definition STACK_SIZE :: int where
  [srv_consts]: "STACK_SIZE = 32768"

definition RECV_BUF_SIZE :: int where
  [srv_consts]: "RECV_BUF_SIZE = 8192"

definition GUARD_SIZE :: int where
  [srv_consts]: "GUARD_SIZE = 4096"

definition CTX_BUF_SIZE :: int where
  [srv_consts]: "CTX_BUF_SIZE = STACK_SIZE + RECV_BUF_SIZE + GUARD_SIZE"

definition SEND_PACKET_SIZE :: int where
  [srv_consts]: "SEND_PACKET_SIZE = 8192"

definition MAX_ACTIVE_TIMEOUT :: time_t where
  [srv_consts]: "MAX_ACTIVE_TIMEOUT = 100000000"

definition CTX_SWAP_TIMEOUT :: time_t where
  [srv_consts]: "CTX_SWAP_TIMEOUT = 100000000"

definition MAX_NUM_WORKERS :: int where
  [srv_consts]: "MAX_NUM_WORKERS = 1000"

definition DEFAULT_SRV_PORT :: int where
  [srv_consts]: "DEFAULT_SRV_PORT = 8080"

definition DEFAULT_NUM_WORKERS :: int where
  [srv_consts]: "DEFAULT_NUM_WORKERS = 1"

definition MIN_CONN_CTX_CACHE_CNT :: int where
  [srv_consts]: "MIN_CONN_CTX_CACHE_CNT = 50"

definition MAX_CONN_CTX_CACHE_CNT :: int where
  [srv_consts]: "MAX_CONN_CTX_CACHE_CNT = 300"

definition TIMEOUT_INF :: time_t where
  [srv_consts]: "TIMEOUT_INF = -1"

definition CLIENT_OP_TIMEOUT :: time_t where
  [srv_consts]: "CLIENT_OP_TIMEOUT = 5000000000"

definition EXIT_FAILURE :: int where
  [srv_consts]: "EXIT_FAILURE = 1"

section \<open>Verbosity levels and the log line\<close>

datatype log_level = LOG_ERROR | LOG_INFO1 | LOG_INFO2

fun level_code :: "log_level \<Rightarrow> int" where
  "level_code LOG_ERROR = 0"
| "level_code LOG_INFO1 = 1"
| "level_code LOG_INFO2 = 2"

text \<open>The enumerators are compared by their codes.\<close>

instantiation log_level :: linorder
begin

definition less_eq_log_level :: "log_level \<Rightarrow> log_level \<Rightarrow> bool" where
  "less_eq_log_level a b \<longleftrightarrow> level_code a \<le> level_code b"

definition less_log_level :: "log_level \<Rightarrow> log_level \<Rightarrow> bool" where
  "less_log_level a b \<longleftrightarrow> level_code a < level_code b"

lemma level_code_inj: "level_code a = level_code b \<Longrightarrow> a = b"
  by (cases a; cases b) simp_all

instance
  by standard (auto simp: less_eq_log_level_def less_log_level_def intro: level_code_inj)

end

fun level_prefix :: "log_level \<Rightarrow> string" where
  "level_prefix LOG_ERROR = ''ERROR: ''"
| "level_prefix LOG_INFO1 = ''INFO1: ''"
| "level_prefix LOG_INFO2 = ''INFO2: ''"

text \<open>
  The macro: nothing below the configured level, else one line with process id, level and
  function; the flag says that the stream is flushed. The configured level is an \<open>int\<close>.
\<close>

definition LOG :: "log_level \<Rightarrow> int \<Rightarrow> nat \<Rightarrow> string \<Rightarrow> string \<Rightarrow> (string \<times> bool) option" where
  "LOG lvl cfg_level pid func msg =
     (if level_code lvl \<le> cfg_level
      then Some (''('' @ show_nat pid @ '') '' @ level_prefix lvl @ func @ ''(): '' @ msg,
                 lvl = LOG_ERROR)
      else None)"

lemma LOG_error_always: "0 \<le> cfg \<Longrightarrow> \<exists>t. LOG LOG_ERROR cfg pid func msg = Some (t, True)"
  by (simp add: LOG_def)

lemma LOG_monotone:
  "a \<le> b \<Longrightarrow> LOG b cfg pid func msg \<noteq> None \<Longrightarrow> LOG a cfg pid func msg' \<noteq> None"
  by (auto simp: LOG_def less_eq_log_level_def split: if_splits)

end
