(* ===== verification/Qlist.thy ===== *)
theory Qlist
  imports Env_IO
begin

text \<open>
  The intrusive circular list of \<open>srv_async/srv_qlist.h\<close>, at the level of its pointers: a
  heap gives every node its \<open>prev\<close> and \<open>next\<close> field, a null pointer is \<open>None\<close>. The macros
  are translated assignment by assignment; an access through a null pointer makes them \<open>None\<close>.
  \<open>qlist_rep h head xs\<close> says that the ring at head \<open>head\<close> holds the nodes \<open>xs\<close> in this order; the
  lemmas show that each macro is the list operation it stands for, and the safe iteration
  visits the list as it was, whatever its body does to the entry it is at.
\<close>

section \<open>Nodes and macros\<close>

record 'a qheap =
  qprev :: "'a \<Rightarrow> 'a option"
  qnext :: "'a \<Rightarrow> 'a option"

definition set_qprev :: "'a \<Rightarrow> 'a option \<Rightarrow> 'a qheap \<Rightarrow> 'a qheap" where
  "set_qprev a v h = h\<lparr>qprev := (qprev h)(a := v)\<rparr>"

definition set_qnext :: "'a \<Rightarrow> 'a option \<Rightarrow> 'a qheap \<Rightarrow> 'a qheap" where
  "set_qnext a v h = h\<lparr>qnext := (qnext h)(a := v)\<rparr>"

definition qlist_head_init :: "'a \<Rightarrow> 'a qheap \<Rightarrow> 'a qheap" where
  "qlist_head_init head h = set_qnext head (Some head) (set_qprev head (Some head) h)"

definition qlist_empty :: "'a \<Rightarrow> 'a qheap \<Rightarrow> bool" where
  "qlist_empty head h \<longleftrightarrow> qnext h head = Some head"

definition qlist_first_entry :: "'a \<Rightarrow> 'a qheap \<Rightarrow> 'a option" where
  "qlist_first_entry head h = qnext h head"

definition qlist_next_entry :: "'a \<Rightarrow> 'a qheap \<Rightarrow> 'a option" where
  "qlist_next_entry pos h = qnext h pos"

definition qlist_entry_is_head :: "'a \<Rightarrow> 'a \<Rightarrow> bool" where
  "qlist_entry_is_head head pos \<longleftrightarrow> pos = head"

definition qlist_add_head :: "'a \<Rightarrow> 'a \<Rightarrow> 'a qheap \<Rightarrow> 'a qheap option" where
  "qlist_add_head head it h =
     (let nx = qnext h head; h1 = set_qnext head (Some it) h in
      case nx of
        None \<Rightarrow> None
      | Some n \<Rightarrow>
          let h2 = set_qprev n (Some it) h1;
              h3 = set_qprev it (Some head) h2
          in Some (set_qnext it nx h3))"

definition qlist_add_tail :: "'a \<Rightarrow> 'a \<Rightarrow> 'a qheap \<Rightarrow> 'a qheap option" where
  "qlist_add_tail head it h =
     (let pv = qprev h head; h1 = set_qprev head (Some it) h in
      case pv of
        None \<Rightarrow> None
      | Some p \<Rightarrow>
          let h2 = set_qnext p (Some it) h1;
              h3 = set_qnext it (Some head) h2
          in Some (set_qprev it pv h3))"

definition qlist_del_entry :: "'a \<Rightarrow> 'a qheap \<Rightarrow> 'a qheap option" where
  "qlist_del_entry it h =
     (case (qprev h it, qnext h it) of
        (Some p, Some n) \<Rightarrow>
          let h1 = set_qnext p (Some n) h;
              h2 = set_qprev n (Some p) h1;
              h3 = set_qnext it None h2
          in Some (set_qprev it None h3)
      | _ \<Rightarrow> None)"

lemmas qlist_macros = qlist_add_head_def qlist_add_tail_def qlist_del_entry_def
  set_qprev_def set_qnext_def

section \<open>What a ring represents\<close>

lemma in_set_tlD: "a \<in> set (tl l) \<Longrightarrow> a \<in> set l"
  by (cases l) auto

fun linked :: "'a qheap \<Rightarrow> 'a list \<Rightarrow> bool" where
  "linked h (x # y # zs) \<longleftrightarrow> qnext h x = Some y \<and> qprev h y = Some x \<and> linked h (y # zs)"
| "linked h _ \<longleftrightarrow> True"

definition qlist_rep :: "'a qheap \<Rightarrow> 'a \<Rightarrow> 'a list \<Rightarrow> bool" where
  "qlist_rep h head xs \<longleftrightarrow> distinct (head # xs) \<and> linked h (head # xs @ [head])"

definition same_links :: "'a set \<Rightarrow> 'a qheap \<Rightarrow> 'a qheap \<Rightarrow> bool" where
  "same_links A h h' \<longleftrightarrow> (\<forall>a\<in>A. qnext h' a = qnext h a \<and> qprev h' a = qprev h a)"

lemma linked_append: "linked h (xs @ y # ys) \<longleftrightarrow> linked h (xs @ [y]) \<and> linked h (y # ys)"
proof (induction xs)
  case (Cons x xs)
  then show ?case by (cases xs) auto
qed simp

lemma linked_cong:
  "(\<And>a. a \<in> set (butlast l) \<Longrightarrow> qnext h a = qnext h' a) \<Longrightarrow>
   (\<And>a. a \<in> set (tl l) \<Longrightarrow> qprev h a = qprev h' a) \<Longrightarrow> linked h l = linked h' l"
proof (induction h l rule: linked.induct)
  case (1 h x y zs)
  then show ?case by (cases zs) auto
qed auto

lemma rep_distinct: "qlist_rep h head xs \<Longrightarrow> distinct (head # xs)"
  by (simp add: qlist_rep_def)

lemma rep_frame:
  assumes "qlist_rep h head xs" and "same_links (set (head # xs)) h h'"
  shows "qlist_rep h' head xs"
proof -
  have "linked h' (head # xs @ [head]) = linked h (head # xs @ [head])"
    using assms(2) by (intro linked_cong) (auto simp: same_links_def butlast_append)
  with assms(1) show ?thesis by (simp add: qlist_rep_def)
qed

text \<open>A ring split at two neighbours, and what relinking the neighbours makes of it.\<close>

lemma ring_split:
  assumes "linked h (xs @ [p, n] @ ys)"
  shows "qnext h p = Some n" and "qprev h n = Some p"
  using assms linked_append [of h xs p "n # ys"] by auto

lemma relink:
  assumes lnk: "linked h (A @ [p])" "linked h (n # B)"
    and nx: "\<And>a. a \<in> set A \<union> set (butlast (n # B)) \<Longrightarrow> qnext h' a = qnext h a"
    and pv: "\<And>a. a \<in> set (tl (A @ [p])) \<union> set B \<Longrightarrow> qprev h' a = qprev h a"
  shows "linked h' (A @ [p])" and "linked h' (n # B)"
proof -
  have "linked h (A @ [p]) = linked h' (A @ [p])"
    using nx pv by (intro linked_cong) auto
  with lnk show "linked h' (A @ [p])" by simp
  have "linked h (n # B) = linked h' (n # B)"
    using nx pv by (intro linked_cong) auto
  with lnk show "linked h' (n # B)" by simp
qed

section \<open>The macros are list operations\<close>

lemma rep_init: "qlist_rep (qlist_head_init head h) head []"
  by (simp add: qlist_rep_def qlist_head_init_def set_qprev_def set_qnext_def)

lemma rep_empty_iff: "qlist_rep h head xs \<Longrightarrow> qlist_empty head h \<longleftrightarrow> xs = []"
  by (cases xs) (auto simp: qlist_rep_def qlist_empty_def)

lemma rep_first: "qlist_rep h head (x # xs) \<Longrightarrow> qlist_first_entry head h = Some x"
  by (simp add: qlist_rep_def qlist_first_entry_def)

lemma rep_first_Nil: "qlist_rep h head [] \<Longrightarrow> qlist_first_entry head h = Some head"
  by (simp add: qlist_rep_def qlist_first_entry_def)

lemma rep_next:
  assumes "qlist_rep h head (ys @ x # xs)"
  shows "qlist_next_entry x h = Some (case xs of [] \<Rightarrow> head | z # _ \<Rightarrow> z)"
proof -
  from assms have "linked h ((head # ys) @ x # xs @ [head])" by (simp add: qlist_rep_def)
  then have "linked h (x # xs @ [head])" using linked_append [of h "head # ys" x "xs @ [head]"] by blast
  then show ?thesis by (cases xs) (simp_all add: qlist_next_entry_def)
qed

text \<open>Insertion between two neighbours \<open>p\<close> and \<open>n\<close> of the ring.\<close>

lemma insert_between:
  assumes lnk: "linked h (A @ p # n # B)" and d: "distinct (A @ [p])" "distinct (n # B)"
    and disj: "set A \<inter> set (butlast (n # B)) = {}" "p \<notin> set (butlast (n # B))"
      "set (tl (A @ [p])) \<inter> set (n # B) = {}"
    and it: "it \<notin> set (A @ [p]) \<union> set (n # B)"
    and h': "qnext h' = (qnext h)(p := Some it, it := Some n)"
      "qprev h' = (qprev h)(n := Some it, it := Some p)"
  shows "linked h' (A @ p # it # n # B)"
proof -
  have l: "linked h (A @ [p])" "linked h (n # B)"
    using lnk linked_append [of h A p "n # B"] by auto
  have "qnext h' a = qnext h a" if "a \<in> set A \<union> set (butlast (n # B))" for a
  proof -
    from that d disj have "a \<noteq> p" by auto
    moreover from that it have "a \<noteq> it" using in_set_butlastD [of a "n # B"] by auto
    ultimately show ?thesis using h' by simp
  qed
  moreover have "qprev h' a = qprev h a" if "a \<in> set (tl (A @ [p])) \<union> set B" for a
  proof -
    from that d disj have "a \<noteq> n" by auto
    moreover from that it have "a \<noteq> it" using in_set_tlD [of a "A @ [p]"] by auto
    ultimately show ?thesis using h' by simp
  qed
  ultimately have "linked h' (A @ [p])" and "linked h' (n # B)"
    using relink [OF l, of h'] by blast+
  then show ?thesis
    using h' it linked_append [of h' A p "it # n # B"] by auto
qed

lemma rep_add_head:
  assumes rep: "qlist_rep h head xs" and it: "it \<notin> set (head # xs)"
  shows "\<exists>h'. qlist_add_head head it h = Some h' \<and> qlist_rep h' head (it # xs) \<and>
    same_links (- set (it # head # xs)) h h'"
proof -
  obtain n B where nB: "xs @ [head] = n # B" by (cases xs) auto
  have lnk: "linked h ([] @ head # n # B)" using rep nB by (simp add: qlist_rep_def)
  then have nx: "qnext h head = Some n" by simp
  define h' where "h' = h\<lparr>qnext := (qnext h)(head := Some it, it := Some n),
    qprev := (qprev h)(n := Some it, it := Some head)\<rparr>"
  have run: "qlist_add_head head it h = Some h'"
    by (simp add: qlist_macros nx h'_def Let_def)
  have dn: "distinct (n # B)" "set (n # B) = set (head # xs)" "butlast (n # B) = xs"
    using rep_distinct [OF rep] nB [symmetric] by auto
  have "linked h' ([] @ head # it # n # B)"
    by (rule insert_between [OF lnk]) (use dn it rep_distinct [OF rep] in \<open>auto simp: h'_def\<close>)
  then have "qlist_rep h' head (it # xs)"
    using rep_distinct [OF rep] it nB by (auto simp: qlist_rep_def)
  moreover have "same_links (- set (it # head # xs)) h h'"
    using dn by (auto simp: same_links_def h'_def)
  ultimately show ?thesis using run by blast
qed

lemma rep_add_tail:
  assumes rep: "qlist_rep h head xs" and it: "it \<notin> set (head # xs)"
  shows "\<exists>h'. qlist_add_tail head it h = Some h' \<and> qlist_rep h' head (xs @ [it]) \<and>
    same_links (- set (it # head # xs)) h h'"
proof -
  obtain A p where Ap: "head # xs = A @ [p]" by (metis rev_exhaust list.distinct(1))
  have "head # xs @ [head] = (head # xs) @ [head]" by simp
  also have "\<dots> = A @ p # head # []" unfolding Ap by simp
  finally have lnk: "linked h (A @ p # head # [])" using rep unfolding qlist_rep_def by metis
  then have pv: "qprev h head = Some p" using ring_split(2) [of h A p head "[]"] by simp
  define h' where "h' = h\<lparr>qnext := (qnext h)(p := Some it, it := Some head),
    qprev := (qprev h)(head := Some it, it := Some p)\<rparr>"
  have run: "qlist_add_tail head it h = Some h'"
    by (simp add: qlist_macros pv h'_def Let_def fun_upd_twist)
  have dA: "distinct (A @ [p])" "set (A @ [p]) = set (head # xs)" "set (tl (A @ [p])) = set xs"
    using rep_distinct [OF rep] Ap [symmetric] by auto
  have "linked h' (A @ p # it # head # [])"
    by (rule insert_between [OF lnk]) (use dA it rep_distinct [OF rep] in \<open>auto simp: h'_def\<close>)
  moreover have "A @ p # it # head # [] = head # (xs @ [it]) @ [head]" using Ap by auto
  ultimately have "qlist_rep h' head (xs @ [it])"
    using rep_distinct [OF rep] it by (auto simp: qlist_rep_def)
  moreover have "same_links (- set (it # head # xs)) h h'"
    using dA by (auto simp: same_links_def h'_def)
  ultimately show ?thesis using run by blast
qed

lemma rep_del_entry:
  assumes rep: "qlist_rep h head (ys @ x # zs)"
  shows "\<exists>h'. qlist_del_entry x h = Some h' \<and> qlist_rep h' head (ys @ zs) \<and>
    same_links (- set (head # ys @ x # zs)) h h'"
proof -
  obtain A p where Ap: "head # ys = A @ [p]" by (metis rev_exhaust list.distinct(1))
  obtain n B where nB: "zs @ [head] = n # B" by (cases zs) auto
  have "head # (ys @ x # zs) @ [head] = (head # ys) @ x # (zs @ [head])" by simp
  also have "\<dots> = (A @ [p]) @ x # n # B" unfolding Ap nB by simp
  finally have lnk: "linked h ((A @ [p]) @ x # n # B)" using rep unfolding qlist_rep_def by metis
  have pv: "qprev h x = Some p" and nx: "qnext h x = Some n"
    and l: "linked h (A @ [p])" "linked h (n # B)"
    using lnk linked_append [of h "A @ [p]" x "n # B"] linked_append [of h A p "[x]"] by auto
  define h' where "h' = h\<lparr>qnext := (qnext h)(p := Some n, x := None),
    qprev := (qprev h)(n := Some p, x := None)\<rparr>"
  have run: "qlist_del_entry x h = Some h'"
    by (simp add: qlist_macros pv nx h'_def Let_def)
  have dist: "distinct (head # ys @ x # zs)" using rep by (rule rep_distinct)
  have dA: "distinct (A @ [p])" "set (A @ [p]) = set (head # ys)" "set (tl (A @ [p])) = set ys"
    using dist Ap [symmetric] by auto
  have dB: "distinct (n # B)" "set (n # B) = set (head # zs)" "set (butlast (n # B)) = set zs"
    using dist nB [symmetric] by auto
  have "qnext h' a = qnext h a" if "a \<in> set A \<union> set (butlast (n # B))" for a
  proof -
    from that dist dA dB have "a \<noteq> p" "a \<noteq> x" by (auto dest: in_set_butlastD)
    then show ?thesis by (simp add: h'_def)
  qed
  moreover have "qprev h' a = qprev h a" if "a \<in> set (tl (A @ [p])) \<union> set B" for a
  proof -
    from that dist dA dB have "a \<noteq> n" "a \<noteq> x" by auto
    then show ?thesis by (simp add: h'_def)
  qed
  ultimately have "linked h' (A @ [p])" and "linked h' (n # B)"
    using relink [OF l, of h'] by blast+
  moreover have "p \<noteq> x" "n \<noteq> x" using dist dA dB by auto
  ultimately have "linked h' (A @ p # n # B)"
    using linked_append [of h' A p "n # B"] by (simp add: h'_def)
  moreover have "A @ p # n # B = head # (ys @ zs) @ [head]" using Ap nB by simp
  ultimately have "qlist_rep h' head (ys @ zs)" using dist by (auto simp: qlist_rep_def)
  moreover have "same_links (- set (head # ys @ x # zs)) h h'"
    using dA dB by (auto simp: same_links_def h'_def)
  ultimately show ?thesis using run by blast
qed

section \<open>The interface the connection code uses\<close>

text \<open>
  What a client of the macros relies on: \<open>rep\<close> relates a heap to the list a head stands for;
  adding puts a fresh node at an end, deleting takes a node out, and links of nodes outside
  the ring are left alone, so that two rings in one heap do not disturb each other.
\<close>

locale ring_list =
  fixes rep :: "'a qheap \<Rightarrow> 'a \<Rightarrow> 'a list \<Rightarrow> bool"
    and add_head :: "'a \<Rightarrow> 'a \<Rightarrow> 'a qheap \<Rightarrow> 'a qheap option"
    and add_tail :: "'a \<Rightarrow> 'a \<Rightarrow> 'a qheap \<Rightarrow> 'a qheap option"
    and del_entry :: "'a \<Rightarrow> 'a qheap \<Rightarrow> 'a qheap option"
    and first :: "'a \<Rightarrow> 'a qheap \<Rightarrow> 'a option"
  assumes distinct_ring: "rep h head xs \<Longrightarrow> distinct (head # xs)"
    and frame: "rep h head xs \<Longrightarrow> same_links (set (head # xs)) h h' \<Longrightarrow> rep h' head xs"
    and first_entry: "rep h head (x # xs) \<Longrightarrow> first head h = Some x"
    and add_head: "rep h head xs \<Longrightarrow> it \<notin> set (head # xs) \<Longrightarrow>
      \<exists>h'. add_head head it h = Some h' \<and> rep h' head (it # xs) \<and>
        same_links (- set (it # head # xs)) h h'"
    and add_tail: "rep h head xs \<Longrightarrow> it \<notin> set (head # xs) \<Longrightarrow>
      \<exists>h'. add_tail head it h = Some h' \<and> rep h' head (xs @ [it]) \<and>
        same_links (- set (it # head # xs)) h h'"
    and del_entry: "rep h head (ys @ x # zs) \<Longrightarrow>
      \<exists>h'. del_entry x h = Some h' \<and> rep h' head (ys @ zs) \<and>
        same_links (- set (head # ys @ x # zs)) h h'"
begin

text \<open>Two disjoint rings: an operation on one leaves the other as it is.\<close>

lemma add_head_other:
  assumes "rep h head xs" and "rep h other ys" and "it \<notin> set (head # xs)"
    and "set (it # head # xs) \<inter> set (other # ys) = {}"
  shows "\<exists>h'. add_head head it h = Some h' \<and> rep h' head (it # xs) \<and> rep h' other ys"
proof -
  from add_head [OF assms(1,3)] obtain h' where
    h': "add_head head it h = Some h'" "rep h' head (it # xs)"
    and s: "same_links (- set (it # head # xs)) h h'" by blast
  from s assms(4) have "same_links (set (other # ys)) h h'"
    unfolding same_links_def by blast
  with assms(2) h' show ?thesis by (blast intro: frame)
qed

lemma del_entry_other:
  assumes "rep h head (as @ x # bs)" and "rep h other ys"
    and "set (head # as @ x # bs) \<inter> set (other # ys) = {}"
  shows "\<exists>h'. del_entry x h = Some h' \<and> rep h' head (as @ bs) \<and> rep h' other ys"
proof -
  from del_entry [OF assms(1)] obtain h' where
    h': "del_entry x h = Some h'" "rep h' head (as @ bs)"
    and s: "same_links (- set (head # as @ x # bs)) h h'" by blast
  from s assms(3) have "same_links (set (other # ys)) h h'"
    unfolding same_links_def by blast
  with assms(2) h' show ?thesis by (blast intro: frame)
qed

text \<open>A stack: what was added at the head last comes off first.\<close>

lemma add_then_del:
  assumes "rep h head xs" and "it \<notin> set (head # xs)"
  shows "\<exists>h1 h2. add_head head it h = Some h1 \<and> first head h1 = Some it \<and>
    del_entry it h1 = Some h2 \<and> rep h2 head xs"
proof -
  from add_head [OF assms] obtain h1 where
    h1: "add_head head it h = Some h1" "rep h1 head (it # xs)" by blast
  from del_entry [of h1 head "[]" it xs] h1(2) obtain h2 where
    "del_entry it h1 = Some h2" "rep h2 head xs" by auto
  with h1 first_entry show ?thesis by blast
qed

end

interpretation ql: ring_list qlist_rep qlist_add_head qlist_add_tail qlist_del_entry
  qlist_first_entry
proof unfold_locales
  show "qlist_rep h head xs \<Longrightarrow> same_links (set (head # xs)) h h' \<Longrightarrow> qlist_rep h' head xs"
    for h h' :: "'a qheap" and head xs by (rule rep_frame)
  show "qlist_rep h head (x # xs) \<Longrightarrow> qlist_first_entry head h = Some x"
    for h :: "'a qheap" and head x xs by (rule rep_first)
qed (fact rep_distinct rep_add_head rep_add_tail rep_del_entry)+

section \<open>Safe iteration\<close>

text \<open>
  \<open>qlist_foreach_entry_safe\<close>: \<open>pos_n\<close> is read before the body runs, so the body may take
  \<open>pos\<close> out of the ring. \<open>H\<close> finds the links in the program's state. The body is expected to
  make at least one call; the loop is an \<open>io_loop\<close>.
\<close>

definition foreach_safe_body ::
  "('s \<Rightarrow> 'a qheap) \<Rightarrow> 'a \<Rightarrow> ('a \<Rightarrow> ('r, 's, 'e, unit) io) \<Rightarrow>
   'a option \<times> 'a option \<Rightarrow> ('r, 's, 'e, 'a option \<times> 'a option + unit) io" where
  "foreach_safe_body H head body l =
     (case l of
        (None, pos_n) \<Rightarrow> stop_with (Fault Null_deref)
      | (Some pos, pos_n) \<Rightarrow>
          if qlist_entry_is_head head pos then ret (Inr ())
          else io_then (body pos)
            (case pos_n of
               None \<Rightarrow> stop_with (Fault Null_deref)
             | Some n \<Rightarrow> io_bind (gets_st (\<lambda>s. qlist_next_entry n (H s)))
                 (\<lambda>nn. ret (Inl (pos_n, nn)))))"

definition qlist_foreach_safe ::
  "('s \<Rightarrow> 'a qheap) \<Rightarrow> 'a \<Rightarrow> ('a \<Rightarrow> ('r, 's, 'e, unit) io) \<Rightarrow> ('r, 's, 'e, unit) io" where
  "qlist_foreach_safe H head body =
     io_bind (gets_st (\<lambda>s. qlist_first_entry head (H s))) (\<lambda>pos.
       case pos of
         None \<Rightarrow> stop_with (Fault Null_deref)
       | Some p \<Rightarrow> io_bind (gets_st (\<lambda>s. qlist_next_entry p (H s)))
           (\<lambda>pos_n. io_loop (foreach_safe_body H head body) (pos, pos_n)))"

text \<open>What it stands for: the body once for each entry of a list, in order.\<close>

fun foreach_list :: "('a \<Rightarrow> ('r, 's, 'e, unit) io) \<Rightarrow> 'a list \<Rightarrow> ('r, 's, 'e, unit) io" where
  "foreach_list body [] = ret ()"
| "foreach_list body (x # xs) = io_then (body x) (foreach_list body xs)"

definition ring_pos :: "'a \<Rightarrow> 'a list \<Rightarrow> 'a" where
  "ring_pos head xs = (case xs of [] \<Rightarrow> head | x # _ \<Rightarrow> x)"

lemma rep_next_pos: "qlist_rep h head (ys @ x # xs) \<Longrightarrow> qlist_next_entry x h = Some (ring_pos head xs)"
  by (simp add: rep_next ring_pos_def)

lemma foreach_loop_list:
  assumes call: "\<And>x w v. body x w = (Inr (), v) \<Longrightarrow> length (script v) < length (script w)"
    and rep: "\<And>xs w. J xs w \<Longrightarrow> \<exists>ys. qlist_rep (H (st w)) head (ys @ xs)"
    and step: "\<And>x xs w v. J (x # xs) w \<Longrightarrow> body x w = (Inr (), v) \<Longrightarrow> J xs v"
  shows "J xs w \<Longrightarrow> (xs \<noteq> [] \<Longrightarrow> pos_n = Some (ring_pos head (tl xs))) \<Longrightarrow>
    io_loop (foreach_safe_body H head body) (Some (ring_pos head xs), pos_n) w =
    foreach_list body xs w"
proof (induction xs arbitrary: w pos_n)
  case Nil
  have "foreach_safe_body H head body (Some head, pos_n) w = (Inr (Inr ()), w)"
    by (simp add: foreach_safe_body_def qlist_entry_is_head_def ret_def)
  then show ?case by (simp add: ring_pos_def io_loop_done ret_def)
next
  case (Cons x xs)
  obtain ys where "qlist_rep (H (st w)) head (ys @ x # xs)" using rep [OF Cons.prems(1)] by blast
  then have neq: "x \<noteq> head" using rep_distinct by fastforce
  have pn: "pos_n = Some (ring_pos head xs)" using Cons.prems(2) by simp
  let ?b = "foreach_safe_body H head body"
  obtain q v where b: "body x w = (q, v)" by fastforce
  show ?case
  proof (cases q)
    case (Inl s)
    with b neq have "?b (Some x, pos_n) w = (Inl s, v)"
      by (simp add: foreach_safe_body_def qlist_entry_is_head_def io_then_Inl)
    with b Inl show ?thesis by (simp add: ring_pos_def io_loop_stop io_then_Inl)
  next
    case (Inr u)
    with b have b: "body x w = (Inr (), v)" by simp
    have J: "J xs v" using step [OF Cons.prems(1) b] .
    let ?nn = "qlist_next_entry (ring_pos head xs) (H (st v))"
    have "?b (Some x, pos_n) w = (Inr (Inl (pos_n, ?nn)), v)"
      using b neq pn
      by (simp add: foreach_safe_body_def qlist_entry_is_head_def io_then_Inr io_bind_def
          gets_st_def ret_def)
    then have "io_loop ?b (Some x, pos_n) w = io_loop ?b (Some (ring_pos head xs), ?nn) v"
      using call [OF b] pn by (simp add: io_loop_continue)
    also have "\<dots> = foreach_list body xs v"
    proof (rule Cons.IH [OF J])
      assume "xs \<noteq> []"
      then obtain y zs where xs: "xs = y # zs" by (cases xs) auto
      from rep [OF J] xs obtain ys where "qlist_rep (H (st v)) head (ys @ y # zs)" by blast
      with xs show "?nn = Some (ring_pos head (tl xs))"
        by (simp add: rep_next_pos ring_pos_def)
    qed
    finally show ?thesis using b by (simp add: ring_pos_def io_then_Inr)
  qed
qed

text \<open>The iteration over the ring is the iteration over the list the ring held at the start.\<close>

lemma foreach_safe_list:
  assumes call: "\<And>x w v. body x w = (Inr (), v) \<Longrightarrow> length (script v) < length (script w)"
    and rep: "\<And>xs w. J xs w \<Longrightarrow> \<exists>ys. qlist_rep (H (st w)) head (ys @ xs)"
    and step: "\<And>x xs w v. J (x # xs) w \<Longrightarrow> body x w = (Inr (), v) \<Longrightarrow> J xs v"
    and start: "qlist_rep (H (st w)) head xs" "J xs w"
  shows "qlist_foreach_safe H head body w = foreach_list body xs w"
proof -
  have "qlist_first_entry head (H (st w)) = Some (ring_pos head xs)"
    using start(1) by (cases xs) (simp_all add: rep_first rep_first_Nil ring_pos_def)
  then have "qlist_foreach_safe H head body w = io_loop (foreach_safe_body H head body)
      (Some (ring_pos head xs), qlist_next_entry (ring_pos head xs) (H (st w))) w"
    by (simp add: qlist_foreach_safe_def io_bind_def gets_st_def)
  also have "\<dots> = foreach_list body xs w"
  proof (rule foreach_loop_list [where J = J])
    show "J xs w" by (rule start(2))
  next
    assume "xs \<noteq> []"
    then obtain x ys where "xs = x # ys" by (cases xs) auto
    with start(1) rep_next_pos [of "H (st w)" head "[]" x ys]
    show "qlist_next_entry (ring_pos head xs) (H (st w)) = Some (ring_pos head (tl xs))"
      by (simp add: ring_pos_def)
  qed (blast intro: call rep step)+
  finally show ?thesis .
qed

end
