(* ===== verification/Conn_Ctxt.thy ===== *)
theory Conn_Ctxt
  imports Srv_Defs Qlist
begin

text \<open>
  \<open>srv_async/srv_conn_ctxt.c\<close>: the context of a connection (its memory region, receive
  buffer and coroutine stack), the queue of connections with its counters, the cache of
  contexts, and the operations the coroutines call on the current connection.
  The invariant \<open>ctxt_inv q k d s\<close> says: the queue holds the connections \<open>q\<close>, the cache
  the contexts \<open>k\<close>, \<open>d\<close> are in neither, and the counters and allocations agree with this.
\<close>

section \<open>State\<close>

text \<open>
  An entry of the two rings is the head of the queue, the head of the cache, or the \<open>qlist\<close>
  field of the connection allocated at some address. \<open>recv_mem\<close> are the bytes at
  \<open>recv_buf_p\<close>, by offset.
\<close>

datatype node = QueueHead | CacheHead | ConnNode nat

datatype co_entry = Handle_one_connection

record ucontext =
  uc_ss_sp :: int
  uc_ss_size :: int
  uc_links_to_main :: bool
  uc_func :: "co_entry option"

record conn_t =
  conn_ctx :: ucontext
  ctx_buf_p :: int
  ctx_buf_size :: int
  recv_buf_p :: int
  recv_buf_size :: int
  recv_buf_have :: int
  recv_buf_curr :: int
  ss_sp :: int
  ss_size :: int
  conn_sock :: int
  is_completed :: bool
  is_active :: bool
  last_active :: "64 word"
  start_op :: time_t
  recv_mem :: "nat \<Rightarrow> char"

text \<open>
  \<open>p_conn_queue\<close> and \<open>p_conn_ctx_cache\<close>, with what they point to: the ring links, the
  \<open>conn_t\<close> objects by address, the addresses now allocated and the regions now mapped.
\<close>

record srv_state =
  links :: "node qheap"
  conns :: "nat \<Rightarrow> conn_t"
  live_conns :: "nat set"
  regions :: "int set"
  curr_conn :: "nat option"
  active_conn_cnt :: int
  inactive_conn_cnt :: int
  last_ctx_swap :: time_t
  cache_cnt :: int
  n_conn :: "64 word"

text \<open>The answers of the environment, and what the outside sees of the server.\<close>

datatype resp =
    R_clock "64 word" "64 word"   \<comment> \<open>\<open>clock_gettime\<close>: seconds and nanoseconds\<close>
  | R_mmap "int option"           \<comment> \<open>a fresh region, or \<open>MAP_FAILED\<close>\<close>
  | R_mprotect int
  | R_malloc "nat option"
  | R_read_data bytes             \<comment> \<open>what the peer has sent; none is end of file\<close>
  | R_read_err errno
  | R_write_cnt nat               \<comment> \<open>how much the kernel takes at most\<close>
  | R_write_err errno
  | R_fcntl int
  | R_gettid int
  | R_resume "srv_state \<Rightarrow> srv_state" \<comment> \<open>resumed, after the rest of the process ran\<close>
  | R_swapcontext_err
  | R_date string                 \<comment> \<open>the formatted date\<close>
  | R_syscall int                 \<comment> \<open>the result of another call\<close>
  | R_syscall_err errno
  | R_slice "resp list"           \<comment> \<open>the answers a coroutine gets until it switches back\<close>

datatype fcntl_cmd = F_GETFL | F_SETFL int | F_SETSIG int | F_SETOWN int

datatype event =
    Ev_recv int bytes
  | Ev_send int bytes
  | Ev_close int
  | Ev_yield nat
  | Ev_enter nat
  | Ev_fcntl int fcntl_cmd
  | Ev_epoll int                  \<comment> \<open>waiting for clients, with the timeout\<close>
  | Ev_rate int                   \<comment> \<open>the printed number of connections served\<close>

definition set_conn :: "nat \<Rightarrow> (conn_t \<Rightarrow> conn_t) \<Rightarrow> 'a srv_state_scheme \<Rightarrow> 'a srv_state_scheme" where
  "set_conn c f s = s\<lparr>conns := (conns s)(c := f (conns s c))\<rparr>"

section \<open>Time\<close>

text \<open>
  \<open>curr_time\<close>: nanoseconds of the monotonic clock. The contract of \<open>clock_gettime\<close> is checked where it
  answers: the clock counts up from the start of the machine, so neither part is negative, the second is below
  a second, and the nanoseconds fit a \<open>time_t\<close> (292 years). So neither the product nor the sum overflows.
\<close>

definition clock_ok :: "time_t \<Rightarrow> time_t \<Rightarrow> bool" where
  "clock_ok tv_sec tv_nsec \<longleftrightarrow>
     uint tv_nsec < 1000000000 \<and> uint tv_sec * 1000000000 + uint tv_nsec < 2 ^ 63"

definition curr_time :: "(resp, 's, 'e, time_t) io" where
  "curr_time =
     io_bind (answer Wait) (\<lambda>r. case r of
       R_clock tv_sec tv_nsec \<Rightarrow>
         if clock_ok tv_sec tv_nsec then ret (tv_sec * 1000000000 + tv_nsec) else stop_with Mismatch
     | _ \<Rightarrow> stop_with Mismatch)"

section \<open>Context memory\<close>

text \<open>
  Two contracts of the environment are checked where it answers: \<open>mmap\<close> returns a region
  that is not in use, \<open>malloc\<close> an address that is not in use.
\<close>

definition alloc_conn_ctx_mem :: "(resp, 'a srv_state_scheme, 'e, nat option) io" where
  "alloc_conn_ctx_mem =
     io_bind (answer Wait) (\<lambda>r. case r of
       R_mmap None \<Rightarrow> ret None
     | R_mmap (Some ctx_buf) \<Rightarrow>
         io_bind (gets_st regions) (\<lambda>used.
         if ctx_buf \<in> used then stop_with Mismatch
         else io_then (modify_st (\<lambda>s. s\<lparr>regions := insert ctx_buf (regions s)\<rparr>))
           (io_bind (answer Wait) (\<lambda>r. case r of
              R_mprotect e \<Rightarrow>
                if e \<noteq> 0
                then io_then (modify_st (\<lambda>s. s\<lparr>regions := regions s - {ctx_buf}\<rparr>)) (ret None)
                else io_bind (answer Wait) (\<lambda>r. case r of
                    R_malloc None \<Rightarrow>
                      io_then (modify_st (\<lambda>s. s\<lparr>regions := regions s - {ctx_buf}\<rparr>)) (ret None)
                  | R_malloc (Some conn) \<Rightarrow>
                      io_bind (gets_st live_conns) (\<lambda>lv.
                      if conn \<in> lv then stop_with Mismatch
                      else io_then (modify_st (\<lambda>s. s\<lparr>live_conns := insert conn (live_conns s)\<rparr>))
                        (io_then (modify_st (set_conn conn (\<lambda>c. c\<lparr>
                            ctx_buf_p := ctx_buf,
                            ctx_buf_size := CTX_BUF_SIZE,
                            recv_buf_p := ctx_buf,
                            recv_buf_size := RECV_BUF_SIZE,
                            recv_buf_have := 0,
                            recv_buf_curr := 0,
                            ss_sp := ctx_buf + RECV_BUF_SIZE + GUARD_SIZE,
                            ss_size := STACK_SIZE,
                            recv_mem := (\<lambda>_. NUL)\<rparr>)))
                        (ret (Some conn))))
                  | _ \<Rightarrow> stop_with Mismatch)
            | _ \<Rightarrow> stop_with Mismatch)))
     | _ \<Rightarrow> stop_with Mismatch)"

definition free_conn_ctx_mem :: "nat \<Rightarrow> 'a srv_state_scheme \<Rightarrow> 'a srv_state_scheme" where
  "free_conn_ctx_mem conn s =
     s\<lparr>regions := regions s - {ctx_buf_p (conns s conn)}, live_conns := live_conns s - {conn}\<rparr>"

section \<open>The cache of contexts\<close>

definition lift_links ::
  "(node qheap \<Rightarrow> node qheap option) \<Rightarrow> ('r, 'a srv_state_scheme, 'e, unit) io" where
  "lift_links f =
     io_bind (gets_st (\<lambda>s. f (links s))) (\<lambda>r. case r of
       None \<Rightarrow> stop_with (Fault Null_deref)
     | Some h \<Rightarrow> modify_st (\<lambda>s. s\<lparr>links := h\<rparr>))"

text \<open>The loop \<open>while (cnt)\<close> of \<open>fill_conn_ctx_cache\<close>.\<close>

definition fill_loop_body :: "int \<Rightarrow> (resp, 'a srv_state_scheme, 'e, int + unit) io" where
  "fill_loop_body cnt =
     (if cnt = 0 then ret (Inr ())
      else io_bind alloc_conn_ctx_mem (\<lambda>conn. case conn of
          Some c \<Rightarrow>
            io_then (io_then (lift_links (qlist_add_head CacheHead (ConnNode c)))
                (modify_st (\<lambda>s. s\<lparr>cache_cnt := cache_cnt s + 1\<rparr>)))
              (ret (Inl (cnt - 1)))
        | None \<Rightarrow> ret (Inl (cnt - 1))))"

definition fill_conn_ctx_cache :: "(resp, 'a srv_state_scheme, 'e, unit) io" where
  "fill_conn_ctx_cache =
     io_bind (gets_st (\<lambda>s. MIN_CONN_CTX_CACHE_CNT - cache_cnt s)) (\<lambda>cnt.
       io_loop fill_loop_body cnt)"

text \<open>The part of \<open>alloc_conn_ctx\<close> after the cache was refilled.\<close>

definition take_cached_ctx :: "(resp, 'a srv_state_scheme, 'e, nat option) io" where
  "take_cached_ctx =
     io_bind (gets_st cache_cnt) (\<lambda>n.
      if n = 0 then ret None
      else io_bind (gets_st (\<lambda>s. qlist_first_entry CacheHead (links s))) (\<lambda>first. case first of
          Some (ConnNode conn) \<Rightarrow>
            io_then (lift_links (qlist_del_entry (ConnNode conn)))
              (io_then (modify_st (\<lambda>s. s\<lparr>cache_cnt := cache_cnt s - 1\<rparr>)) (ret (Some conn)))
        | _ \<Rightarrow> stop_with (Fault Null_deref)))"

definition alloc_conn_ctx :: "(resp, 'a srv_state_scheme, 'e, nat option) io" where
  "alloc_conn_ctx =
     io_bind (gets_st cache_cnt) (\<lambda>n.
     io_then (io_when (n = 0) fill_conn_ctx_cache) take_cached_ctx)"

definition free_conn_ctx :: "nat \<Rightarrow> ('r, 'a srv_state_scheme, 'e, unit) io" where
  "free_conn_ctx conn =
     io_bind (gets_st cache_cnt) (\<lambda>n.
       if n < MAX_CONN_CTX_CACHE_CNT
       then io_then (lift_links (qlist_add_head CacheHead (ConnNode conn)))
              (modify_st (\<lambda>s. s\<lparr>cache_cnt := cache_cnt s + 1\<rparr>))
       else modify_st (free_conn_ctx_mem conn))"

definition init_new_conn_ctx :: "nat \<Rightarrow> int \<Rightarrow> 'a srv_state_scheme \<Rightarrow> 'a srv_state_scheme" where
  "init_new_conn_ctx conn sock =
     set_conn conn (\<lambda>c. c\<lparr>
       conn_ctx := \<lparr>uc_ss_sp = ss_sp c, uc_ss_size = ss_size c, uc_links_to_main = True,
                    uc_func = Some Handle_one_connection\<rparr>,
       conn_sock := sock,
       is_completed := False,
       is_active := True\<rparr>)"

section \<open>The queue of connections\<close>

definition add_conn_to_queue :: "nat \<Rightarrow> ('r, 'a srv_state_scheme, 'e, unit) io" where
  "add_conn_to_queue conn =
     io_then (lift_links (qlist_add_head QueueHead (ConnNode conn)))
       (modify_st (\<lambda>s.
          if is_active (conns s conn) then s\<lparr>active_conn_cnt := active_conn_cnt s + 1\<rparr>
          else s\<lparr>inactive_conn_cnt := inactive_conn_cnt s + 1\<rparr>))"

definition remove_conn_from_queue :: "nat \<Rightarrow> ('r, 'a srv_state_scheme, 'e, unit) io" where
  "remove_conn_from_queue conn =
     io_then (lift_links (qlist_del_entry (ConnNode conn)))
       (modify_st (\<lambda>s.
          if is_active (conns s conn) then s\<lparr>active_conn_cnt := active_conn_cnt s - 1\<rparr>
          else s\<lparr>inactive_conn_cnt := inactive_conn_cnt s - 1\<rparr>))"

definition init_conn_queue :: "'a srv_state_scheme \<Rightarrow> 'a srv_state_scheme" where
  "init_conn_queue s =
     s\<lparr>links := qlist_head_init QueueHead (links s), curr_conn := None,
       active_conn_cnt := 0, inactive_conn_cnt := 0\<rparr>"

definition init_conn_ctx_cache :: "(resp, 'a srv_state_scheme, 'e, unit) io" where
  "init_conn_ctx_cache =
     io_then (modify_st (\<lambda>s. s\<lparr>links := qlist_head_init CacheHead (links s), cache_cnt := 0\<rparr>))
       fill_conn_ctx_cache"

definition free_closed_conn :: "nat \<Rightarrow> ('r, 'a srv_state_scheme, 'e, unit) io" where
  "free_closed_conn conn = free_conn_ctx conn"

definition create_new_conn :: "int \<Rightarrow> (resp, 'a srv_state_scheme, 'e, int) io" where
  "create_new_conn sock =
     io_bind alloc_conn_ctx (\<lambda>conn. case conn of
       None \<Rightarrow> ret (-1)
     | Some c \<Rightarrow>
         io_then (modify_st (init_new_conn_ctx c sock))
           (io_then (add_conn_to_queue c) (ret 0)))"

section \<open>The current connection\<close>

text \<open>\<open>p_conn_queue.curr_conn->\<close>: an access through a null pointer is a fault.\<close>

definition with_curr :: "(nat \<Rightarrow> ('r, 'a srv_state_scheme, 'e, 'b) io) \<Rightarrow>
    ('r, 'a srv_state_scheme, 'e, 'b) io" where
  "with_curr f = io_bind (gets_st curr_conn) (\<lambda>c. case c of
     None \<Rightarrow> stop_with (Fault Null_deref) | Some conn \<Rightarrow> f conn)"

definition curr_field :: "(conn_t \<Rightarrow> 'b) \<Rightarrow> ('r, 'a srv_state_scheme, 'e, 'b) io" where
  "curr_field f = with_curr (\<lambda>c. gets_st (\<lambda>s. f (conns s c)))"

definition curr_conn_sock :: "('r, 'a srv_state_scheme, 'e, int) io" where
  "curr_conn_sock = curr_field conn_sock"

definition curr_conn_close :: "('r, 'a srv_state_scheme, event, unit) io" where
  "curr_conn_close = with_curr (\<lambda>c.
     io_bind (gets_st (\<lambda>s. conns s c)) (\<lambda>conn.
       io_when (\<not> is_completed conn)
         (io_then (emit (Ev_close (conn_sock conn)))
           (modify_st (set_conn c (\<lambda>k. k\<lparr>is_completed := True\<rparr>))))))"

definition set_inactive :: "nat \<Rightarrow> 'a srv_state_scheme \<Rightarrow> 'a srv_state_scheme" where
  "set_inactive c s =
     (if is_active (conns s c)
      then (set_conn c (\<lambda>k. k\<lparr>is_active := False\<rparr>) s)
             \<lparr>active_conn_cnt := active_conn_cnt s - 1, inactive_conn_cnt := inactive_conn_cnt s + 1\<rparr>
      else s)"

definition curr_conn_set_inactive :: "('r, 'a srv_state_scheme, 'e, unit) io" where
  "curr_conn_set_inactive = with_curr (\<lambda>c. modify_st (set_inactive c))"

definition update_active :: "nat \<Rightarrow> time_t \<Rightarrow> 'a srv_state_scheme \<Rightarrow> 'a srv_state_scheme" where
  "update_active c now s =
     (let s1 = set_conn c (\<lambda>k. k\<lparr>last_active := now\<rparr>) s in
      if \<not> is_active (conns s1 c)
      then (set_conn c (\<lambda>k. k\<lparr>is_active := True\<rparr>) s1)
             \<lparr>active_conn_cnt := active_conn_cnt s + 1, inactive_conn_cnt := inactive_conn_cnt s - 1\<rparr>
      else s1)"

definition curr_conn_update_active :: "(resp, 'a srv_state_scheme, 'e, unit) io" where
  "curr_conn_update_active =
     io_bind curr_time (\<lambda>now. with_curr (\<lambda>c. modify_st (update_active c now)))"

definition curr_conn_start_op :: "(resp, 'a srv_state_scheme, 'e, unit) io" where
  "curr_conn_start_op =
     io_bind curr_time (\<lambda>now. with_curr (\<lambda>c.
       modify_st (set_conn c (\<lambda>k. k\<lparr>start_op := now\<rparr>))))"

lemma clock_reading:
  assumes "clock_ok s n"
  shows "uint (s * 1000000000 + n) = uint s * 1000000000 + uint n" and "sint (s * 1000000000 + n) = uint s * 1000000000 + uint n"
proof -
  let ?t = "uint s * 1000000000 + uint n"
  have t: "0 \<le> ?t" "?t < 2 ^ 63" using assms by (simp_all add: clock_ok_def)
  then show u: "uint (s * 1000000000 + n) = ?t"
    by (simp add: uint_word_ariths mod_simps)
  have "- (2 ^ 63) \<le> ?t" by (rule order_trans [OF _ t(1)]) simp
  with t(2) show "sint (s * 1000000000 + n) = ?t"
    by (simp only: sint_uint u) (simp add: signed_take_bit_int_eq_self)
qed

text \<open>
  \<open>last_active\<close> is an \<open>unsigned long\<close>, so its difference is taken and compared unsigned, and wraps around.
  \<open>start_op\<close> and \<open>last_ctx_swap\<close> are \<open>time_t\<close>: their differences are signed. They hold readings of the
  clock, which are not negative, so the difference of two never overflows (\<open>op_span_fits\<close>) and is the
  difference of the numbers.
\<close>

definition active_timeout_at :: "time_t \<Rightarrow> 64 word \<Rightarrow> bool" where
  "active_timeout_at now la = (now - la > MAX_ACTIVE_TIMEOUT)"

definition op_timeout_at :: "time_t \<Rightarrow> time_t \<Rightarrow> time_t \<Rightarrow> bool" where
  "op_timeout_at now start timeout = (sint timeout < sint now - sint start)"

lemma op_span_fits:
  fixes now start :: time_t
  assumes "0 \<le> sint now" and "0 \<le> sint start"
  shows "- (2 ^ 63) \<le> sint now - sint start" and "sint now - sint start < 2 ^ 63"
  using assms sint_lt [of now] sint_lt [of start] by simp_all

definition curr_conn_active_timeout :: "(resp, 'a srv_state_scheme, 'e, bool) io" where
  "curr_conn_active_timeout =
     io_bind curr_time (\<lambda>now. io_bind (curr_field last_active) (\<lambda>la.
       ret (active_timeout_at now la)))"

definition curr_conn_op_timeout :: "time_t \<Rightarrow> (resp, 'a srv_state_scheme, 'e, bool) io" where
  "curr_conn_op_timeout timeout =
     io_bind curr_time (\<lambda>now. io_bind (curr_field start_op) (\<lambda>so.
       ret (op_timeout_at now so timeout)))"

definition need_ctx_swap :: "(resp, 'a srv_state_scheme, 'e, bool) io" where
  "need_ctx_swap =
     io_bind curr_time (\<lambda>now. io_bind (gets_st last_ctx_swap) (\<lambda>ls.
       ret (op_timeout_at now ls CTX_SWAP_TIMEOUT)))"

section \<open>Switching contexts\<close>

text \<open>
  The coroutine's side of \<open>swapcontext\<close>. While the coroutine is switched out the rest of the
  process runs: it may change anything but this connection's own record, and resumes it with
  \<open>curr_conn\<close> pointing at it (\<open>swap_to_conn_ctx\<close> sets it). An answer that breaks this
  contract is a \<open>Mismatch\<close>; that the scheduler keeps it is proved in \<open>Worker\<close>. The records
  hold the buffer as a function, so their comparison has no code equation.
\<close>

definition same_record :: "conn_t \<Rightarrow> conn_t \<Rightarrow> bool" where
  "same_record k k' \<longleftrightarrow> k = k'"

declare same_record_def [simp, code del]

definition swap_to_main_ctx :: "(resp, srv_state, event, unit) io" where
  "swap_to_main_ctx = with_curr (\<lambda>conn.
     io_then (emit (Ev_yield conn))
     (io_bind (answer Suspended) (\<lambda>r. case r of
        R_swapcontext_err \<Rightarrow> stop_with (Exit EXIT_FAILURE)
      | R_resume f \<Rightarrow>
          io_bind (gets_st (\<lambda>s. same_record (conns (f s) conn) (conns s conn) \<and> curr_conn (f s) = Some conn))
          (\<lambda>ok. if ok
             then io_then (modify_st f)
                    (io_bind curr_time (\<lambda>now. modify_st (\<lambda>s. s\<lparr>last_ctx_swap := now\<rparr>)))
             else stop_with Mismatch)
      | _ \<Rightarrow> stop_with Mismatch)))"

definition cond_swap_to_main_ctx :: "(resp, srv_state, event, unit) io" where
  "cond_swap_to_main_ctx = io_bind need_ctx_swap (\<lambda>b. io_when b swap_to_main_ctx)"

end
