(* ===== verification/Conn_IO.thy ===== *)
theory Conn_IO
  imports Conn_Ctxt
begin

text \<open>
  \<open>srv_async/srv_conn_send_recv.c\<close>: receiving into the connection's buffer and sending from a
  byte string, by non-blocking calls that switch to the main context while the socket is not
  ready. Every caller passes \<open>recv_buf_p\<close> as the buffer, so positions are offsets into it; an
  access beyond the buffer hits the guard page.
\<close>

section \<open>The receive buffer as memory\<close>

definition EAGAIN :: errno where "EAGAIN = 11"
definition EWOULDBLOCK :: errno where "EWOULDBLOCK = 11"
definition EINTR :: errno where "EINTR = 4"
definition EPIPE :: errno where "EPIPE = 32"

definition mem_byte :: "conn_t \<Rightarrow> int \<Rightarrow> fault + char" where
  "mem_byte c i =
     (if 0 \<le> i \<and> i < recv_buf_size c then Inr (recv_mem c (nat i)) else Inl (Out_of_bounds i))"

definition mem_store :: "nat \<Rightarrow> bytes \<Rightarrow> (nat \<Rightarrow> char) \<Rightarrow> nat \<Rightarrow> char" where
  "mem_store off bs m = (\<lambda>i. if off \<le> i \<and> i < off + length bs then bs ! (i - off) else m i)"

definition mem_view :: "(nat \<Rightarrow> char) \<Rightarrow> nat \<Rightarrow> nat \<Rightarrow> bytes" where
  "mem_view m off n = map (\<lambda>i. m (off + i)) [0..<n]"

definition size_t_of :: "int \<Rightarrow> nat" where
  "size_t_of n = nat (n mod 2 ^ 64)"

section \<open>End of a message\<close>

text \<open>
  \<open>strncmp(p, pat, length pat) == 0\<close> for a pattern without a zero byte: bytes are read one
  after the other up to the first difference.
\<close>

fun strncmp_eq :: "(int \<Rightarrow> fault + char) \<Rightarrow> int \<Rightarrow> string \<Rightarrow> fault + bool" where
  "strncmp_eq buf off [] = Inr True"
| "strncmp_eq buf off (p # ps) =
     (case buf off of
        Inl f \<Rightarrow> Inl f
      | Inr b \<Rightarrow> if b = p then strncmp_eq buf (off + 1) ps else Inr False)"

definition term_seq :: string where
  "term_seq = [CR, LF, CR, LF]"

text \<open>\<open>for (i = 3; i >= 1; i--)\<close>: the sequence across the end of the previous chunk.\<close>

fun boundary_loop :: "(int \<Rightarrow> fault + char) \<Rightarrow> int \<Rightarrow> nat \<Rightarrow> fault + bool" where
  "boundary_loop buf prev 0 = Inr False"
| "boundary_loop buf prev (Suc j) =
     (if prev \<ge> int (Suc j)
      then (case strncmp_eq buf (prev - int (Suc j)) term_seq of
              Inl f \<Rightarrow> Inl f
            | Inr e \<Rightarrow> if e then Inr True else boundary_loop buf prev j)
      else boundary_loop buf prev j)"

text \<open>\<open>for (i = prev_n_recv; i <= n_recv - 4; i++)\<close>.\<close>

function scan_loop :: "(int \<Rightarrow> fault + char) \<Rightarrow> int \<Rightarrow> int \<Rightarrow> fault + bool" where
  "scan_loop buf i n =
     (if i \<le> n - 4
      then (case strncmp_eq buf i term_seq of
              Inl f \<Rightarrow> Inl f
            | Inr e \<Rightarrow> if e then Inr True else scan_loop buf (i + 1) n)
      else Inr False)"
  by pat_completeness auto
termination
  by (relation "measure (\<lambda>(buf, i, n). nat (n - 3 - i))") auto

declare scan_loop.simps [simp del]

definition is_http_message_end :: "(int \<Rightarrow> fault + char) \<Rightarrow> int \<Rightarrow> int \<Rightarrow> fault + bool" where
  "is_http_message_end buf prev n =
     (if n < 4 then Inr False
      else case strncmp_eq buf (n - 4) term_seq of
        Inl f \<Rightarrow> Inl f
      | Inr e \<Rightarrow>
          if e then Inr True
          else case boundary_loop buf prev 3 of
            Inl f \<Rightarrow> Inl f
          | Inr e \<Rightarrow> if e then Inr True else scan_loop buf prev n)"

section \<open>The system calls\<close>

text \<open>
  \<open>read(fd, buf + off, n)\<close> of the current connection: the kernel stores at most \<open>n\<close> bytes of
  what the peer has sent; nothing to store is end of file.
\<close>

definition sys_read :: "int \<Rightarrow> int \<Rightarrow> int \<Rightarrow> (resp, 'a srv_state_scheme, event, errno + int) io" where
  "sys_read sock off n =
     io_bind (answer Wait) (\<lambda>r. case r of
       R_read_err e \<Rightarrow> ret (Inl e)
     | R_read_data bs \<Rightarrow>
         (let d = take (size_t_of n) bs in
          io_bind (curr_field recv_buf_size) (\<lambda>size.
          if off < 0 \<or> off + int (length d) > size then stop_with (Fault (Out_of_bounds off))
          else io_then (emit (Ev_recv sock d))
            (io_then (with_curr (\<lambda>c. modify_st (set_conn c (\<lambda>k.
                k\<lparr>recv_mem := mem_store (nat off) d (recv_mem k)\<rparr>))))
              (ret (Inr (int (length d)))))))
     | _ \<Rightarrow> stop_with Mismatch)"

text \<open>
  \<open>write(fd, buf + off, n)\<close>. Nothing in the program changes the action of \<open>SIGPIPE\<close>, so
  an \<open>EPIPE\<close> kills the process before the call returns.
\<close>

definition sys_write :: "int \<Rightarrow> bytes \<Rightarrow> int \<Rightarrow> int \<Rightarrow>
    (resp, 'a srv_state_scheme, event, errno + int) io" where
  "sys_write sock buf off n =
     io_bind (answer Wait) (\<lambda>r. case r of
       R_write_err e \<Rightarrow> if e = EPIPE then stop_with (Fault Sigpipe) else ret (Inl e)
     | R_write_cnt k \<Rightarrow>
         if off < 0 \<or> n < 0 \<or> off + n > int (length buf) then stop_with (Fault (Out_of_bounds off))
         else (let d = take (min k (nat n)) (drop (nat off) buf) in
           io_then (emit (Ev_send sock d)) (ret (Inr (int (length d)))))
     | _ \<Rightarrow> stop_with Mismatch)"

section \<open>Receiving\<close>

text \<open>
  The socket is not ready: note inactivity and switch to the main context. Shared by both
  loops, which differ in the log line only.
\<close>

definition would_block :: "(resp, srv_state, event, unit) io" where
  "would_block =
     io_bind curr_conn_active_timeout (\<lambda>b.
     io_then (io_when b curr_conn_set_inactive) swap_to_main_ctx)"

text \<open>
  The local variables of a loop: bytes left, bytes done, and its two flags. \<open>sock_error\<close> is
  the branch of a negative result, the same in both loops: retry after \<open>EAGAIN\<close>, else close
  the connection and leave for good (the \<open>-1\<close> is not reached).
\<close>

type_synonym io_local = "int \<times> int \<times> bool \<times> bool"

definition sock_error :: "io_local \<Rightarrow> errno \<Rightarrow> (resp, srv_state, event, io_local + int) io" where
  "sock_error l errno =
     (if errno = EAGAIN \<or> errno = EWOULDBLOCK
      then io_then would_block (ret (Inl l))
      else io_then curr_conn_close (io_then swap_to_main_ctx (ret (Inr (-1)))))"

definition check_timeout :: "time_t \<Rightarrow> bool \<Rightarrow> (resp, srv_state, event, bool) io" where
  "check_timeout timeout timed_out =
     (if timeout \<noteq> TIMEOUT_INF then curr_conn_op_timeout timeout else ret timed_out)"

definition check_end :: "bool \<Rightarrow> bool \<Rightarrow> int \<Rightarrow> int \<Rightarrow> (resp, srv_state, event, bool) io" where
  "check_end terminator recv_term prev n =
     (if terminator
      then io_bind (curr_field mem_byte) (\<lambda>buf. lift_fault (is_http_message_end buf prev n))
      else ret recv_term)"

definition recv_got :: "time_t \<Rightarrow> bool \<Rightarrow> io_local \<Rightarrow> int \<Rightarrow>
    (resp, srv_state, event, io_local + int) io" where
  "recv_got timeout terminator l cnt =
     (case l of (to_recv, n_recv, recv_term, recv_timeout) \<Rightarrow>
       if cnt > 0
       then io_then curr_conn_update_active
         (io_bind (check_end terminator recv_term n_recv (n_recv + cnt)) (\<lambda>recv_term'.
          io_bind (check_timeout timeout recv_timeout) (\<lambda>recv_timeout'.
          ret (Inl (to_recv - cnt, n_recv + cnt, recv_term', recv_timeout')))))
       else ret (Inl (to_recv, n_recv, True, recv_timeout)))"

definition recv_body :: "int \<Rightarrow> time_t \<Rightarrow> bool \<Rightarrow> io_local \<Rightarrow>
    (resp, srv_state, event, io_local + int) io" where
  "recv_body prev_n_recv timeout terminator l =
     (case l of (to_recv, n_recv, recv_term, recv_timeout) \<Rightarrow>
       if \<not> (to_recv \<noteq> 0 \<and> \<not> recv_term \<and> \<not> recv_timeout)
       then ret (Inr (n_recv - prev_n_recv))
       else io_bind curr_conn_sock (\<lambda>sock.
         io_bind (sys_read sock n_recv to_recv) (\<lambda>r. case r of
           Inl errno \<Rightarrow> sock_error l errno
         | Inr cnt \<Rightarrow> recv_got timeout terminator l cnt)))"

definition recv_from_curr_conn :: "int \<Rightarrow> int \<Rightarrow> time_t \<Rightarrow> bool \<Rightarrow>
    (resp, srv_state, event, int) io" where
  "recv_from_curr_conn to_recv n_recv timeout terminator =
     io_then curr_conn_update_active
     (io_then curr_conn_start_op
       (io_loop (recv_body n_recv timeout terminator) (to_recv, n_recv, False, False)))"

section \<open>Sending\<close>

definition send_got :: "time_t \<Rightarrow> io_local \<Rightarrow> int \<Rightarrow>
    (resp, srv_state, event, io_local + int) io" where
  "send_got timeout l cnt =
     (case l of (to_send, n_send, send_ended, send_timeout) \<Rightarrow>
       if cnt > 0
       then io_then curr_conn_update_active
         (io_bind (check_timeout timeout send_timeout) (\<lambda>send_timeout'.
          ret (Inl (to_send - cnt, n_send + cnt, send_ended, send_timeout'))))
       else ret (Inl (to_send, n_send, True, send_timeout)))"

definition send_body :: "bytes \<Rightarrow> time_t \<Rightarrow> io_local \<Rightarrow>
    (resp, srv_state, event, io_local + int) io" where
  "send_body buf timeout l =
     (case l of (to_send, n_send, send_ended, send_timeout) \<Rightarrow>
       if \<not> (to_send \<noteq> 0 \<and> \<not> send_ended \<and> \<not> send_timeout)
       then ret (Inr n_send)
       else io_bind curr_conn_sock (\<lambda>sock.
         io_bind (sys_write sock buf n_send to_send) (\<lambda>r. case r of
           Inl errno \<Rightarrow> sock_error l errno
         | Inr cnt \<Rightarrow> send_got timeout l cnt)))"

definition send_to_curr_conn :: "bytes \<Rightarrow> int \<Rightarrow> time_t \<Rightarrow> (resp, srv_state, event, int) io" where
  "send_to_curr_conn buf to_send timeout =
     io_then curr_conn_update_active
     (io_then curr_conn_start_op
       (io_loop (send_body buf timeout) (to_send, 0, False, False)))"

end
