(* ===== verification/Msg_End.thy ===== *)
theory Msg_End
  imports Conn_IO
begin

text \<open>
  What \<open>is_http_message_end\<close> decides. It finds every terminator that ends in the new chunk;
  with at least three new bytes it is exact and stays in the buffer. With one or two new
  bytes the boundary loop reads past the received bytes: it decides as if three had come, so stale
  bytes can make it report an end that is not there, and at the end of the buffer it runs into the
  guard page.
\<close>

section \<open>Bytewise comparison\<close>

lemma strncmp_eq_True:
  "strncmp_eq buf off ps = Inr True \<longleftrightarrow> (\<forall>j<length ps. buf (off + int j) = Inr (ps ! j))"
proof (induction buf off ps rule: strncmp_eq.induct)
  case (2 buf off p ps)
  have "(\<forall>j<length (p # ps). buf (off + int j) = Inr ((p # ps) ! j)) \<longleftrightarrow>
      buf off = Inr p \<and> (\<forall>j<length ps. buf (off + 1 + int j) = Inr (ps ! j))"
    by (auto simp: All_less_Suc2 algebra_simps)
  with 2 show ?case by (auto split: sum.splits)
qed simp

lemma strncmp_eq_fault:
  "strncmp_eq buf off ps = Inl f \<Longrightarrow>
    \<exists>j<length ps. buf (off + int j) = Inl f \<and> (\<forall>i<j. buf (off + int i) = Inr (ps ! i))"
proof (induction buf off ps rule: strncmp_eq.induct)
  case (2 buf off p ps)
  show ?case
  proof (cases "buf off")
    case (Inl g)
    with 2 show ?thesis by (intro exI [of _ 0]) auto
  next
    case (Inr b)
    with 2 obtain j where j: "j < length ps" "buf (off + 1 + int j) = Inl f"
      "\<forall>i<j. buf (off + 1 + int i) = Inr (ps ! i)" and b: "b = p" by (auto split: if_splits)
    with Inr show ?thesis
      by (intro exI [of _ "Suc j"]) (auto simp: All_less_Suc2 algebra_simps)
  qed
qed simp

lemma strncmp_eq_total:
  "(\<And>j. j < length ps \<Longrightarrow> \<exists>b. buf (off + int j) = Inr b) \<Longrightarrow> \<exists>e. strncmp_eq buf off ps = Inr e"
proof (cases "strncmp_eq buf off ps")
  case (Inl f)
  assume "\<And>j. j < length ps \<Longrightarrow> \<exists>b. buf (off + int j) = Inr b"
  with strncmp_eq_fault [OF Inl] show ?thesis by force
qed blast

section \<open>Terminators in the buffer\<close>

definition received :: "conn_t \<Rightarrow> int \<Rightarrow> bytes" where
  "received c n = mem_view (recv_mem c) 0 (nat n)"

lemma length_received [simp]: "length (received c n) = nat n"
  by (simp add: received_def mem_view_def)

lemma nth_received: "i < nat n \<Longrightarrow> received c n ! i = recv_mem c i"
  by (simp add: received_def mem_view_def)

lemma length_term_seq [simp]: "length term_seq = 4"
  by (simp add: term_seq_def)

lemma occurs_received:
  "occurs_at term_seq (received c n) i \<longleftrightarrow>
    int i + 4 \<le> n \<and> (\<forall>j<4. recv_mem c (i + j) = term_seq ! j)"
proof
  assume o: "occurs_at term_seq (received c n) i"
  then have b: "i + 4 \<le> nat n" using occurs_at_bound [OF o] by (simp add: term_seq_def)
  have "recv_mem c (i + j) = term_seq ! j" if "j < 4" for j
  proof -
    have "term_seq ! j = take 4 (drop i (received c n)) ! j"
      using o by (simp add: occurs_at_def)
    also have "\<dots> = recv_mem c (i + j)" using that b by (simp add: nth_received)
    finally show ?thesis ..
  qed
  with b show "int i + 4 \<le> n \<and> (\<forall>j<4. recv_mem c (i + j) = term_seq ! j)" by auto
next
  assume "int i + 4 \<le> n \<and> (\<forall>j<4. recv_mem c (i + j) = term_seq ! j)"
  then show "occurs_at term_seq (received c n) i"
    by (auto simp: occurs_at_def nth_received intro!: nth_equalityI)
qed

lemma strncmp_term:
  assumes "0 \<le> off" and "n \<le> recv_buf_size c" and "off + 4 \<le> n"
  shows "strncmp_eq (mem_byte c) off term_seq = Inr (occurs_at term_seq (received c n) (nat off))"
proof -
  have mb: "mem_byte c (off + int j) = Inr (recv_mem c (nat off + j))" if "j < 4" for j
    using assms that by (simp add: mem_byte_def nat_add_distrib)
  obtain e where e: "strncmp_eq (mem_byte c) off term_seq = Inr e"
    using strncmp_eq_total [of term_seq "mem_byte c" off] mb by auto
  have "e = True \<longleftrightarrow> strncmp_eq (mem_byte c) off term_seq = Inr True" by (simp add: e)
  also have "\<dots> \<longleftrightarrow> (\<forall>j<4. recv_mem c (nat off + j) = term_seq ! j)"
    using mb by (simp add: strncmp_eq_True)
  also have "\<dots> \<longleftrightarrow> occurs_at term_seq (received c n) (nat off)"
    using assms by (simp add: occurs_received)
  finally show ?thesis by (simp add: e)
qed

text \<open>A comparison may look past the received bytes, never before the buffer.\<close>

lemma strncmp_term_False:
  assumes "0 \<le> off" and "n \<le> recv_buf_size c"
    and "strncmp_eq (mem_byte c) off term_seq \<noteq> Inr True"
  shows "\<not> occurs_at term_seq (received c n) (nat off)"
proof
  assume o: "occurs_at term_seq (received c n) (nat off)"
  then have "off + 4 \<le> n" using assms(1) by (simp add: occurs_received)
  with strncmp_term [OF assms(1,2)] o assms(3) show False by simp
qed

lemma strncmp_term_fault:
  assumes "0 \<le> off" and "off \<le> recv_buf_size c"
    and "strncmp_eq (mem_byte c) off term_seq = Inl f"
  shows "f = Out_of_bounds (recv_buf_size c) \<and> recv_buf_size c < off + 4"
proof -
  from strncmp_eq_fault [OF assms(3)] obtain j where j: "j < 4" "mem_byte c (off + int j) = Inl f"
    "\<forall>i<j. mem_byte c (off + int i) = Inr (term_seq ! i)" by auto
  have ge: "recv_buf_size c \<le> off + int j" and f: "f = Out_of_bounds (off + int j)"
    using j(2) assms(1) by (auto simp: mem_byte_def split: if_splits)
  have "off + int j \<le> recv_buf_size c"
  proof (cases j)
    case (Suc i)
    with j(3) have "mem_byte c (off + int i) = Inr (term_seq ! i)" by simp
    then have "off + int i < recv_buf_size c" by (auto simp: mem_byte_def split: if_splits)
    with Suc show ?thesis by simp
  qed (use assms(2) in simp)
  with ge f j(1) show ?thesis by auto
qed

section \<open>The loops\<close>

lemma scan_loop_spec:
  assumes "0 \<le> i" and "n \<le> recv_buf_size c"
  shows "scan_loop (mem_byte c) i n = Inr (\<exists>j. nat i \<le> j \<and> occurs_at term_seq (received c n) j)"
  using assms
proof (induction "mem_byte c" i n rule: scan_loop.induct)
  case (1 i n)
  show ?case
  proof (cases "i \<le> n - 4")
    case False
    then have "\<not> occurs_at term_seq (received c n) j" if "nat i \<le> j" for j
      using that 1 by (auto simp: occurs_received)
    with False show ?thesis by (auto simp: scan_loop.simps [of _ i n])
  next
    case True
    let ?o = "occurs_at term_seq (received c n)"
    have cmp: "strncmp_eq (mem_byte c) i term_seq = Inr (?o (nat i))"
      using 1 True by (intro strncmp_term) auto
    have split: "(\<exists>j. nat i \<le> j \<and> ?o j) \<longleftrightarrow> ?o (nat i) \<or> (\<exists>j. nat (i + 1) \<le> j \<and> ?o j)"
    proof -
      have "nat i \<le> j \<longleftrightarrow> j = nat i \<or> nat (i + 1) \<le> j" for j using 1(2) by auto
      then show ?thesis by metis
    qed
    from 1 True cmp show ?thesis
      unfolding split by (simp add: scan_loop.simps [of _ i n])
  qed
qed

lemma boundary_loop_False:
  assumes "n \<le> recv_buf_size c" and "boundary_loop (mem_byte c) prev k = Inr False"
    and "prev - int k \<le> int i" "int i < prev"
  shows "\<not> occurs_at term_seq (received c n) i"
  using assms
proof (induction k)
  case (Suc k)
  show ?case
  proof (cases "int i = prev - int (Suc k)")
    case True
    then have "0 \<le> prev - int (Suc k)" by simp
    moreover have "strncmp_eq (mem_byte c) (prev - int (Suc k)) term_seq \<noteq> Inr True"
      using Suc.prems calculation by auto
    ultimately show ?thesis
      using strncmp_term_False [of "prev - int (Suc k)" n c] Suc.prems(1) True
      by (metis nat_int)
  next
    case False
    moreover have "boundary_loop (mem_byte c) prev k = Inr False"
      using Suc.prems(2) by (auto split: if_splits sum.splits)
    ultimately show ?thesis using Suc by auto
  qed
qed simp

lemma boundary_loop_True:
  assumes "boundary_loop (mem_byte c) prev k = Inr True"
  shows "\<exists>i\<ge>0. prev - int k \<le> i \<and> i < prev \<and> strncmp_eq (mem_byte c) i term_seq = Inr True"
  using assms
proof (induction k)
  case (Suc k)
  show ?case
  proof (cases "boundary_loop (mem_byte c) prev k = Inr True")
    case True
    with Suc.IH show ?thesis by force
  next
    case False
    with Suc.prems have "prev \<ge> int (Suc k)"
      "strncmp_eq (mem_byte c) (prev - int (Suc k)) term_seq = Inr True"
      by (auto split: if_splits sum.splits)
    then show ?thesis by (intro exI [of _ "prev - int (Suc k)"]) auto
  qed
qed simp

lemma boundary_loop_fault:
  assumes "prev \<le> recv_buf_size c" and "boundary_loop (mem_byte c) prev k = Inl f" and "k \<le> 3"
  shows "f = Out_of_bounds (recv_buf_size c) \<and> recv_buf_size c < prev + 3"
  using assms
proof (induction k)
  case (Suc k)
  show ?case
  proof (cases "boundary_loop (mem_byte c) prev k = Inl f")
    case True
    with Suc show ?thesis by auto
  next
    case False
    with Suc.prems have "prev \<ge> int (Suc k)"
      "strncmp_eq (mem_byte c) (prev - int (Suc k)) term_seq = Inl f"
      by (auto split: if_splits sum.splits)
    with strncmp_term_fault [of "prev - int (Suc k)" c f] Suc.prems show ?thesis by auto
  qed
qed simp

section \<open>The decision\<close>

text \<open>No end reported: no terminator ends in the new chunk.\<close>

lemma message_end_complete:
  assumes "0 \<le> prev" "n \<le> recv_buf_size c"
    and "is_http_message_end (mem_byte c) prev n = Inr False" and "prev \<le> int i + 3"
  shows "\<not> occurs_at term_seq (received c n) i"
proof (cases "n < 4")
  case True
  then show ?thesis by (auto simp: occurs_received)
next
  case False
  with assms(3) have b: "boundary_loop (mem_byte c) prev 3 = Inr False"
    and s: "scan_loop (mem_byte c) prev n = Inr False"
    by (auto simp: is_http_message_end_def split: sum.splits if_splits)
  show ?thesis
  proof (cases "int i < prev")
    case True
    with boundary_loop_False [OF assms(2) b] assms(4) show ?thesis by auto
  next
    case False
    with s scan_loop_spec [OF assms(1,2)] show ?thesis by auto
  qed
qed

text \<open>An end reported: a terminator, or a match that leans on bytes not received yet.\<close>

lemma message_end_sound:
  assumes "0 \<le> prev" "n \<le> recv_buf_size c"
    and "is_http_message_end (mem_byte c) prev n = Inr True"
  shows "(\<exists>i. occurs_at term_seq (received c n) i) \<or>
    (\<exists>i\<ge>0. prev - 3 \<le> i \<and> i < prev \<and> n < i + 4 \<and>
       strncmp_eq (mem_byte c) i term_seq = Inr True)"
proof -
  from assms(3) have n: "4 \<le> n" by (auto simp: is_http_message_end_def split: if_splits)
  from assms(3) n consider (tail) "strncmp_eq (mem_byte c) (n - 4) term_seq = Inr True"
    | (bound) "boundary_loop (mem_byte c) prev 3 = Inr True"
    | (scan) "scan_loop (mem_byte c) prev n = Inr True"
    by (auto simp: is_http_message_end_def split: sum.splits if_splits)
  then show ?thesis
  proof cases
    case tail
    with strncmp_term [of "n - 4" n c] n assms(2) show ?thesis by auto
  next
    case bound
    from boundary_loop_True [OF this] obtain i where i: "0 \<le> i" "prev - 3 \<le> i" "i < prev"
      "strncmp_eq (mem_byte c) i term_seq = Inr True" by auto
    show ?thesis
    proof (cases "n < i + 4")
      case False
      with strncmp_term [of i n c] i assms(2) show ?thesis by auto
    qed (use i in blast)
  next
    case scan
    with scan_loop_spec [OF assms(1,2)] show ?thesis by auto
  qed
qed

lemma message_end_fault:
  assumes "0 \<le> prev" "prev < n" "n \<le> recv_buf_size c"
    and "is_http_message_end (mem_byte c) prev n = Inl f"
  shows "f = Out_of_bounds (recv_buf_size c) \<and> recv_buf_size c < prev + 3"
proof -
  from assms(4) have n: "4 \<le> n" by (auto simp: is_http_message_end_def split: if_splits)
  have "\<exists>e. strncmp_eq (mem_byte c) (n - 4) term_seq = Inr e"
    using strncmp_term [of "n - 4" n c] n assms(3) by auto
  with assms(4) n scan_loop_spec [OF assms(1,3)]
  have "boundary_loop (mem_byte c) prev 3 = Inl f"
    by (auto simp: is_http_message_end_def split: sum.splits if_splits)
  with boundary_loop_fault [of prev c 3 f] assms show ?thesis by auto
qed

text \<open>With at least three new bytes the decision is exact.\<close>

lemma message_end_exact:
  assumes "0 \<le> prev" "prev + 3 \<le> n" "n \<le> recv_buf_size c"
    and old: "\<And>i. int i + 3 < prev \<Longrightarrow> \<not> occurs_at term_seq (received c n) i"
  shows "is_http_message_end (mem_byte c) prev n =
    Inr (\<exists>i. occurs_at term_seq (received c n) i)"
proof (cases "is_http_message_end (mem_byte c) prev n")
  case (Inl f)
  with message_end_fault [of prev n c f] assms show ?thesis by auto
next
  case (Inr e)
  show ?thesis
  proof (cases e)
    case True
    with Inr message_end_sound [of prev n c] assms show ?thesis by auto
  next
    case False
    have "\<not> occurs_at term_seq (received c n) i" for i
    proof (cases "int i + 3 < prev")
      case False
      with message_end_complete [of prev n c i] assms Inr \<open>\<not> e\<close> show ?thesis by auto
    qed (rule old)
    with Inr False show ?thesis by auto
  qed
qed

text \<open>
  With any number of new bytes, short of the end of the buffer: the decision is as if at least three had
  come, whatever the bytes are that were not received.
\<close>

lemma message_end_window:
  assumes b: "0 \<le> prev" "prev < n" "4 \<le> n" "n \<le> recv_buf_size c" "prev + 3 \<le> recv_buf_size c"
    and old: "\<And>i. \<not> occurs_at term_seq (received c prev) i"
  shows "is_http_message_end (mem_byte c) prev n =
    Inr (\<exists>i. occurs_at term_seq (received c (max n (prev + 3))) i)"
proof (cases "is_http_message_end (mem_byte c) prev n")
  case (Inl f)
  with message_end_fault [of prev n c f] b show ?thesis by auto
next
  case (Inr e)
  let ?o = "\<lambda>i. occurs_at term_seq (received c (max n (prev + 3))) i"
  show ?thesis
  proof (cases e)
    case True
    with Inr message_end_sound [of prev n c] b consider i where "occurs_at term_seq (received c n) i"
      | i where "0 \<le> i" "i < prev" "strncmp_eq (mem_byte c) i term_seq = Inr True" by auto
    then have "\<exists>i. ?o i"
    proof cases
      case 1
      then have "?o i" by (auto simp: occurs_received)
      then show ?thesis ..
    next
      case 2
      then have "i + 4 \<le> max n (prev + 3)" by (simp add: le_max_iff_disj)
      with strncmp_term [of i "max n (prev + 3)" c] 2 b have "?o (nat i)" by simp
      then show ?thesis ..
    qed
    with Inr True show ?thesis by simp
  next
    case False
    with Inr b have bl: "boundary_loop (mem_byte c) prev 3 = Inr False"
      by (auto simp: is_http_message_end_def split: sum.splits if_splits)
    have "\<not> ?o i" for i
    proof (cases "int i < prev")
      case True
      show ?thesis
      proof (cases "prev \<le> int i + 3")
        case True
        with \<open>int i < prev\<close> show ?thesis using boundary_loop_False [OF _ bl, of "max n (prev + 3)" i] b by simp
      next
        case False
        with old [of i] show ?thesis by (auto simp: occurs_received)
      qed
    next
      case False
      with message_end_complete [of prev n c i] Inr \<open>\<not> e\<close> b show ?thesis by (auto simp: occurs_received)
    qed
    with Inr False show ?thesis by simp
  qed
qed

end
