(* ===== verification/Ctxt_Invariant.thy ===== *)
theory Ctxt_Invariant
  imports Conn_Ctxt
begin

text \<open>
  The invariant of \<open>srv_conn_ctxt.c\<close> and the proof that every operation keeps it: the two
  rings hold disjoint sets of allocated contexts, the counters count them, each context's
  region is mapped exactly while the context is allocated, and its buffer, guard page and
  stack lie in the region as the header draws them.
\<close>

section \<open>The invariant\<close>

definition layout_ok :: "conn_t \<Rightarrow> bool" where
  "layout_ok c \<longleftrightarrow>
     ctx_buf_size c = CTX_BUF_SIZE \<and> recv_buf_p c = ctx_buf_p c \<and>
     recv_buf_size c = RECV_BUF_SIZE \<and>
     ss_sp c = ctx_buf_p c + RECV_BUF_SIZE + GUARD_SIZE \<and> ss_size c = STACK_SIZE \<and>
     0 \<le> recv_buf_curr c \<and> recv_buf_curr c \<le> recv_buf_have c \<and>
     recv_buf_have c \<le> recv_buf_size c"

lemma layout_ok_simps [simp]:
  "layout_ok (k\<lparr>recv_mem := m\<rparr>) = layout_ok k"
  "layout_ok (k\<lparr>last_active := a\<rparr>) = layout_ok k"
  "layout_ok (k\<lparr>is_active := b\<rparr>) = layout_ok k"
  "layout_ok (k\<lparr>start_op := s\<rparr>) = layout_ok k"
  "layout_ok (k\<lparr>is_completed := b\<rparr>) = layout_ok k"
  by (simp_all add: layout_ok_def)

definition rings_inv :: "nat list \<Rightarrow> nat list \<Rightarrow> nat list \<Rightarrow> node qheap \<Rightarrow> bool" where
  "rings_inv q k d h \<longleftrightarrow>
     qlist_rep h QueueHead (map ConnNode q) \<and> qlist_rep h CacheHead (map ConnNode k) \<and>
     distinct (q @ k @ d)"

definition memory_inv :: "'a srv_state_scheme \<Rightarrow> bool" where
  "memory_inv s \<longleftrightarrow>
     regions s = (\<lambda>c. ctx_buf_p (conns s c)) ` live_conns s \<and>
     inj_on (\<lambda>c. ctx_buf_p (conns s c)) (live_conns s) \<and>
     (\<forall>c\<in>live_conns s. layout_ok (conns s c))"

definition counts_inv :: "nat list \<Rightarrow> nat list \<Rightarrow> 'a srv_state_scheme \<Rightarrow> bool" where
  "counts_inv q k s \<longleftrightarrow>
     active_conn_cnt s = int (length (filter (\<lambda>c. is_active (conns s c)) q)) \<and>
     inactive_conn_cnt s = int (length (filter (\<lambda>c. \<not> is_active (conns s c)) q)) \<and>
     cache_cnt s = int (length k) \<and> cache_cnt s \<le> MAX_CONN_CTX_CACHE_CNT"

definition ctxt_inv ::
  "nat list \<Rightarrow> nat list \<Rightarrow> nat list \<Rightarrow> 'a srv_state_scheme \<Rightarrow> bool" where
  "ctxt_inv q k d s \<longleftrightarrow>
     rings_inv q k d (links s) \<and> set (q @ k @ d) = live_conns s \<and>
     memory_inv s \<and> counts_inv q k s"

lemmas ctxt_inv_defs = ctxt_inv_def rings_inv_def memory_inv_def counts_inv_def

lemma counts_total: "counts_inv q k s \<Longrightarrow> active_conn_cnt s + inactive_conn_cnt s = int (length q)"
  unfolding counts_inv_def by (metis of_nat_add sum_length_filter_compl)

lemma ctxt_inv_cache_cnt: "ctxt_inv q k d s \<Longrightarrow> cache_cnt s = int (length k)"
  by (simp add: ctxt_inv_def counts_inv_def)

lemma ctxt_inv_layout: "ctxt_inv q k d s \<Longrightarrow> c \<in> set (q @ k @ d) \<Longrightarrow> layout_ok (conns s c)"
  by (auto simp: ctxt_inv_defs)

lemma set_conn_simps [simp]:
  "links (set_conn c f s) = links s" "live_conns (set_conn c f s) = live_conns s"
  "regions (set_conn c f s) = regions s" "curr_conn (set_conn c f s) = curr_conn s"
  "active_conn_cnt (set_conn c f s) = active_conn_cnt s"
  "inactive_conn_cnt (set_conn c f s) = inactive_conn_cnt s"
  "last_ctx_swap (set_conn c f s) = last_ctx_swap s" "cache_cnt (set_conn c f s) = cache_cnt s"
  "n_conn (set_conn c f s) = n_conn s"
  "conns (set_conn c f s) = (conns s)(c := f (conns s c))"
  by (simp_all add: set_conn_def)

text \<open>Changing connections' records without touching regions, layout or activity.\<close>

lemma ctxt_inv_cong:
  assumes "ctxt_inv q k d s"
    and "links s' = links s" "live_conns s' = live_conns s" "regions s' = regions s"
    and "active_conn_cnt s' = active_conn_cnt s" "inactive_conn_cnt s' = inactive_conn_cnt s"
    and "cache_cnt s' = cache_cnt s"
    and "\<And>x. ctx_buf_p (conns s' x) = ctx_buf_p (conns s x)"
    and "\<And>x. is_active (conns s' x) = is_active (conns s x)"
    and "\<And>x. layout_ok (conns s x) \<Longrightarrow> layout_ok (conns s' x)"
  shows "ctxt_inv q k d s'"
  using assms by (simp add: ctxt_inv_defs)

lemma ctxt_inv_set_conn:
  assumes "ctxt_inv q k d s"
    and "layout_ok (conns s c) \<Longrightarrow> layout_ok (f (conns s c))"
    and "ctx_buf_p (f (conns s c)) = ctx_buf_p (conns s c)"
    and "is_active (f (conns s c)) = is_active (conns s c)"
  shows "ctxt_inv q k d (set_conn c f s)"
  by (rule ctxt_inv_cong [OF assms(1)]) (use assms(2-4) in auto)

text \<open>Fields the invariant does not read.\<close>

lemma ctxt_inv_frame:
  "ctxt_inv q k d (s\<lparr>curr_conn := x\<rparr>) = ctxt_inv q k d s"
  "ctxt_inv q k d (s\<lparr>last_ctx_swap := t\<rparr>) = ctxt_inv q k d s"
  "ctxt_inv q k d (s\<lparr>n_conn := n\<rparr>) = ctxt_inv q k d s"
  by (simp_all add: ctxt_inv_defs)

section \<open>The rings\<close>

lemma inj_ConnNode [simp]: "inj_on ConnNode A"
  by (simp add: inj_on_def)

lemma rings_del_queue:
  assumes "rings_inv (as @ c # bs) k d h"
  shows "\<exists>h'. qlist_del_entry (ConnNode c) h = Some h' \<and> rings_inv (as @ bs) k (c # d) h'"
proof -
  have "set (QueueHead # map ConnNode as @ ConnNode c # map ConnNode bs) \<inter>
      set (CacheHead # map ConnNode k) = {}"
    using assms by (auto simp: rings_inv_def)
  with ql.del_entry_other [of h QueueHead "map ConnNode as" "ConnNode c" "map ConnNode bs"
      CacheHead "map ConnNode k"] assms
  show ?thesis by (auto simp: rings_inv_def)
qed

lemma rings_del_cache:
  assumes "rings_inv q (c # k) d h"
  shows "qlist_first_entry CacheHead h = Some (ConnNode c) \<and>
    (\<exists>h'. qlist_del_entry (ConnNode c) h = Some h' \<and> rings_inv q k (c # d) h')"
proof -
  have "set (CacheHead # ConnNode c # map ConnNode k) \<inter> set (QueueHead # map ConnNode q) = {}"
    using assms by (auto simp: rings_inv_def)
  with ql.del_entry_other [of h CacheHead "[]" "ConnNode c" "map ConnNode k"
      QueueHead "map ConnNode q"] assms
  have "\<exists>h'. qlist_del_entry (ConnNode c) h = Some h' \<and> rings_inv q k (c # d) h'"
    by (auto simp: rings_inv_def)
  moreover have "qlist_first_entry CacheHead h = Some (ConnNode c)"
    using assms ql.first_entry by (fastforce simp: rings_inv_def)
  ultimately show ?thesis by blast
qed

lemma rings_add_queue:
  assumes "rings_inv q k (c # d) h"
  shows "\<exists>h'. qlist_add_head QueueHead (ConnNode c) h = Some h' \<and> rings_inv (c # q) k d h'"
proof -
  have "set (ConnNode c # QueueHead # map ConnNode q) \<inter> set (CacheHead # map ConnNode k) = {}"
    and "ConnNode c \<notin> set (QueueHead # map ConnNode q)"
    using assms by (auto simp: rings_inv_def)
  with ql.add_head_other [of h QueueHead "map ConnNode q" CacheHead "map ConnNode k" "ConnNode c"]
    assms show ?thesis by (auto simp: rings_inv_def)
qed

lemma rings_add_cache:
  assumes "rings_inv q k (c # d) h"
  shows "\<exists>h'. qlist_add_head CacheHead (ConnNode c) h = Some h' \<and> rings_inv q (c # k) d h'"
proof -
  have "set (ConnNode c # CacheHead # map ConnNode k) \<inter> set (QueueHead # map ConnNode q) = {}"
    and "ConnNode c \<notin> set (CacheHead # map ConnNode k)"
    using assms by (auto simp: rings_inv_def)
  with ql.add_head_other [of h CacheHead "map ConnNode k" QueueHead "map ConnNode q" "ConnNode c"]
    assms show ?thesis by (auto simp: rings_inv_def)
qed

lemma lift_links_run:
  "f (links (st w)) = Some h \<Longrightarrow> lift_links f w = (Inr (), w\<lparr>st := (st w)\<lparr>links := h\<rparr>\<rparr>)"
  by (simp add: lift_links_def io_exec)

section \<open>Allocation\<close>

definition fresh_ctx :: "nat \<Rightarrow> int \<Rightarrow> 'a srv_state_scheme \<Rightarrow> 'a srv_state_scheme" where
  "fresh_ctx conn ctx_buf s =
     set_conn conn (\<lambda>c. c\<lparr>ctx_buf_p := ctx_buf, ctx_buf_size := CTX_BUF_SIZE,
         recv_buf_p := ctx_buf, recv_buf_size := RECV_BUF_SIZE,
         recv_buf_have := 0, recv_buf_curr := 0,
         ss_sp := ctx_buf + RECV_BUF_SIZE + GUARD_SIZE, ss_size := STACK_SIZE,
         recv_mem := (\<lambda>_. NUL)\<rparr>)
       (s\<lparr>regions := insert ctx_buf (regions s), live_conns := insert conn (live_conns s)\<rparr>)"

text \<open>
  Every way \<open>alloc_conn_ctx_mem\<close> can end: a failed step leaves nothing allocated or mapped,
  success adds one context in a fresh region.
\<close>

lemma alloc_mem_result:
  assumes "alloc_conn_ctx_mem w = (r, v)"
  shows "(\<exists>s. r = Inl s \<and> \<not> is_fault s) \<or> (r = Inr None \<and> st v = st w) \<or>
    (\<exists>c buf. r = Inr (Some c) \<and> buf \<notin> regions (st w) \<and> c \<notin> live_conns (st w) \<and>
       st v = fresh_ctx c buf (st w))"
  using assms
  by (auto simp: alloc_conn_ctx_mem_def fresh_ctx_def set_conn_def io_bind_def io_then_def
      answer_def stop_with_def ret_def gets_st_def modify_st_def
      split: list.splits resp.splits option.splits if_splits)

lemma layout_fresh: "layout_ok (conns (fresh_ctx c buf s) c)"
  by (simp add: fresh_ctx_def layout_ok_def srv_consts)

lemma ctxt_inv_fresh:
  assumes inv: "ctxt_inv q k d s" and "buf \<notin> regions s" and "c \<notin> live_conns s"
  shows "ctxt_inv q k (c # d) (fresh_ctx c buf s)"
proof -
  have new: "c \<notin> set q" "c \<notin> set k" "c \<notin> set d"
    using inv assms(3) by (auto simp: ctxt_inv_defs)
  have other: "conns (fresh_ctx c buf s) x = conns s x" if "x \<noteq> c" for x
    using that by (simp add: fresh_ctx_def)
  have live: "live_conns (fresh_ctx c buf s) = insert c (live_conns s)"
    and lnk: "links (fresh_ctx c buf s) = links s"
    and reg: "regions (fresh_ctx c buf s) = insert buf (regions s)"
    and cnt: "active_conn_cnt (fresh_ctx c buf s) = active_conn_cnt s"
      "inactive_conn_cnt (fresh_ctx c buf s) = inactive_conn_cnt s"
      "cache_cnt (fresh_ctx c buf s) = cache_cnt s"
      "ctx_buf_p (conns (fresh_ctx c buf s) c) = buf"
    by (simp_all add: fresh_ctx_def)
  have rings: "rings_inv q k (c # d) (links s)"
    using inv new by (auto simp: ctxt_inv_def rings_inv_def)
  have "\<And>x. x \<in> live_conns s \<Longrightarrow> conns (fresh_ctx c buf s) x = conns s x"
    using other assms(3) by metis
  then have "memory_inv (fresh_ctx c buf s)"
    using inv assms(2,3) layout_fresh [of c buf s]
    by (auto simp: ctxt_inv_def memory_inv_def live reg cnt inj_on_def image_iff)
  moreover have q: "\<And>x. x \<in> set q \<Longrightarrow> conns (fresh_ctx c buf s) x = conns s x"
    using other new(1) by metis
  then have "filter (\<lambda>x. is_active (conns (fresh_ctx c buf s) x)) q =
      filter (\<lambda>x. is_active (conns s x)) q"
    and "filter (\<lambda>x. \<not> is_active (conns (fresh_ctx c buf s) x)) q =
      filter (\<lambda>x. \<not> is_active (conns s x)) q"
    by (auto intro!: filter_cong)
  then have "counts_inv q k (fresh_ctx c buf s)"
    using inv by (simp add: ctxt_inv_def counts_inv_def cnt)
  moreover have "set (q @ k @ c # d) = live_conns (fresh_ctx c buf s)"
    using inv by (auto simp: ctxt_inv_def live)
  ultimately show ?thesis using rings by (simp add: ctxt_inv_def lnk)
qed

lemma hoare_alloc_mem:
  "hoare (\<lambda>w. ctxt_inv q k d (st w)) alloc_conn_ctx_mem
    (\<lambda>r w. case r of None \<Rightarrow> ctxt_inv q k d (st w) | Some c \<Rightarrow> ctxt_inv q k (c # d) (st w))"
  by (rule hoareI) (auto dest!: alloc_mem_result intro: ctxt_inv_fresh)

section \<open>Moving contexts between the rings\<close>

lemma ctxt_inv_add_cache:
  assumes inv: "ctxt_inv q k (c # d) s" and "cache_cnt s < MAX_CONN_CTX_CACHE_CNT"
  shows "\<exists>h. qlist_add_head CacheHead (ConnNode c) (links s) = Some h \<and>
    ctxt_inv q (c # k) d (s\<lparr>links := h, cache_cnt := cache_cnt s + 1\<rparr>)"
proof -
  from inv have "rings_inv q k (c # d) (links s)" by (simp add: ctxt_inv_def)
  from rings_add_cache [OF this] obtain h where
    "qlist_add_head CacheHead (ConnNode c) (links s) = Some h" "rings_inv q (c # k) d h" by blast
  with inv assms(2) show ?thesis
    by (auto simp: ctxt_inv_def memory_inv_def counts_inv_def)
qed

lemma hoare_lift_links:
  "(\<And>w. P w \<Longrightarrow> \<exists>h. f (links (st w)) = Some h \<and> Q () (w\<lparr>st := (st w)\<lparr>links := h\<rparr>\<rparr>)) \<Longrightarrow>
    hoare P (lift_links f) Q"
  by (rule hoareI; fastforce simp: lift_links_run)

lemma hoare_add_cache:
  fixes N :: "('r, 'a srv_state_scheme, 'e) world \<Rightarrow> bool"
  assumes "\<And>w. ctxt_inv q (c # k) d (st w) \<Longrightarrow> N w"
  shows "hoare (\<lambda>w. ctxt_inv q k (c # d) (st w) \<and> cache_cnt (st w) < MAX_CONN_CTX_CACHE_CNT)
    (io_then (lift_links (qlist_add_head CacheHead (ConnNode c)))
      (modify_st (\<lambda>s. s\<lparr>cache_cnt := cache_cnt s + 1\<rparr>)))
    (\<lambda>_. N)"
proof (rule hoare_then)
  let ?M = "\<lambda>w :: ('r, 'a srv_state_scheme, 'e) world.
    ctxt_inv q (c # k) d ((st w)\<lparr>cache_cnt := cache_cnt (st w) + 1\<rparr>)"
  show "hoare (\<lambda>w. ctxt_inv q k (c # d) (st w) \<and> cache_cnt (st w) < MAX_CONN_CTX_CACHE_CNT)
    (lift_links (qlist_add_head CacheHead (ConnNode c))) (\<lambda>_. ?M)"
    by (rule hoare_lift_links) (auto dest: ctxt_inv_add_cache)
  show "hoare ?M (modify_st (\<lambda>s. s\<lparr>cache_cnt := cache_cnt s + 1\<rparr>)) (\<lambda>_. N)"
    by (rule hoare_modify, rule assms) auto
qed

lemma ctxt_inv_take_cache:
  assumes inv: "ctxt_inv q (c # k) d s"
  shows "qlist_first_entry CacheHead (links s) = Some (ConnNode c) \<and>
    (\<exists>h. qlist_del_entry (ConnNode c) (links s) = Some h \<and>
      ctxt_inv q k (c # d) (s\<lparr>links := h, cache_cnt := cache_cnt s - 1\<rparr>))"
proof -
  from inv have "rings_inv q (c # k) d (links s)" by (simp add: ctxt_inv_def)
  from rings_del_cache [OF this] obtain h where
    "qlist_first_entry CacheHead (links s) = Some (ConnNode c)"
    "qlist_del_entry (ConnNode c) (links s) = Some h" "rings_inv q k (c # d) h" by blast
  with inv show ?thesis
    by (auto simp: ctxt_inv_def memory_inv_def counts_inv_def)
qed

lemma ctxt_inv_free_mem:
  assumes inv: "ctxt_inv q k (c # d) s"
  shows "ctxt_inv q k d (free_conn_ctx_mem c s)"
proof -
  have c: "c \<notin> set (q @ k @ d)" "live_conns s = insert c (set (q @ k @ d))"
    using inv by (auto simp: ctxt_inv_defs)
  have inj: "inj_on (\<lambda>x. ctx_buf_p (conns s x)) (insert c (set (q @ k @ d)))"
    using inv c by (simp add: ctxt_inv_def memory_inv_def)
  have "(\<lambda>x. ctx_buf_p (conns s x)) ` live_conns s - {ctx_buf_p (conns s c)} =
      (\<lambda>x. ctx_buf_p (conns s x)) ` (live_conns s - {c})"
    using inj c by (auto simp: inj_on_def)
  with inv c show ?thesis
    by (auto simp: ctxt_inv_defs free_conn_ctx_mem_def inj_on_def)
qed

text \<open>A context that is given up goes to the cache while that has room, else back to the system.\<close>

definition given_up :: "nat \<Rightarrow> nat list \<Rightarrow> nat list" where
  "given_up c k = (if int (length k) < MAX_CONN_CTX_CACHE_CNT then c # k else k)"

lemma hoare_free_conn_ctx:
  "hoare (\<lambda>w. ctxt_inv q k (c # d) (st w)) (free_conn_ctx c)
    (\<lambda>_ w. ctxt_inv q (given_up c k) d (st w))" (is "hoare ?P _ (\<lambda>_. ?Q)")
proof -
  have len: "ctxt_inv q k (c # d) s \<Longrightarrow> cache_cnt s = int (length k)" for s :: "'b srv_state_scheme"
    by (rule ctxt_inv_cache_cnt)
  show ?thesis
    unfolding free_conn_ctx_def
  proof (rule hoare_gets_bind, rule hoare_if)
    fix n assume n: "n < MAX_CONN_CTX_CACHE_CNT"
    show "hoare (\<lambda>w. ?P w \<and> n = cache_cnt (st w))
        (io_then (lift_links (qlist_add_head CacheHead (ConnNode c)))
          (modify_st (\<lambda>s. s\<lparr>cache_cnt := cache_cnt s + 1\<rparr>))) (\<lambda>_. ?Q)"
    proof (cases "int (length k) < MAX_CONN_CTX_CACHE_CNT")
      case True
      then show ?thesis
        by (rule_tac hoare_pre [OF hoare_add_cache [where k = k and q = q and d = d and N = ?Q]])
          (use n in \<open>auto simp: given_up_def\<close>)
    next
      case False
      with n show ?thesis by (auto simp: hoare_def triple_def dest: len)
    qed
  next
    fix n assume "\<not> n < MAX_CONN_CTX_CACHE_CNT"
    then show "hoare (\<lambda>w. ?P w \<and> n = cache_cnt (st w)) (modify_st (free_conn_ctx_mem c)) (\<lambda>_. ?Q)"
      by (intro hoare_modify) (use ctxt_inv_free_mem len in \<open>fastforce simp: given_up_def\<close>)
  qed
qed

section \<open>Filling the cache\<close>

definition fill_inv :: "nat list \<Rightarrow> nat list \<Rightarrow> int \<Rightarrow> 'a srv_state_scheme \<Rightarrow> bool" where
  "fill_inv q d cnt s \<longleftrightarrow>
     (\<exists>k. ctxt_inv q k d s) \<and> 0 \<le> cnt \<and> cache_cnt s + cnt \<le> MIN_CONN_CTX_CACHE_CNT"

lemma hoare_fill_body:
  "hoare (\<lambda>w. fill_inv q d cnt (st w)) (fill_loop_body cnt)
    (\<lambda>r w. case r of Inl cnt' \<Rightarrow> fill_inv q d cnt' (st w)
       | Inr a \<Rightarrow> (\<exists>k. ctxt_inv q k d (st w)) \<and> cache_cnt (st w) \<le> MIN_CONN_CTX_CACHE_CNT)"
    (is "hoare ?P _ ?Q")
  unfolding fill_loop_body_def
proof (rule hoare_if)
  assume "cnt = 0"
  then show "hoare ?P (ret (Inr a)) ?Q" for a by (auto intro!: hoare_ret simp: fill_inv_def)
next
  assume cnt: "cnt \<noteq> 0"
  let ?add = "\<lambda>c. io_then (io_then (lift_links (qlist_add_head CacheHead (ConnNode c)))
              (modify_st (\<lambda>s. s\<lparr>cache_cnt := cache_cnt s + 1\<rparr>))) (ret (Inl (cnt - 1)))"
  let ?k = "\<lambda>k w. ctxt_inv q k d (st w) \<and> (0 < cnt \<and> int (length k) + cnt \<le> MIN_CONN_CTX_CACHE_CNT)"
  have "hoare (?k k) (io_bind alloc_conn_ctx_mem (\<lambda>conn. case conn of
      Some c \<Rightarrow> ?add c | None \<Rightarrow> ret (Inl (cnt - 1)))) ?Q" for k
  proof (rule hoare_pure, rule hoare_bind [OF hoare_alloc_mem])
    fix r assume b: "0 < cnt \<and> int (length k) + cnt \<le> MIN_CONN_CTX_CACHE_CNT"
    show "hoare (\<lambda>w. case r of None \<Rightarrow> ctxt_inv q k d (st w) | Some c \<Rightarrow> ctxt_inv q k (c # d) (st w))
      (case r of Some c \<Rightarrow> ?add c | None \<Rightarrow> ret (Inl (cnt - 1))) ?Q"
    proof (cases r)
      case None
      with b show ?thesis
        by (auto intro!: hoare_ret simp: fill_inv_def ctxt_inv_cache_cnt)
    next
      case (Some c)
      have "hoare (\<lambda>w. ctxt_inv q k (c # d) (st w)) (?add c) ?Q"
        by (rule hoare_then [OF hoare_pre [OF hoare_add_cache
              [where N = "\<lambda>w. fill_inv q d (cnt - 1) (st w)" and k = k]] hoare_ret])
          (use b in \<open>auto simp: fill_inv_def ctxt_inv_cache_cnt srv_consts\<close>)
      with Some show ?thesis by simp
    qed
  qed
  then have "hoare (\<lambda>w. \<exists>k. ?k k w) (io_bind alloc_conn_ctx_mem (\<lambda>conn. case conn of
      Some c \<Rightarrow> ?add c | None \<Rightarrow> ret (Inl (cnt - 1)))) ?Q"
    by (rule hoare_ex)
  then show "hoare ?P (io_bind alloc_conn_ctx_mem (\<lambda>conn. case conn of
      Some c \<Rightarrow> ?add c | None \<Rightarrow> ret (Inl (cnt - 1)))) ?Q"
    by (rule hoare_pre) (use cnt in \<open>auto simp: fill_inv_def ctxt_inv_cache_cnt\<close>)
qed

lemma hoare_fill_cache:
  "hoare (\<lambda>w. ctxt_inv q k d (st w) \<and> cache_cnt (st w) \<le> MIN_CONN_CTX_CACHE_CNT)
    fill_conn_ctx_cache
    (\<lambda>_ w. (\<exists>k. ctxt_inv q k d (st w)) \<and> cache_cnt (st w) \<le> MIN_CONN_CTX_CACHE_CNT)"
  unfolding fill_conn_ctx_cache_def
proof (rule hoare_gets_bind)
  fix cnt
  show "hoare (\<lambda>w. (ctxt_inv q k d (st w) \<and> cache_cnt (st w) \<le> MIN_CONN_CTX_CACHE_CNT) \<and>
      cnt = MIN_CONN_CTX_CACHE_CNT - cache_cnt (st w)) (io_loop fill_loop_body cnt)
    (\<lambda>_ w. (\<exists>k. ctxt_inv q k d (st w)) \<and> cache_cnt (st w) \<le> MIN_CONN_CTX_CACHE_CNT)"
    by (rule hoare_pre [OF hoare_loop [where I = "\<lambda>cnt w. fill_inv q d cnt (st w)",
          OF hoare_fill_body]]) (auto simp: fill_inv_def)
qed

section \<open>Taking a context, and the queue\<close>

lemma take_cached_Nil: "ctxt_inv q [] d (st w) \<Longrightarrow> take_cached_ctx w = (Inr None, w)"
  by (simp add: take_cached_ctx_def io_exec ctxt_inv_cache_cnt)

lemma take_cached_Cons:
  assumes "ctxt_inv q (c # k) d (st w)"
  shows "\<exists>v. take_cached_ctx w = (Inr (Some c), v) \<and> ctxt_inv q k (c # d) (st v) \<and>
    conns (st v) = conns (st w)"
proof -
  from ctxt_inv_take_cache [OF assms] obtain h where
    "qlist_first_entry CacheHead (links (st w)) = Some (ConnNode c)"
    "qlist_del_entry (ConnNode c) (links (st w)) = Some h"
    "ctxt_inv q k (c # d) ((st w)\<lparr>links := h, cache_cnt := cache_cnt (st w) - 1\<rparr>)" by blast
  then show ?thesis
    by (simp add: take_cached_ctx_def io_exec ctxt_inv_cache_cnt [OF assms] lift_links_run)
qed

lemma hoare_take_cached:
  "hoare (\<lambda>w. ctxt_inv q k d (st w)) take_cached_ctx
    (\<lambda>r w. \<exists>k'. case r of None \<Rightarrow> ctxt_inv q k' d (st w) | Some c \<Rightarrow> ctxt_inv q k' (c # d) (st w))"
proof (cases k)
  case Nil
  then show ?thesis by (auto intro!: hoareI simp: take_cached_Nil)
next
  case (Cons c k')
  then show ?thesis by (fastforce intro!: hoareI dest: take_cached_Cons)
qed

lemma hoare_alloc_conn_ctx:
  "hoare (\<lambda>w. ctxt_inv q k d (st w)) alloc_conn_ctx
    (\<lambda>r w. \<exists>k'. case r of None \<Rightarrow> ctxt_inv q k' d (st w) | Some c \<Rightarrow> ctxt_inv q k' (c # d) (st w))"
    (is "hoare ?P _ ?Q")
  unfolding alloc_conn_ctx_def
proof (rule hoare_gets_bind, rule hoare_then)
  fix n
  show "hoare (\<lambda>w. ?P w \<and> n = cache_cnt (st w)) (io_when (n = 0) fill_conn_ctx_cache)
    (\<lambda>_ w. \<exists>k. ctxt_inv q k d (st w))"
  proof (rule hoare_when)
    assume "n = 0"
    then show "hoare (\<lambda>w. ?P w \<and> n = cache_cnt (st w)) fill_conn_ctx_cache
      (\<lambda>_ w. \<exists>k. ctxt_inv q k d (st w))"
      by (intro hoare_conseq [OF hoare_fill_cache [where q = q and k = k and d = d]])
        (auto simp: srv_consts)
  qed blast
  show "hoare (\<lambda>w. \<exists>k. ctxt_inv q k d (st w)) take_cached_ctx ?Q"
    by (rule hoare_ex) (rule hoare_take_cached)
qed

lemma ctxt_inv_init_new:
  assumes "ctxt_inv q k (c # d) s"
  shows "ctxt_inv q k (c # d) (init_new_conn_ctx c sock s)"
proof -
  have c: "c \<notin> set q" using assms by (auto simp: ctxt_inv_defs)
  have conns: "conns (init_new_conn_ctx c sock s) x = conns s x" if "x \<noteq> c" for x
    using that by (simp add: init_new_conn_ctx_def)
  have same: "ctx_buf_p (conns (init_new_conn_ctx c sock s) x) = ctx_buf_p (conns s x)"
    "layout_ok (conns (init_new_conn_ctx c sock s) x) = layout_ok (conns s x)" for x
    by (simp_all add: init_new_conn_ctx_def layout_ok_def)
  have q: "\<And>x. x \<in> set q \<Longrightarrow> conns (init_new_conn_ctx c sock s) x = conns s x"
    using c conns by metis
  then have "filter (\<lambda>x. is_active (conns (init_new_conn_ctx c sock s) x)) q =
      filter (\<lambda>x. is_active (conns s x)) q"
    and "filter (\<lambda>x. \<not> is_active (conns (init_new_conn_ctx c sock s) x)) q =
      filter (\<lambda>x. \<not> is_active (conns s x)) q"
    by (auto intro!: filter_cong)
  then have "counts_inv q k (init_new_conn_ctx c sock s)"
    using assms by (simp add: ctxt_inv_def counts_inv_def) (simp add: init_new_conn_ctx_def)
  moreover have "memory_inv (init_new_conn_ctx c sock s)"
    using assms same by (simp add: ctxt_inv_def memory_inv_def) (simp add: init_new_conn_ctx_def)
  ultimately show ?thesis
    using assms by (simp add: ctxt_inv_def) (simp add: init_new_conn_ctx_def)
qed

text \<open>The counters after a connection enters or leaves the queue.\<close>

definition count_in :: "nat \<Rightarrow> int \<Rightarrow> 'a srv_state_scheme \<Rightarrow> 'a srv_state_scheme" where
  "count_in c n s =
     (if is_active (conns s c) then s\<lparr>active_conn_cnt := active_conn_cnt s + n\<rparr>
      else s\<lparr>inactive_conn_cnt := inactive_conn_cnt s + n\<rparr>)"

lemma ctxt_inv_add_queue:
  assumes inv: "ctxt_inv q k (c # d) s"
  shows "\<exists>h. qlist_add_head QueueHead (ConnNode c) (links s) = Some h \<and>
    ctxt_inv (c # q) k d (count_in c 1 (s\<lparr>links := h\<rparr>))"
proof -
  from inv have "rings_inv q k (c # d) (links s)" by (simp add: ctxt_inv_def)
  from rings_add_queue [OF this] obtain h where
    "qlist_add_head QueueHead (ConnNode c) (links s) = Some h" "rings_inv (c # q) k d h" by blast
  with inv show ?thesis
    by (auto simp: ctxt_inv_def memory_inv_def counts_inv_def count_in_def)
qed

lemma ctxt_inv_del_queue:
  assumes inv: "ctxt_inv (as @ c # bs) k d s"
  shows "\<exists>h. qlist_del_entry (ConnNode c) (links s) = Some h \<and>
    ctxt_inv (as @ bs) k (c # d) (count_in c (-1) (s\<lparr>links := h\<rparr>))"
proof -
  from inv have "rings_inv (as @ c # bs) k d (links s)" by (simp add: ctxt_inv_def)
  from rings_del_queue [OF this] obtain h where
    "qlist_del_entry (ConnNode c) (links s) = Some h" "rings_inv (as @ bs) k (c # d) h" by blast
  with inv show ?thesis
    by (auto simp: ctxt_inv_def memory_inv_def counts_inv_def count_in_def)
qed

lemma add_conn_to_queue_run:
  "qlist_add_head QueueHead (ConnNode c) (links (st w)) = Some h \<Longrightarrow>
    add_conn_to_queue c w = (Inr (), w\<lparr>st := count_in c 1 ((st w)\<lparr>links := h\<rparr>)\<rparr>)"
  by (simp add: add_conn_to_queue_def io_exec lift_links_run count_in_def)

lemma remove_conn_from_queue_run:
  "qlist_del_entry (ConnNode c) (links (st w)) = Some h \<Longrightarrow>
    remove_conn_from_queue c w = (Inr (), w\<lparr>st := count_in c (-1) ((st w)\<lparr>links := h\<rparr>)\<rparr>)"
  by (simp add: remove_conn_from_queue_def io_exec lift_links_run count_in_def)

lemma hoare_add_conn:
  "hoare (\<lambda>w. ctxt_inv q k (c # d) (st w)) (add_conn_to_queue c)
    (\<lambda>_ w. ctxt_inv (c # q) k d (st w))"
  by (rule hoareI) (auto dest!: ctxt_inv_add_queue simp: add_conn_to_queue_run)

lemma hoare_remove_conn:
  "hoare (\<lambda>w. ctxt_inv (as @ c # bs) k d (st w)) (remove_conn_from_queue c)
    (\<lambda>_ w. ctxt_inv (as @ bs) k (c # d) (st w))"
  by (rule hoareI) (auto dest!: ctxt_inv_del_queue simp: remove_conn_from_queue_run)

lemma hoare_create_new_conn:
  "hoare (\<lambda>w. ctxt_inv q k [] (st w)) (create_new_conn sock)
    (\<lambda>r w. \<exists>k' q'. ctxt_inv q' k' [] (st w) \<and> (if r = 0 then tl q' = q \<and> q' \<noteq> [] else r = -1 \<and> q' = q))"
    (is "hoare _ _ ?Q")
  unfolding create_new_conn_def
proof (rule hoare_bind [OF hoare_alloc_conn_ctx [where d = "[]"]], rule hoare_ex)
  fix r k'
  let ?new = "\<lambda>c. io_then (modify_st (init_new_conn_ctx c sock))
    (io_then (add_conn_to_queue c) (ret 0))"
  show "hoare (\<lambda>w. case r of None \<Rightarrow> ctxt_inv q k' [] (st w) | Some c \<Rightarrow> ctxt_inv q k' [c] (st w))
    (case r of None \<Rightarrow> ret (-1) | Some c \<Rightarrow> ?new c) ?Q"
  proof (cases r)
    case None
    then show ?thesis by (auto intro!: hoare_ret)
  next
    case (Some c)
    have "hoare (\<lambda>w. ctxt_inv q k' [c] (st w)) (?new c) ?Q"
    proof (rule hoare_then)
      show "hoare (\<lambda>w. ctxt_inv q k' [c] (st w)) (modify_st (init_new_conn_ctx c sock))
        (\<lambda>_ w. ctxt_inv q k' [c] (st w))"
        by (rule hoare_modify) (simp add: ctxt_inv_init_new)
      show "hoare (\<lambda>w. ctxt_inv q k' [c] (st w)) (io_then (add_conn_to_queue c) (ret 0)) ?Q"
        by (rule hoare_then [OF hoare_add_conn]) (force intro!: hoare_ret)
    qed
    with Some show ?thesis by simp
  qed
qed

end
