(* ===== verification/Coroutine.thy ===== *)
theory Coroutine
  imports Msg_End Ctxt_Invariant
begin

text \<open>
  Reasoning about the code of one coroutine. A run of the coroutine of connection \<open>c\<close> may be
  switched out and resumed many times; each resumption hands it a state made by the rest of the
  process. \<open>co c J A m B\<close> says: if the connection's own record is sound, and the state in
  force after the last resumption of the script satisfies \<open>J\<close>, then \<open>m\<close>, wherever it stops,
  leaves a state with the same two properties; its only faults are the ones listed in
  \<open>co_faults\<close>; and \<open>A\<close> of the connection's record and the trace leads to \<open>B\<close> on return.
\<close>

section \<open>The judgement\<close>

fun is_resume :: "resp \<Rightarrow> bool" where
  "is_resume (R_resume f) = True"
| "is_resume _ = False"

definition own_ok :: "nat \<Rightarrow> srv_state \<Rightarrow> bool" where
  "own_ok c s \<longleftrightarrow> curr_conn s = Some c \<and> layout_ok (conns s c)"

definition resume_inv :: "(srv_state \<Rightarrow> bool) \<Rightarrow> (resp, srv_state, event) world \<Rightarrow> bool" where
  "resume_inv J w \<longleftrightarrow>
     (if filter is_resume (script w) = [] then J (st w)
      else \<exists>f. last (filter is_resume (script w)) = R_resume f \<and> (\<forall>s. J (f s)))"

definition co_inv :: "nat \<Rightarrow> (srv_state \<Rightarrow> bool) \<Rightarrow> (resp, srv_state, event) world \<Rightarrow> bool" where
  "co_inv c J w \<longleftrightarrow> own_ok c (st w) \<and> resume_inv J w"

text \<open>
  The ways the coroutine code can kill the process: reading into the guard page behind the
  receive buffer, writing to a reset connection, and the texts of the two status codes that
  lie past the end of \<open>http_status_text\<close>.
\<close>

definition co_faults :: "fault set" where
  "co_faults = {Out_of_bounds RECV_BUF_SIZE, Sigpipe, Vector_index 500, Vector_index 501}"

fun stop_ok :: "stop \<Rightarrow> bool" where
  "stop_ok (Fault f) \<longleftrightarrow> f \<in> co_faults"
| "stop_ok _ \<longleftrightarrow> True"

definition co_post :: "nat \<Rightarrow> (srv_state \<Rightarrow> bool) \<Rightarrow>
    ('a \<Rightarrow> conn_t \<Rightarrow> event list \<Rightarrow> bool) \<Rightarrow> stop + 'a \<Rightarrow> (resp, srv_state, event) world \<Rightarrow> bool" where
  "co_post c J B r v =
     (case r of
        Inl s \<Rightarrow> s \<noteq> Mismatch \<longrightarrow> co_inv c J v \<and> stop_ok s
      | Inr a \<Rightarrow> co_inv c J v \<and> B a (conns (st v) c) (trace v))"

definition co :: "nat \<Rightarrow> (srv_state \<Rightarrow> bool) \<Rightarrow> (conn_t \<Rightarrow> event list \<Rightarrow> bool) \<Rightarrow>
    (resp, srv_state, event, 'a) io \<Rightarrow> ('a \<Rightarrow> conn_t \<Rightarrow> event list \<Rightarrow> bool) \<Rightarrow> bool" where
  "co c J A m B \<longleftrightarrow>
     triple (\<lambda>w. co_inv c J w \<and> A (conns (st w) c) (trace w)) m (co_post c J B)"

lemma co_post_simps [simp]:
  "co_post c J B (Inr a) = (\<lambda>v. co_inv c J v \<and> B a (conns (st v) c) (trace v))"
  "co_post c J B (Inl s) = (\<lambda>v. s \<noteq> Mismatch \<longrightarrow> co_inv c J v \<and> stop_ok s)"
  by (auto simp: co_post_def)

lemma coI:
  assumes "\<And>w r v. co_inv c J w \<Longrightarrow> A (conns (st w) c) (trace w) \<Longrightarrow> m w = (r, v) \<Longrightarrow> co_post c J B r v"
  shows "co c J A m B"
  unfolding co_def by (rule tripleI) (use assms in blast)

lemma coD:
  "co c J A m B \<Longrightarrow> co_inv c J w \<Longrightarrow> A (conns (st w) c) (trace w) \<Longrightarrow> m w = (r, v) \<Longrightarrow> co_post c J B r v"
  unfolding co_def by (erule tripleD) auto

lemma co_conseq:
  assumes "co c J A' m B'" and "\<And>k t. layout_ok k \<Longrightarrow> A k t \<Longrightarrow> A' k t"
    and "\<And>a k t. layout_ok k \<Longrightarrow> B' a k t \<Longrightarrow> B a k t"
  shows "co c J A m B"
proof (rule coI)
  fix w r v assume w: "co_inv c J w" "A (conns (st w) c) (trace w)" "m w = (r, v)"
  then have "A' (conns (st w) c) (trace w)"
    using assms(2) by (simp add: co_inv_def own_ok_def)
  with coD [OF assms(1)] w have "co_post c J B' r v" by blast
  then show "co_post c J B r v"
    using assms(3) by (cases r) (auto simp: co_inv_def own_ok_def)
qed

lemma co_pre: "co c J A' m B \<Longrightarrow> (\<And>k t. layout_ok k \<Longrightarrow> A k t \<Longrightarrow> A' k t) \<Longrightarrow> co c J A m B"
  by (rule co_conseq)

lemma co_bind:
  assumes "co c J A m M" and "\<And>a. co c J (M a) (f a) B"
  shows "co c J A (io_bind m f) B"
  using assms unfolding co_def by (intro triple_bind [where M = "co_post c J M"]) auto

lemma co_then: "co c J A m (\<lambda>_. M) \<Longrightarrow> co c J M k B \<Longrightarrow> co c J A (io_then m k) B"
  unfolding io_then_def by (erule co_bind)

lemma co_loop:
  assumes "\<And>l. co c J (I l) (body l) (\<lambda>r k t. case r of Inl l' \<Rightarrow> I l' k t | Inr a \<Rightarrow> B a k t)"
  shows "co c J (I l) (io_loop body l) B"
  unfolding co_def
proof (rule triple_loop)
  fix l
  show "triple (\<lambda>w. co_inv c J w \<and> I l (conns (st w) c) (trace w)) (body l)
    (\<lambda>r v. case r of Inl s \<Rightarrow> co_post c J B (Inl s) v
       | Inr (Inl l') \<Rightarrow> co_inv c J v \<and> I l' (conns (st v) c) (trace v)
       | Inr (Inr a) \<Rightarrow> co_post c J B (Inr a) v)"
    using assms [of l] unfolding co_def
    by (rule triple_conseq) (auto simp: co_post_def split: sum.splits)
qed simp

lemma co_ret: "(\<And>k t. layout_ok k \<Longrightarrow> A k t \<Longrightarrow> B a k t) \<Longrightarrow> co c J A (ret a) B"
  by (rule coI) (auto simp: ret_def co_inv_def own_ok_def)

lemma co_stop: "stop_ok s \<Longrightarrow> co c J A (stop_with s) B"
  by (rule coI) (auto simp: stop_with_def)

lemma co_emit: "(\<And>k t. layout_ok k \<Longrightarrow> A k t \<Longrightarrow> B () k (t @ [e])) \<Longrightarrow> co c J A (emit e) B"
  by (rule coI) (auto simp: emit_def co_inv_def own_ok_def resume_inv_def)

lemma co_if: "(b \<Longrightarrow> co c J A m B) \<Longrightarrow> (\<not> b \<Longrightarrow> co c J A k B) \<Longrightarrow> co c J A (if b then m else k) B"
  by simp

lemma co_when:
  "(b \<Longrightarrow> co c J A m B) \<Longrightarrow> (\<And>k t. \<not> b \<Longrightarrow> layout_ok k \<Longrightarrow> A k t \<Longrightarrow> B () k t) \<Longrightarrow>
    co c J A (io_when b m) B"
  by (simp add: io_when_def co_ret)

lemma co_pure: "(p \<Longrightarrow> co c J A m B) \<Longrightarrow> co c J (\<lambda>k t. A k t \<and> p) m B"
  by (rule coI) (auto dest: coD)

lemma co_ex: "(\<And>x. co c J (A x) m B) \<Longrightarrow> co c J (\<lambda>k t. \<exists>x. A x k t) m B"
  by (rule coI) (auto dest: coD)

lemma co_False: "co c J (\<lambda>k t. False) m B"
  by (rule coI) simp

text \<open>An answer other than a resumption.\<close>

lemma co_inv_script:
  "co_inv c J w \<Longrightarrow> script w = r # rs \<Longrightarrow> \<not> is_resume r \<Longrightarrow> co_inv c J (w\<lparr>script := rs\<rparr>)"
  by (auto simp: co_inv_def resume_inv_def own_ok_def split: if_splits)

lemma co_answer_bind:
  assumes "\<And>r. \<not> is_resume r \<Longrightarrow> co c J A (f r) B"
    and "\<And>g w. f (R_resume g) w = (Inl Mismatch, w)"
  shows "co c J A (io_bind (answer Wait) f) B"
proof (rule coI)
  fix w r v assume w: "co_inv c J w" "A (conns (st w) c) (trace w)"
    and run: "io_bind (answer Wait) f w = (r, v)"
  show "co_post c J B r v"
  proof (cases "script w")
    case Nil
    with w run show ?thesis by (auto simp: io_exec)
  next
    case (Cons a rs)
    show ?thesis
    proof (cases "is_resume a")
      case True
      then obtain g where "a = R_resume g" by (cases a) auto
      with Cons run assms(2) show ?thesis by (auto simp: io_exec)
    next
      case False
      let ?u = "w\<lparr>script := rs\<rparr>"
      have "f a ?u = (r, v)" using Cons run by (simp add: io_exec)
      with assms(1) [OF False] co_inv_script [OF w(1) Cons False] w(2)
      show ?thesis by (auto dest: coD)
    qed
  qed
qed

lemma co_gets:
  "(\<And>w. co_inv c J w \<Longrightarrow> A (conns (st w) c) (trace w) \<Longrightarrow> B (f (st w)) (conns (st w) c) (trace w)) \<Longrightarrow>
    co c J A (gets_st f) B"
  by (rule coI) (auto simp: gets_st_def)

lemma co_curr_time: "co c J A curr_time (\<lambda>_. A)"
  unfolding curr_time_def
  by (rule co_answer_bind) (auto intro: co_ret co_stop simp: stop_with_def split: resp.split)

lemma with_curr_run:
  "co_inv c J w \<Longrightarrow> with_curr f w = f c w"
  by (simp add: with_curr_def co_inv_def own_ok_def io_exec)

lemma co_with_curr: "co c J A (f c) B \<Longrightarrow> co c J A (with_curr f) B"
  by (rule coI) (auto simp: with_curr_run dest: coD)

lemma co_curr_field:
  "(\<And>k t. layout_ok k \<Longrightarrow> A k t \<Longrightarrow> B (f k) k t) \<Longrightarrow> co c J A (curr_field f) B"
  unfolding curr_field_def
  by (intro co_with_curr co_gets) (auto simp: co_inv_def own_ok_def)

text \<open>A change of the connection's own state, where \<open>J\<close> allows it.\<close>

lemma co_modify:
  assumes "\<And>s. own_ok c s \<Longrightarrow> own_ok c (f s)"
    and "\<And>s. own_ok c s \<Longrightarrow> J s \<Longrightarrow> J (f s)"
    and "\<And>s t. own_ok c s \<Longrightarrow> A (conns s c) t \<Longrightarrow> B () (conns (f s) c) t"
  shows "co c J A (modify_st f) B"
  by (rule coI) (use assms in \<open>auto simp: modify_st_def co_inv_def resume_inv_def\<close>)

section \<open>What the coroutine's state must allow\<close>

text \<open>
  The contract between the rest of the process and the coroutine of \<open>c\<close>: a property \<open>J\<close> of
  the state that survives every change the coroutine makes through \<open>srv_conn_ctxt.c\<close>.
\<close>

definition same_footprint :: "conn_t \<Rightarrow> conn_t \<Rightarrow> bool" where
  "same_footprint k k' \<longleftrightarrow>
     layout_ok k' \<and> ctx_buf_p k' = ctx_buf_p k \<and> is_active k' = is_active k \<and>
     conn_ctx k' = conn_ctx k"

locale coroutine_state =
  fixes c :: nat and J :: "srv_state \<Rightarrow> bool"
  assumes J_conn: "own_ok c s \<Longrightarrow> J s \<Longrightarrow> same_footprint (conns s c) (f (conns s c)) \<Longrightarrow>
      J (set_conn c f s)"
    and J_active: "own_ok c s \<Longrightarrow> J s \<Longrightarrow> J (update_active c now s)"
    and J_inactive: "own_ok c s \<Longrightarrow> J s \<Longrightarrow> J (set_inactive c s)"
    and J_swap: "own_ok c s \<Longrightarrow> J s \<Longrightarrow> J (s\<lparr>last_ctx_swap := now\<rparr>)"
    and J_served: "own_ok c s \<Longrightarrow> J s \<Longrightarrow> J (s\<lparr>n_conn := n\<rparr>)"
begin

lemma co_set_conn:
  assumes "\<And>k t. layout_ok k \<Longrightarrow> A k t \<Longrightarrow> same_footprint k (f k) \<and> B () (f k) t"
  shows "co c J A (modify_st (set_conn c f)) B"
proof (rule coI)
  fix w r v assume w: "co_inv c J w" "A (conns (st w) c) (trace w)"
    and run: "modify_st (set_conn c f) w = (r, v)"
  then have a: "same_footprint (conns (st w) c) (f (conns (st w) c))"
    "B () (f (conns (st w) c)) (trace w)" using assms by (auto simp: co_inv_def own_ok_def)
  then have "own_ok c (set_conn c f (st w))"
    using w(1) by (simp add: co_inv_def own_ok_def same_footprint_def)
  moreover have "J (st w) \<Longrightarrow> J (set_conn c f (st w))"
    using w(1) a(1) J_conn by (simp add: co_inv_def)
  ultimately show "co_post c J B r v"
    using w(1) run a(2) by (auto simp: modify_st_def co_inv_def resume_inv_def)
qed

lemma update_active_own:
  "conns (update_active c now s) c = (conns s c)\<lparr>last_active := now, is_active := True\<rparr>"
  by (cases "conns s c") (auto simp: update_active_def Let_def)

lemma set_inactive_own: "conns (set_inactive c s) c = (conns s c)\<lparr>is_active := False\<rparr>"
  by (cases "conns s c") (auto simp: set_inactive_def)

lemma curr_update_active [simp]: "curr_conn (update_active c now s) = curr_conn s"
  by (simp add: update_active_def Let_def)

lemma curr_set_inactive [simp]: "curr_conn (set_inactive c s) = curr_conn s"
  by (simp add: set_inactive_def)

lemma co_update_active:
  assumes "\<And>k t now. layout_ok k \<Longrightarrow> A k t \<Longrightarrow> B () (k\<lparr>last_active := now, is_active := True\<rparr>) t"
  shows "co c J A curr_conn_update_active B"
  unfolding curr_conn_update_active_def
  by (rule co_bind [OF co_curr_time], rule co_with_curr, rule co_modify)
    (use assms J_active in \<open>auto simp: own_ok_def update_active_own layout_ok_def\<close>)

lemma co_set_inactive:
  assumes "\<And>k t. layout_ok k \<Longrightarrow> A k t \<Longrightarrow> B () (k\<lparr>is_active := False\<rparr>) t"
  shows "co c J A curr_conn_set_inactive B"
  unfolding curr_conn_set_inactive_def
  by (rule co_with_curr, rule co_modify)
    (use assms J_inactive in \<open>auto simp: own_ok_def set_inactive_own layout_ok_def\<close>)

lemma co_start_op:
  assumes "\<And>k t now. layout_ok k \<Longrightarrow> A k t \<Longrightarrow> B () (k\<lparr>start_op := now\<rparr>) t"
  shows "co c J A curr_conn_start_op B"
  unfolding curr_conn_start_op_def
  by (rule co_bind [OF co_curr_time], rule co_with_curr, rule co_set_conn)
    (use assms in \<open>auto simp: same_footprint_def layout_ok_def\<close>)

lemma co_close:
  assumes "\<And>k t. layout_ok k \<Longrightarrow> A k t \<Longrightarrow> is_completed k \<Longrightarrow> B () k t"
    and "\<And>k t. layout_ok k \<Longrightarrow> A k t \<Longrightarrow> \<not> is_completed k \<Longrightarrow>
      B () (k\<lparr>is_completed := True\<rparr>) (t @ [Ev_close (conn_sock k)])"
  shows "co c J A curr_conn_close B"
  unfolding curr_conn_close_def
proof (rule co_with_curr, rule co_bind [where M = "\<lambda>conn k t. A k t \<and> conn = k"])
  show "co c J A (gets_st (\<lambda>s. conns s c)) (\<lambda>conn k t. A k t \<and> conn = k)"
    by (rule co_gets) simp
next
  fix conn
  show "co c J (\<lambda>k t. A k t \<and> conn = k) (io_when (\<not> is_completed conn)
      (io_then (emit (Ev_close (conn_sock conn)))
        (modify_st (set_conn c (\<lambda>k. k\<lparr>is_completed := True\<rparr>))))) B"
  proof (rule co_when)
    assume "\<not> is_completed conn"
    then show "co c J (\<lambda>k t. A k t \<and> conn = k) (io_then (emit (Ev_close (conn_sock conn)))
        (modify_st (set_conn c (\<lambda>k. k\<lparr>is_completed := True\<rparr>)))) B"
      by (intro co_then [OF co_emit, where M = "\<lambda>k t. B () (k\<lparr>is_completed := True\<rparr>) t"] co_set_conn)
        (auto simp: assms(2) same_footprint_def layout_ok_def)
  qed (use assms(1) in auto)
qed

lemma co_op_timeout: "co c J A (curr_conn_op_timeout timeout) (\<lambda>_. A)"
  unfolding curr_conn_op_timeout_def
  by (rule co_bind [OF co_curr_time], rule co_bind [OF co_curr_field [where B = "\<lambda>_. A"]])
    (auto intro: co_ret)

lemma co_active_timeout: "co c J A curr_conn_active_timeout (\<lambda>_. A)"
  unfolding curr_conn_active_timeout_def
  by (rule co_bind [OF co_curr_time], rule co_bind [OF co_curr_field [where B = "\<lambda>_. A"]])
    (auto intro: co_ret)

lemma co_need_swap: "co c J A need_ctx_swap (\<lambda>_. A)"
  unfolding need_ctx_swap_def
  by (rule co_bind [OF co_curr_time], rule co_bind [OF co_gets [where B = "\<lambda>_. A"]])
    (auto intro: co_ret)

lemma co_sock: "co c J A curr_conn_sock (\<lambda>a k t. A k t \<and> a = conn_sock k)"
  unfolding curr_conn_sock_def by (rule co_curr_field) simp

text \<open>Switching out and back leaves the connection's own record as it was.\<close>

lemma resume_inv_resumed:
  assumes "resume_inv J w" and "script w = R_resume f # rs"
  shows "resume_inv J (w\<lparr>script := rs, st := f s\<rparr>)"
  using assms by (auto simp: resume_inv_def split: if_splits)

lemma co_swap_to_main:
  assumes "\<And>k t. layout_ok k \<Longrightarrow> A k t \<Longrightarrow> B () k (t @ [Ev_yield c])"
  shows "co c J A swap_to_main_ctx B"
  unfolding swap_to_main_ctx_def same_record_def
proof (rule co_with_curr, rule co_then [OF co_emit [where B = "\<lambda>_. B ()"]])
  let ?k = "\<lambda>r. case r of
        R_swapcontext_err \<Rightarrow> stop_with (Exit EXIT_FAILURE)
      | R_resume f \<Rightarrow>
          io_bind (gets_st (\<lambda>s. conns (f s) c = conns s c \<and> curr_conn (f s) = Some c))
          (\<lambda>ok. if ok
             then io_then (modify_st f)
                    (io_bind curr_time (\<lambda>now. modify_st (\<lambda>s. s\<lparr>last_ctx_swap := now\<rparr>)))
             else stop_with Mismatch)
      | _ \<Rightarrow> stop_with Mismatch"
  have now: "co c J (B ()) (io_bind curr_time (\<lambda>now. modify_st (\<lambda>s. s\<lparr>last_ctx_swap := now\<rparr>))) B"
    by (rule co_bind [OF co_curr_time], rule co_modify) (auto simp: own_ok_def intro: J_swap)
  show "co c J (B ()) (io_bind (answer Suspended) ?k) B"
  proof (rule coI)
    fix w r v assume w: "co_inv c J w" "B () (conns (st w) c) (trace w)"
      and run: "io_bind (answer Suspended) ?k w = (r, v)"
    show "co_post c J B r v"
    proof (cases "script w")
      case Nil
      with w run show ?thesis by (auto simp: io_exec)
    next
      case (Cons a rs)
      let ?u = "w\<lparr>script := rs\<rparr>"
      from Cons run have k: "?k a ?u = (r, v)" by (simp add: io_exec)
      show ?thesis
      proof (cases "is_resume a")
        case True
        then obtain f where f: "a = R_resume f" by (cases a) auto
        show ?thesis
        proof (cases "conns (f (st w)) c = conns (st w) c \<and> curr_conn (f (st w)) = Some c")
          case ok: True
          let ?x = "w\<lparr>script := rs, st := f (st w)\<rparr>"
          have "co_inv c J ?x"
            using w(1) resume_inv_resumed [of w f rs "st w"] Cons f ok
            by (simp add: co_inv_def own_ok_def)
          moreover have "io_bind curr_time (\<lambda>now. modify_st (\<lambda>s. s\<lparr>last_ctx_swap := now\<rparr>)) ?x = (r, v)"
            using k f ok by (simp add: io_exec)
          ultimately show ?thesis using coD [OF now] w(2) ok by simp
        qed (use k f in \<open>auto simp: io_exec\<close>)
      next
        case False
        then have "r = Inl Mismatch \<or> (a = R_swapcontext_err \<and> r = Inl (Exit EXIT_FAILURE) \<and> v = ?u)"
          using k by (cases a) (auto simp: io_exec)
        with co_inv_script [OF w(1) Cons False] show ?thesis by auto
      qed
    qed
  qed
qed (use assms in auto)

lemma co_cond_swap:
  assumes "\<And>k t. layout_ok k \<Longrightarrow> A k t \<Longrightarrow> B () k (t @ [Ev_yield c])"
    and "\<And>k t. layout_ok k \<Longrightarrow> A k t \<Longrightarrow> B () k t"
  shows "co c J A cond_swap_to_main_ctx B"
  unfolding cond_swap_to_main_ctx_def
  by (rule co_bind [OF co_need_swap], rule co_when, rule co_swap_to_main) (use assms in auto)

lemma co_would_block:
  assumes "\<And>k t. layout_ok k \<Longrightarrow> A k t \<Longrightarrow> B () k (t @ [Ev_yield c]) \<and>
      B () (k\<lparr>is_active := False\<rparr>) (t @ [Ev_yield c])"
  shows "co c J A would_block B"
  unfolding would_block_def
proof (rule co_bind [OF co_active_timeout])
  fix b
  let ?M = "\<lambda>k t. B () k (t @ [Ev_yield c])"
  show "co c J A (io_then (io_when b curr_conn_set_inactive) swap_to_main_ctx) B"
    by (rule co_then [where M = ?M], rule co_when, rule co_set_inactive)
      (use assms in \<open>auto intro: co_swap_to_main\<close>)
qed

end

end
