(* ===== verification/Recv_Send.thy ===== *)
theory Recv_Send
  imports Coroutine
begin

text \<open>
  What \<open>recv_from_curr_conn\<close> and \<open>send_to_curr_conn\<close> do, over every run: the bytes received
  are stored one after the other from the given position and never beyond the room given; the
  bytes sent are a prefix of the buffer; the connection's bookkeeping is left alone.
\<close>

section \<open>What a trace has received and sent\<close>

fun ev_in :: "event \<Rightarrow> bytes" where
  "ev_in (Ev_recv sock d) = d"
| "ev_in _ = []"

fun ev_out :: "event \<Rightarrow> bytes" where
  "ev_out (Ev_send sock d) = d"
| "ev_out _ = []"

definition recvd :: "event list \<Rightarrow> bytes" where
  "recvd t = concat (map ev_in t)"

definition sent :: "event list \<Rightarrow> bytes" where
  "sent t = concat (map ev_out t)"

lemma recvd_simps [simp]:
  "recvd [] = []" "recvd (t @ [Ev_yield n]) = recvd t" "recvd (t @ [Ev_send s d]) = recvd t"
  "recvd (t @ [Ev_close n']) = recvd t" "recvd (t @ [Ev_enter n]) = recvd t"
  "recvd (t @ [Ev_fcntl s cmd]) = recvd t" "recvd (t @ [Ev_recv s d]) = recvd t @ d"
  by (simp_all add: recvd_def)

lemma sent_simps [simp]:
  "sent [] = []" "sent (t @ [Ev_yield n]) = sent t" "sent (t @ [Ev_recv s d]) = sent t"
  "sent (t @ [Ev_close n']) = sent t" "sent (t @ [Ev_enter n]) = sent t"
  "sent (t @ [Ev_fcntl s cmd]) = sent t" "sent (t @ [Ev_send s d]) = sent t @ d"
  by (simp_all add: sent_def)

text \<open>The buffer of the connection, and the bytes that went in and out so far.\<close>

definition co_view :: "(nat \<Rightarrow> char) \<Rightarrow> int \<Rightarrow> int \<Rightarrow> bytes \<Rightarrow> bytes \<Rightarrow> conn_t \<Rightarrow> event list \<Rightarrow> bool" where
  "co_view m h u R S k t \<longleftrightarrow>
     recv_mem k = m \<and> recv_buf_have k = h \<and> recv_buf_curr k = u \<and> recvd t = R \<and> sent t = S"

lemma co_view_conn [simp]:
  "co_view m h u R S (k\<lparr>last_active := a\<rparr>) t = co_view m h u R S k t"
  "co_view m h u R S (k\<lparr>is_active := b\<rparr>) t = co_view m h u R S k t"
  "co_view m h u R S (k\<lparr>start_op := s\<rparr>) t = co_view m h u R S k t"
  "co_view m h u R S (k\<lparr>is_completed := b\<rparr>) t = co_view m h u R S k t"
  "co_view m h u R S k (t @ [Ev_yield n]) = co_view m h u R S k t"
  "co_view m h u R S k (t @ [Ev_close n']) = co_view m h u R S k t"
  "co_view m h u R S k (t @ [Ev_enter n]) = co_view m h u R S k t"
  by (simp_all add: co_view_def)

lemma mem_store_Nil [simp]: "mem_store off [] m = m"
  by (auto simp: mem_store_def fun_eq_iff)

lemma mem_store_append:
  "mem_store (off + length a) b (mem_store off a m) = mem_store off (a @ b) m"
  by (auto simp: mem_store_def fun_eq_iff nth_append)

lemma mem_view_store: "mem_view (mem_store off bs m) off (length bs) = bs"
  by (auto simp: mem_view_def mem_store_def intro!: nth_equalityI)

lemma mem_view_append: "mem_view m off (a + b) = mem_view m off a @ mem_view m (off + a) b"
  by (auto simp: mem_view_def intro!: nth_equalityI simp: nth_append)

lemma mem_view_store_before: "off + n \<le> off' \<Longrightarrow> mem_view (mem_store off' bs m) off n = mem_view m off n"
  by (auto simp: mem_view_def mem_store_def)

lemma length_mem_view [simp]: "length (mem_view m off n) = n"
  by (simp add: mem_view_def)

section \<open>The calls\<close>

context coroutine_state
begin

lemma co_lift_fault:
  assumes "\<And>f k t. layout_ok k \<Longrightarrow> A k t \<Longrightarrow> r = Inl f \<Longrightarrow> f \<in> co_faults"
    and "\<And>a k t. layout_ok k \<Longrightarrow> A k t \<Longrightarrow> r = Inr a \<Longrightarrow> B a k t"
  shows "co c J A (lift_fault r) B"
proof (cases r)
  case (Inl f)
  show ?thesis
    by (rule coI) (use assms(1) Inl in \<open>auto simp: lift_fault_def stop_with_def co_inv_def own_ok_def\<close>)
next
  case (Inr a)
  with assms(2) show ?thesis by (auto simp: lift_fault_def intro!: co_ret)
qed

text \<open>The bytes \<open>d\<close> of a read, stored at \<open>off\<close>.\<close>

lemma co_store_read:
  assumes "0 \<le> off" and "off + int (length d) \<le> limit"
    and data: "\<And>k t. layout_ok k \<Longrightarrow> A k t \<Longrightarrow>
      B (Inr (int (length d))) (k\<lparr>recv_mem := mem_store (nat off) d (recv_mem k)\<rparr>) (t @ [Ev_recv sock d])"
  shows "co c J A
    (if off < 0 \<or> off + int (length d) > limit then stop_with (Fault (Out_of_bounds off))
     else io_then (emit (Ev_recv sock d))
       (io_then (with_curr (\<lambda>c. modify_st (set_conn c (\<lambda>k. k\<lparr>recv_mem := mem_store (nat off) d (recv_mem k)\<rparr>))))
         (ret (Inr (int (length d)))))) B"
proof -
  let ?E = "\<lambda>k t. \<exists>t'. t = t' @ [Ev_recv sock d] \<and> A k t'"
  have "co c J ?E (with_curr (\<lambda>c. modify_st (set_conn c (\<lambda>k.
      k\<lparr>recv_mem := mem_store (nat off) d (recv_mem k)\<rparr>)))) (\<lambda>_. B (Inr (int (length d))))"
    by (rule co_with_curr, rule co_set_conn) (auto simp: same_footprint_def intro: data)
  then have store: "co c J ?E (io_then (with_curr (\<lambda>c. modify_st (set_conn c (\<lambda>k.
      k\<lparr>recv_mem := mem_store (nat off) d (recv_mem k)\<rparr>)))) (ret (Inr (int (length d))))) B"
    by (rule co_then [OF _ co_ret])
  have "co c J A (emit (Ev_recv sock d)) (\<lambda>_. ?E)" by (rule co_emit) blast
  from co_then [OF this store] assms(1,2) show ?thesis by simp
qed

lemma co_sys_read:
  assumes room: "\<And>k t. layout_ok k \<Longrightarrow> A k t \<Longrightarrow> 0 \<le> off \<and> 0 \<le> n \<and> off + n \<le> RECV_BUF_SIZE"
    and err: "\<And>k t e. layout_ok k \<Longrightarrow> A k t \<Longrightarrow> B (Inl e) k t"
    and data: "\<And>k t d. layout_ok k \<Longrightarrow> A k t \<Longrightarrow> int (length d) \<le> n \<Longrightarrow>
      B (Inr (int (length d))) (k\<lparr>recv_mem := mem_store (nat off) d (recv_mem k)\<rparr>)
        (t @ [Ev_recv sock d])"
  shows "co c J A (sys_read sock off n) B"
  unfolding sys_read_def
proof (rule co_answer_bind)
  fix r assume "\<not> is_resume r"
  let ?M = "\<lambda>size k t. A k t \<and> (size = RECV_BUF_SIZE \<and> 0 \<le> off \<and> 0 \<le> n \<and> off + n \<le> RECV_BUF_SIZE)"
  have got: "co c J A (io_bind (curr_field recv_buf_size) (\<lambda>size.
      if off < 0 \<or> off + int (length d) > size then stop_with (Fault (Out_of_bounds off))
      else io_then (emit (Ev_recv sock d))
        (io_then (with_curr (\<lambda>c. modify_st (set_conn c (\<lambda>k. k\<lparr>recv_mem := mem_store (nat off) d (recv_mem k)\<rparr>))))
          (ret (Inr (int (length d))))))) B" if d: "d = take (size_t_of n) bs" for d bs
  proof (rule co_bind [where M = ?M], rule co_curr_field)
    fix k t assume "layout_ok k" "A k t"
    then show "?M (recv_buf_size k) k t" using room [of k t] by (simp add: layout_ok_def)
  next
    fix size
    show "co c J (?M size)
      (if off < 0 \<or> off + int (length d) > size then stop_with (Fault (Out_of_bounds off))
       else io_then (emit (Ev_recv sock d))
         (io_then (with_curr (\<lambda>c. modify_st (set_conn c (\<lambda>k. k\<lparr>recv_mem := mem_store (nat off) d (recv_mem k)\<rparr>))))
           (ret (Inr (int (length d)))))) B"
    proof (rule co_pure)
      assume b: "size = RECV_BUF_SIZE \<and> 0 \<le> off \<and> 0 \<le> n \<and> off + n \<le> RECV_BUF_SIZE"
      then have len: "int (length d) \<le> n" using d by (auto simp: size_t_of_def srv_consts)
      show "co c J A
        (if off < 0 \<or> off + int (length d) > size then stop_with (Fault (Out_of_bounds off))
         else io_then (emit (Ev_recv sock d))
           (io_then (with_curr (\<lambda>c. modify_st (set_conn c (\<lambda>k. k\<lparr>recv_mem := mem_store (nat off) d (recv_mem k)\<rparr>))))
             (ret (Inr (int (length d)))))) B"
        by (rule co_store_read) (use b len data in simp_all)
    qed
  qed
  show "co c J A (case r of R_read_err e \<Rightarrow> ret (Inl e)
     | R_read_data bs \<Rightarrow>
         (let d = take (size_t_of n) bs in
          io_bind (curr_field recv_buf_size) (\<lambda>size.
          if off < 0 \<or> off + int (length d) > size then stop_with (Fault (Out_of_bounds off))
          else io_then (emit (Ev_recv sock d))
            (io_then (with_curr (\<lambda>c. modify_st (set_conn c (\<lambda>k.
                k\<lparr>recv_mem := mem_store (nat off) d (recv_mem k)\<rparr>))))
              (ret (Inr (int (length d)))))))
     | _ \<Rightarrow> stop_with Mismatch) B"
    by (cases r) (auto simp: Let_def simp del: length_take intro: co_ret co_stop err got)
qed (simp add: stop_with_def)

lemma co_sys_write:
  assumes room: "0 \<le> off" "0 \<le> n" "off + n \<le> int (length buf)"
    and err: "\<And>k t e. layout_ok k \<Longrightarrow> A k t \<Longrightarrow> B (Inl e) k t"
    and data: "\<And>k t j. layout_ok k \<Longrightarrow> A k t \<Longrightarrow> int j \<le> n \<Longrightarrow>
      B (Inr (int j)) k (t @ [Ev_send sock (take j (drop (nat off) buf))])"
  shows "co c J A (sys_write sock buf off n) B"
  unfolding sys_write_def
proof (rule co_answer_bind)
  fix r assume "\<not> is_resume r"
  show "co c J A (case r of
       R_write_err e \<Rightarrow> if e = EPIPE then stop_with (Fault Sigpipe) else ret (Inl e)
     | R_write_cnt k \<Rightarrow>
         if off < 0 \<or> n < 0 \<or> off + n > int (length buf) then stop_with (Fault (Out_of_bounds off))
         else (let d = take (min k (nat n)) (drop (nat off) buf) in
           io_then (emit (Ev_send sock d)) (ret (Inr (int (length d)))))
     | _ \<Rightarrow> stop_with Mismatch) B"
  proof (cases r)
    case (R_write_cnt k)
    have len: "length (take (min k (nat n)) (drop (nat off) buf)) = min k (nat n)"
      using room by auto
    have "co c J A (io_then (emit (Ev_send sock (take (min k (nat n)) (drop (nat off) buf))))
        (ret (Inr (int (min k (nat n)))))) B"
      by (rule co_then [OF co_emit [where B = "\<lambda>_. B (Inr (int (min k (nat n))))"] co_ret])
        (use data room in auto)
    with R_write_cnt room show ?thesis by (simp only: len Let_def resp.case) simp
  qed (auto intro: co_ret co_stop err simp: co_faults_def)
qed (simp add: stop_with_def)

end

section \<open>The loops\<close>

text \<open>
  \<open>recv_state\<close>: \<open>n\<close> bytes have been received of the \<open>room\<close> asked for, stored from
  position \<open>off\<close> on; \<open>sent_state\<close>: the first \<open>n\<close> of the \<open>tot\<close> bytes are sent.
\<close>

definition recv_state ::
  "(nat \<Rightarrow> char) \<Rightarrow> int \<Rightarrow> int \<Rightarrow> bytes \<Rightarrow> bytes \<Rightarrow> int \<Rightarrow> int \<Rightarrow> int \<Rightarrow> conn_t \<Rightarrow> event list \<Rightarrow> bool" where
  "recv_state m h u R S off room n k t \<longleftrightarrow>
     (\<exists>d. co_view (mem_store (nat off) d m) h u (R @ d) S k t \<and> n = int (length d) \<and> n \<le> room)"

definition recv_loop_inv ::
  "(nat \<Rightarrow> char) \<Rightarrow> int \<Rightarrow> int \<Rightarrow> bytes \<Rightarrow> bytes \<Rightarrow> int \<Rightarrow> int \<Rightarrow> io_local \<Rightarrow> conn_t \<Rightarrow> event list \<Rightarrow> bool" where
  "recv_loop_inv m h u R S off room l k t =
     (case l of (to_recv, n_recv, recv_term, recv_timeout) \<Rightarrow>
       recv_state m h u R S off room (n_recv - off) k t \<and> to_recv = room - (n_recv - off))"

definition recv_result ::
  "(nat \<Rightarrow> char) \<Rightarrow> int \<Rightarrow> int \<Rightarrow> bytes \<Rightarrow> bytes \<Rightarrow> int \<Rightarrow> int \<Rightarrow> int \<Rightarrow> conn_t \<Rightarrow> event list \<Rightarrow> bool" where
  "recv_result m h u R S off room r k t \<longleftrightarrow>
     recv_state m h u R S off room r k t \<or>
     (r = -1 \<and> (\<exists>n. recv_state m h u R S off room n k t))"

lemma recv_state_0: "co_view m h u R S k t \<Longrightarrow> 0 \<le> room \<Longrightarrow> recv_state m h u R S off room 0 k t"
  unfolding recv_state_def by (rule exI [of _ "[]"]) simp

lemma recv_state_conn [simp]:
  "recv_state m h u R S off room n (k\<lparr>last_active := a\<rparr>) t = recv_state m h u R S off room n k t"
  "recv_state m h u R S off room n (k\<lparr>is_active := b\<rparr>) t = recv_state m h u R S off room n k t"
  "recv_state m h u R S off room n (k\<lparr>is_completed := b\<rparr>) t = recv_state m h u R S off room n k t"
  "recv_state m h u R S off room n k (t @ [Ev_yield x]) = recv_state m h u R S off room n k t"
  "recv_state m h u R S off room n k (t @ [Ev_close y]) = recv_state m h u R S off room n k t"
  by (simp_all add: recv_state_def)

lemma recv_state_bounds: "recv_state m h u R S off room n k t \<Longrightarrow> 0 \<le> n \<and> n \<le> room"
  by (auto simp: recv_state_def)

lemma recv_state_more:
  assumes "recv_state m h u R S off room n k t" and "0 \<le> off" and "n + int (length d) \<le> room"
  shows "recv_state m h u R S off room (n + int (length d))
    (k\<lparr>recv_mem := mem_store (nat (off + n)) d (recv_mem k)\<rparr>) (t @ [Ev_recv sock d])"
proof -
  from assms(1) obtain e where e: "co_view (mem_store (nat off) e m) h u (R @ e) S k t"
    "n = int (length e)" by (auto simp: recv_state_def)
  have "nat (off + n) = nat off + length e" using assms(2) e(2) by simp
  with e have "co_view (mem_store (nat off) (e @ d) m) h u (R @ e @ d) S
      (k\<lparr>recv_mem := mem_store (nat (off + n)) d (recv_mem k)\<rparr>) (t @ [Ev_recv sock d])"
    by (simp add: co_view_def mem_store_append)
  with e(2) assms(3) show ?thesis by (auto simp: recv_state_def intro!: exI [of _ "e @ d"])
qed

lemma recv_result_n: "recv_state m h u R S off room n k t \<Longrightarrow> recv_result m h u R S off room n k t"
  by (simp add: recv_result_def)

definition send_state ::
  "(nat \<Rightarrow> char) \<Rightarrow> int \<Rightarrow> int \<Rightarrow> bytes \<Rightarrow> bytes \<Rightarrow> bytes \<Rightarrow> int \<Rightarrow> int \<Rightarrow> conn_t \<Rightarrow> event list \<Rightarrow> bool" where
  "send_state m h u R S buf tot n k t \<longleftrightarrow>
     co_view m h u R (S @ take (nat n) buf) k t \<and> 0 \<le> n \<and> n \<le> tot"

definition send_loop_inv ::
  "(nat \<Rightarrow> char) \<Rightarrow> int \<Rightarrow> int \<Rightarrow> bytes \<Rightarrow> bytes \<Rightarrow> bytes \<Rightarrow> int \<Rightarrow> io_local \<Rightarrow> conn_t \<Rightarrow> event list \<Rightarrow> bool" where
  "send_loop_inv m h u R S buf tot l k t =
     (case l of (to_send, n_send, send_ended, send_timeout) \<Rightarrow>
       send_state m h u R S buf tot n_send k t \<and> to_send = tot - n_send)"

definition send_result ::
  "(nat \<Rightarrow> char) \<Rightarrow> int \<Rightarrow> int \<Rightarrow> bytes \<Rightarrow> bytes \<Rightarrow> bytes \<Rightarrow> int \<Rightarrow> int \<Rightarrow> conn_t \<Rightarrow> event list \<Rightarrow> bool" where
  "send_result m h u R S buf tot r k t \<longleftrightarrow>
     send_state m h u R S buf tot r k t \<or>
     (r = -1 \<and> (\<exists>n. send_state m h u R S buf tot n k t))"

lemma send_state_conn [simp]:
  "send_state m h u R S buf tot n (k\<lparr>last_active := a\<rparr>) t = send_state m h u R S buf tot n k t"
  "send_state m h u R S buf tot n (k\<lparr>is_active := b\<rparr>) t = send_state m h u R S buf tot n k t"
  "send_state m h u R S buf tot n (k\<lparr>is_completed := b\<rparr>) t = send_state m h u R S buf tot n k t"
  "send_state m h u R S buf tot n k (t @ [Ev_yield x]) = send_state m h u R S buf tot n k t"
  "send_state m h u R S buf tot n k (t @ [Ev_close y]) = send_state m h u R S buf tot n k t"
  by (simp_all add: send_state_def)

lemma send_state_more:
  assumes "send_state m h u R S buf tot n k t" and "n + int j \<le> tot"
  shows "send_state m h u R S buf tot (n + int j) k
    (t @ [Ev_send sock (take j (drop (nat n) buf))])"
proof -
  have "nat (n + int j) = nat n + j" using assms by (simp add: send_state_def nat_add_distrib)
  with assms show ?thesis by (simp add: send_state_def co_view_def take_add)
qed

context coroutine_state
begin

text \<open>The parts of the loop bodies.\<close>

lemma co_sock_error:
  assumes A: "\<And>k t b. A k t \<Longrightarrow> A (k\<lparr>is_active := b\<rparr>) t \<and> A (k\<lparr>is_completed := b\<rparr>) t"
    and A': "\<And>k t x y. A k t \<Longrightarrow> A k (t @ [Ev_yield x]) \<and> A k (t @ [Ev_close y])"
    and B: "\<And>k t. A k t \<Longrightarrow> B (Inl l) k t" "\<And>k t. A k t \<Longrightarrow> B (Inr (-1)) k t"
  shows "co c J A (sock_error l errno) B"
  unfolding sock_error_def
proof (rule co_if)
  show "co c J A (io_then would_block (ret (Inl l))) B"
    by (rule co_then [OF co_would_block [where B = "\<lambda>_. A"] co_ret]) (simp_all add: A A' B)
  show "co c J A (io_then curr_conn_close (io_then swap_to_main_ctx (ret (Inr (-1))))) B"
    by (rule co_then [OF co_close [where B = "\<lambda>_. A"]
          co_then [OF co_swap_to_main [where B = "\<lambda>_. A"] co_ret]]) (simp_all add: A A' B)
qed

lemma co_check_timeout: "co c J A (check_timeout timeout b) (\<lambda>_. A)"
  unfolding check_timeout_def by (intro co_if co_op_timeout co_ret)

lemma co_check_end:
  assumes "\<And>k t. layout_ok k \<Longrightarrow> A k t \<Longrightarrow> 0 \<le> prev \<and> prev < n \<and> n \<le> RECV_BUF_SIZE"
  shows "co c J A (check_end terminator b prev n) (\<lambda>_. A)"
  unfolding check_end_def
proof (rule co_if)
  show "co c J A (io_bind (curr_field mem_byte) (\<lambda>buf. lift_fault (is_http_message_end buf prev n))) (\<lambda>_. A)"
  proof (rule co_bind [where M = "\<lambda>buf k t. A k t \<and> buf = mem_byte k"])
    show "co c J A (curr_field mem_byte) (\<lambda>buf k t. A k t \<and> buf = mem_byte k)"
      by (rule co_curr_field) simp
    show "co c J (\<lambda>k t. A k t \<and> buf = mem_byte k) (lift_fault (is_http_message_end buf prev n)) (\<lambda>_. A)"
      for buf
    proof (rule co_lift_fault)
      fix f k t assume l: "layout_ok k" and A: "A k t \<and> buf = mem_byte k"
        and f: "is_http_message_end buf prev n = Inl f"
      from l have size: "recv_buf_size k = RECV_BUF_SIZE" by (simp add: layout_ok_def)
      with message_end_fault [of prev n k f] assms l A f show "f \<in> co_faults"
        by (auto simp: co_faults_def)
    qed simp
  qed
qed (rule co_ret)

lemma co_recv_got:
  assumes off: "0 \<le> off" and room: "off + room \<le> RECV_BUF_SIZE"
  shows "co c J (\<lambda>k t. recv_state m h u R S off room (n_recv - off + cnt) k t \<and>
      (to_recv = room - (n_recv - off) \<and> off \<le> n_recv \<and> 0 \<le> cnt))
    (recv_got timeout terminator (to_recv, n_recv, recv_term, recv_timeout) cnt)
    (\<lambda>r k t. case r of Inl l' \<Rightarrow> recv_loop_inv m h u R S off room l' k t
       | Inr a \<Rightarrow> recv_result m h u R S off room a k t)" (is "co c J ?A _ ?B")
  unfolding recv_got_def prod.case
proof (rule co_if)
  assume cnt: "cnt > 0"
  show "co c J ?A (io_then curr_conn_update_active
     (io_bind (check_end terminator recv_term n_recv (n_recv + cnt)) (\<lambda>recv_term'.
      io_bind (check_timeout timeout recv_timeout) (\<lambda>recv_timeout'.
      ret (Inl (to_recv - cnt, n_recv + cnt, recv_term', recv_timeout')))))) ?B"
    by (rule co_then [OF co_update_active [where B = "\<lambda>_. ?A"]
          co_bind [OF co_check_end co_bind [OF co_check_timeout co_ret]]])
      (use cnt off room in \<open>auto simp: recv_loop_inv_def algebra_simps dest: recv_state_bounds\<close>)
next
  assume "\<not> cnt > 0"
  then show "co c J ?A (ret (Inl (to_recv, n_recv, True, recv_timeout))) ?B"
    by (auto intro!: co_ret simp: recv_loop_inv_def)
qed

lemma co_recv_body:
  assumes off: "0 \<le> off" and room: "off + room \<le> RECV_BUF_SIZE"
  shows "co c J (recv_loop_inv m h u R S off room l) (recv_body off timeout terminator l)
    (\<lambda>r k t. case r of Inl l' \<Rightarrow> recv_loop_inv m h u R S off room l' k t
       | Inr a \<Rightarrow> recv_result m h u R S off room a k t)" (is "co c J ?A _ ?B")
proof (cases l)
  case (fields to_recv n_recv recv_term recv_timeout)
  let ?n = "n_recv - off"
  let ?M = "\<lambda>r k t. case r of Inl e \<Rightarrow> ?A k t
      | Inr cnt \<Rightarrow> recv_state m h u R S off room (?n + cnt) k t \<and>
          (to_recv = room - ?n \<and> off \<le> n_recv \<and> 0 \<le> cnt)"
  have A: "?A = (\<lambda>k t. recv_state m h u R S off room ?n k t \<and> to_recv = room - ?n)"
    by (simp add: fields recv_loop_inv_def fun_eq_iff)
  have read: "co c J ?A (sys_read sock n_recv to_recv) ?M" for sock
    unfolding A
    using off room recv_state_more [of m h u R S off room ?n _ _ _ sock]
    by (intro co_sys_read) (fastforce dest: recv_state_bounds)+
  have step: "co c J (?M r) (case r of Inl errno \<Rightarrow> sock_error l errno
      | Inr cnt \<Rightarrow> recv_got timeout terminator l cnt) ?B" for r
  proof (cases r)
    case (Inl e)
    have "co c J ?A (sock_error l e) ?B"
      unfolding A by (rule co_sock_error) (auto simp: fields recv_loop_inv_def recv_result_def)
    with Inl show ?thesis by simp
  qed (simp add: fields co_recv_got [OF off room])
  have "co c J ?A (io_bind curr_conn_sock (\<lambda>sock. io_bind (sys_read sock n_recv to_recv) (\<lambda>r. case r of
      Inl errno \<Rightarrow> sock_error l errno | Inr cnt \<Rightarrow> recv_got timeout terminator l cnt))) ?B"
    by (rule co_bind [OF co_conseq [OF co_sock, where B = "\<lambda>_. ?A"] co_bind [OF read step]]) auto
  moreover have "co c J ?A (ret (Inr (n_recv - off))) ?B"
    unfolding A by (rule co_ret) (simp add: recv_result_n)
  ultimately show ?thesis
    unfolding recv_body_def fields prod.case by (intro co_if)
qed

lemma co_recv_from:
  assumes "0 \<le> off" and "0 \<le> room" and "off + room \<le> RECV_BUF_SIZE"
  shows "co c J (co_view m h u R S) (recv_from_curr_conn room off timeout terminator)
    (recv_result m h u R S off room)"
  unfolding recv_from_curr_conn_def
  by (rule co_then [OF co_update_active [where B = "\<lambda>_. co_view m h u R S"]
        co_then [OF co_start_op [where B = "\<lambda>_. co_view m h u R S"]
          co_pre [OF co_loop [where I = "recv_loop_inv m h u R S off room", OF co_recv_body]]]])
    (use assms in \<open>auto simp: recv_loop_inv_def intro: recv_state_0\<close>)

lemma co_send_got:
  "co c J (\<lambda>k t. send_state m h u R S buf tot (n_send + cnt) k t \<and>
      (to_send = tot - n_send \<and> 0 \<le> cnt))
    (send_got timeout (to_send, n_send, send_ended, send_timeout) cnt)
    (\<lambda>r k t. case r of Inl l' \<Rightarrow> send_loop_inv m h u R S buf tot l' k t
       | Inr a \<Rightarrow> send_result m h u R S buf tot a k t)" (is "co c J ?A _ ?B")
  unfolding send_got_def prod.case
proof (rule co_if)
  assume cnt: "cnt > 0"
  show "co c J ?A (io_then curr_conn_update_active
     (io_bind (check_timeout timeout send_timeout) (\<lambda>send_timeout'.
      ret (Inl (to_send - cnt, n_send + cnt, send_ended, send_timeout'))))) ?B"
    by (rule co_then [OF co_update_active [where B = "\<lambda>_. ?A"] co_bind [OF co_check_timeout co_ret]])
      (auto simp: send_loop_inv_def)
next
  assume "\<not> cnt > 0"
  then show "co c J ?A (ret (Inl (to_send, n_send, True, send_timeout))) ?B"
    by (auto intro!: co_ret simp: send_loop_inv_def)
qed

lemma co_send_body:
  assumes tot: "tot \<le> int (length buf)"
  shows "co c J (send_loop_inv m h u R S buf tot l) (send_body buf timeout l)
    (\<lambda>r k t. case r of Inl l' \<Rightarrow> send_loop_inv m h u R S buf tot l' k t
       | Inr a \<Rightarrow> send_result m h u R S buf tot a k t)" (is "co c J ?A _ ?B")
proof (cases l)
  case (fields to_send n_send send_ended send_timeout)
  let ?p = "0 \<le> n_send \<and> n_send \<le> tot \<and> to_send = tot - n_send"
  let ?M = "\<lambda>r k t. case r of Inl e \<Rightarrow> ?A k t
      | Inr cnt \<Rightarrow> send_state m h u R S buf tot (n_send + cnt) k t \<and>
          (to_send = tot - n_send \<and> 0 \<le> cnt)"
  have A: "?A = (\<lambda>k t. send_state m h u R S buf tot n_send k t \<and> ?p)"
    by (auto simp: fields send_loop_inv_def send_state_def fun_eq_iff)
  have wr: "co c J ?A (sys_write sock buf n_send to_send) ?M" for sock
    unfolding A
  proof (rule co_pure)
    assume p: ?p
    show "co c J (send_state m h u R S buf tot n_send) (sys_write sock buf n_send to_send)
      (\<lambda>r k t. case r of Inl e \<Rightarrow> send_state m h u R S buf tot n_send k t \<and> ?p
         | Inr cnt \<Rightarrow> send_state m h u R S buf tot (n_send + cnt) k t \<and>
             (to_send = tot - n_send \<and> 0 \<le> cnt))"
      using p tot by (intro co_sys_write) (auto intro!: send_state_more)
  qed
  have step: "co c J (?M r) (case r of Inl errno \<Rightarrow> sock_error l errno
      | Inr cnt \<Rightarrow> send_got timeout l cnt) ?B" for r
  proof (cases r)
    case (Inl e)
    have "co c J ?A (sock_error l e) ?B"
      unfolding A by (rule co_sock_error) (auto simp: fields send_loop_inv_def send_result_def)
    with Inl show ?thesis by simp
  qed (simp add: fields co_send_got)
  have "co c J ?A (io_bind curr_conn_sock (\<lambda>sock. io_bind (sys_write sock buf n_send to_send) (\<lambda>r.
      case r of Inl errno \<Rightarrow> sock_error l errno | Inr cnt \<Rightarrow> send_got timeout l cnt))) ?B"
    by (rule co_bind [OF co_conseq [OF co_sock, where B = "\<lambda>_. ?A"] co_bind [OF wr step]]) auto
  moreover have "co c J ?A (ret (Inr n_send)) ?B"
    unfolding A by (rule co_ret) (simp add: send_result_def)
  ultimately show ?thesis
    unfolding send_body_def fields prod.case by (intro co_if)
qed

lemma co_send_to:
  assumes "0 \<le> tot" and "tot \<le> int (length buf)"
  shows "co c J (co_view m h u R S) (send_to_curr_conn buf tot timeout)
    (send_result m h u R S buf tot)"
  unfolding send_to_curr_conn_def
  by (rule co_then [OF co_update_active [where B = "\<lambda>_. co_view m h u R S"]
        co_then [OF co_start_op [where B = "\<lambda>_. co_view m h u R S"]
          co_pre [OF co_loop [where I = "send_loop_inv m h u R S buf tot", OF co_send_body]]]])
    (use assms in \<open>auto simp: send_loop_inv_def send_state_def\<close>)

end

end
