(* ===== verification/Io_Result.thy ===== *)
theory Io_Result
  imports Recv_Send
begin

text \<open>
  When \<open>recv_from_curr_conn\<close> and \<open>send_to_curr_conn\<close> fail. They return -1 exactly when a call returned an
  error other than that the socket is not ready; then, and only then, they have closed the connection.
\<close>

section \<open>What does not close the connection\<close>

definition steady :: "nat \<Rightarrow> (resp, srv_state, event) world \<Rightarrow> (resp, srv_state, event) world \<Rightarrow> bool" where
  "steady c w v \<longleftrightarrow> suffix (script v) (script w) \<and>
     (curr_conn (st w) = Some c \<longrightarrow>
        curr_conn (st v) = Some c \<and> is_completed (conns (st v) c) = is_completed (conns (st w) c))"

interpretation sd: world_preorder "steady c" for c
  by unfold_locales (auto simp: steady_def intro: suffix_order.trans)

lemma sd_answer: "keeps (steady c) (answer s)"
  by (rule keepsI) (auto simp: answer_def steady_def suffix_ConsI split: list.splits)

lemma sd_emit: "keeps (steady c) (emit e)"
  by (rule keepsI) (auto simp: emit_def steady_def)

lemma sd_modify:
  "(\<And>s. curr_conn (f s) = curr_conn s \<and> is_completed (conns (f s) c) = is_completed (conns s c)) \<Longrightarrow>
    keeps (steady c) (modify_st f)"
  by (rule keepsI) (auto simp: modify_st_def steady_def)

lemma sd_with_curr: "(\<And>d. keeps (steady c) (f d)) \<Longrightarrow> keeps (steady c) (with_curr f)"
  unfolding with_curr_def
  by (intro sd.keeps_bind sd.keeps_gets) (auto intro: sd.keeps_stop split: option.splits)

lemma sd_lift_fault: "keeps (steady c) (lift_fault r)"
  by (cases r) (simp_all add: lift_fault_def sd.keeps_ret sd.keeps_stop)

lemma sd_curr_field: "keeps (steady c) (curr_field f)"
  unfolding curr_field_def by (intro sd_with_curr sd.keeps_gets)

lemmas sd_rules = sd.keeps_bind sd.keeps_then sd.keeps_if sd.keeps_when sd.keeps_gets sd.keeps_ret sd.keeps_stop
  sd_answer sd_emit sd_modify sd_with_curr sd_lift_fault sd_curr_field

lemma sd_time: "keeps (steady c) curr_time"
  unfolding curr_time_def by (intro sd_rules) (auto intro: sd_rules split: resp.splits)

lemma sd_update_active: "keeps (steady c) curr_conn_update_active"
  unfolding curr_conn_update_active_def
  by (intro sd_rules sd_time) (simp_all add: update_active_def Let_def)

lemma sd_start_op: "keeps (steady c) curr_conn_start_op"
  unfolding curr_conn_start_op_def by (intro sd_rules sd_time) simp_all

lemma sd_set_inactive: "keeps (steady c) curr_conn_set_inactive"
  unfolding curr_conn_set_inactive_def by (intro sd_rules) (simp_all add: set_inactive_def)

lemma sd_swap: "keeps (steady c) swap_to_main_ctx"
proof (rule keepsI)
  fix w r v assume r: "swap_to_main_ctx w = (r, v)"
  show "steady c w v"
  proof (cases "curr_conn (st w)")
    case (Some d)
    let ?now = "io_bind curr_time (\<lambda>now. modify_st (\<lambda>s. s\<lparr>last_ctx_swap := now\<rparr>))"
    have now: "keeps (steady c) ?now" by (intro sd_rules sd_time) simp_all
    show ?thesis
    proof (cases "script w")
      case (Cons x xs)
      let ?w = "w\<lparr>trace := trace w @ [Ev_yield d], script := xs\<rparr>"
      have w: "steady c w ?w" using Cons by (simp add: steady_def suffix_ConsI)
      show ?thesis
      proof (cases "\<exists>f. x = R_resume f \<and> conns (f (st w)) d = conns (st w) d \<and> curr_conn (f (st w)) = Some d")
        case True
        then obtain f where f: "x = R_resume f" "conns (f (st w)) d = conns (st w) d" "curr_conn (f (st w)) = Some d"
          by blast
        then have "?now (?w\<lparr>st := f (st w)\<rparr>) = (r, v)"
          using r Some Cons by (simp add: swap_to_main_ctx_def with_curr_def io_exec)
        from keepsD [OF now this] have "steady c (?w\<lparr>st := f (st w)\<rparr>) v" .
        moreover have "steady c w (?w\<lparr>st := f (st w)\<rparr>)"
          using w f Some by (auto simp: steady_def)
        ultimately show ?thesis by (rule sd.R_trans [rotated])
      next
        case False
        then have "v = ?w" using r Some Cons
          by (cases x) (auto simp: swap_to_main_ctx_def with_curr_def io_exec split: if_splits)
        with w show ?thesis by simp
      qed
    qed (use r Some in \<open>auto simp: swap_to_main_ctx_def with_curr_def io_exec steady_def\<close>)
  qed (use r in \<open>auto simp: swap_to_main_ctx_def with_curr_def io_exec steady_def\<close>)
qed

lemma sd_would_block: "keeps (steady c) would_block"
  unfolding would_block_def curr_conn_active_timeout_def
  by (intro sd_rules sd_time sd_set_inactive sd_swap)

lemma sd_sock: "keeps (steady c) curr_conn_sock"
  unfolding curr_conn_sock_def by (rule sd_curr_field)

lemma sd_check_timeout: "keeps (steady c) (check_timeout timeout b)"
  unfolding check_timeout_def curr_conn_op_timeout_def by (intro sd_rules sd_time)

lemma sd_check_end: "keeps (steady c) (check_end terminator b prev n)"
  unfolding check_end_def by (intro sd_rules)

lemma sd_recv_got: "keeps (steady c) (recv_got timeout terminator l cnt)"
  by (cases l; simp only: recv_got_def prod.case) (intro sd_rules sd_update_active sd_check_end sd_check_timeout)

lemma sd_send_got: "keeps (steady c) (send_got timeout l cnt)"
  by (cases l; simp only: send_got_def prod.case) (intro sd_rules sd_update_active sd_check_timeout)

lemma sd_sys_read: "keeps (steady c) (sys_read sock off n)"
  unfolding sys_read_def
  by (intro sd_rules) (auto simp: Let_def set_conn_def intro!: sd_rules split: resp.splits if_splits)

lemma sd_sys_write: "keeps (steady c) (sys_write sock buf off n)"
  unfolding sys_write_def
  by (intro sd_rules) (auto simp: Let_def intro!: sd_rules split: resp.splits)

lemma sys_read_error: "sys_read sock off n w = (Inr (Inl e), u) \<Longrightarrow> script w = R_read_err e # script u"
  by (cases "script w"; cases "hd (script w)")
    (auto simp: sys_read_def answer_def emit_def ret_def stop_with_def io_bind_def io_then_def Let_def
      split: sum.splits prod.splits if_splits)

lemma sys_write_error: "sys_write sock buf off n w = (Inr (Inl e), u) \<Longrightarrow> script w = R_write_err e # script u"
  by (cases "script w"; cases "hd (script w)")
    (auto simp: sys_write_def answer_def emit_def ret_def stop_with_def io_bind_def io_then_def Let_def
      split: sum.splits prod.splits if_splits)

section \<open>One call\<close>

text \<open>The connection was closed because the call was answered with an error other than "not ready".\<close>

definition io_failed :: "nat \<Rightarrow> (errno \<Rightarrow> resp) \<Rightarrow> (resp, srv_state, event) world \<Rightarrow>
    (resp, srv_state, event) world \<Rightarrow> bool" where
  "io_failed c err w v \<longleftrightarrow> is_completed (conns (st v) c) \<and>
     (\<exists>us e vs. script w = us @ err e # vs @ script v \<and> e \<noteq> EAGAIN \<and> e \<noteq> EWOULDBLOCK)"

lemma failed_after: "steady c w u \<Longrightarrow> io_failed c err u v \<Longrightarrow> io_failed c err w v"
proof -
  assume "steady c w u" and "io_failed c err u v"
  then obtain zs us e vs where "script w = zs @ script u" "is_completed (conns (st v) c)"
    "script u = us @ err e # vs @ script v" "e \<noteq> EAGAIN" "e \<noteq> EWOULDBLOCK"
    by (auto simp: io_failed_def steady_def suffix_def)
  then show ?thesis by (auto simp: io_failed_def intro!: exI [of _ "zs @ us"])
qed

lemma sock_error_result:
  assumes run: "sock_error l e w = (Inr res, v)" and c: "curr_conn (st w) = Some c"
  shows "(res = Inl l \<and> steady c w v) \<or> (res = Inr (-1) \<and> e \<noteq> EAGAIN \<and> e \<noteq> EWOULDBLOCK \<and>
    is_completed (conns (st v) c) \<and> suffix (script v) (script w))"
proof (cases "e = EAGAIN \<or> e = EWOULDBLOCK")
  case True
  with run have "io_then would_block (ret (Inl l)) w = (Inr res, v)" by (simp add: sock_error_def)
  moreover have "keeps (steady c) (io_then would_block (ret (Inl l)))" by (intro sd_rules sd_would_block)
  ultimately show ?thesis by (auto simp: io_then_returns ret_def dest: keepsD [OF sd_would_block])
next
  case False
  with run obtain u x where u: "curr_conn_close w = (Inr (), u)" "swap_to_main_ctx u = (Inr x, v)" "res = Inr (-1)"
    by (auto simp: sock_error_def io_then_returns ret_def)
  have "is_completed (conns (st u) c) \<and> script u = script w \<and> curr_conn (st u) = Some c"
    using u(1) c by (auto simp: curr_conn_close_def with_curr_def io_exec io_when_def split: if_splits)
  with keepsD [OF sd_swap u(2), of c] u(3) False show ?thesis by (auto simp: steady_def)
qed

lemma io_call_result:
  assumes run: "io_bind curr_conn_sock (\<lambda>sock. io_bind (sys sock) (\<lambda>r. case r of
      Inl errno \<Rightarrow> sock_error l errno | Inr cnt \<Rightarrow> got cnt)) w = (Inr res, v)" and c: "curr_conn (st w) = Some c"
    and sys: "\<And>sock. keeps (steady c) (sys sock)" "\<forall>sock w e u. sys sock w = (Inr (Inl e), u) \<longrightarrow> script w = err e # script u"
    and got: "\<And>cnt. keeps (steady c) (got cnt)"
  shows "(res = Inr (-1) \<and> io_failed c err w v) \<or>
    (steady c w v \<and> (res = Inl l \<or> (\<exists>cnt u. got cnt u = (Inr res, v))))"
proof -
  from run obtain sock x r u where x: "curr_conn_sock w = (Inr sock, x)" "sys sock x = (Inr r, u)"
    and tl: "(case r of Inl errno \<Rightarrow> sock_error l errno | Inr cnt \<Rightarrow> got cnt) u = (Inr res, v)"
    unfolding io_bind_returns by blast
  have wx: "steady c w x" and xu: "steady c x u" using keepsD [OF sd_sock x(1)] keepsD [OF sys(1) x(2)] by simp_all
  then have wu: "steady c w u" and cu: "curr_conn (st u) = Some c" using sd.R_trans c by (auto simp: steady_def)
  show ?thesis
  proof (cases r)
    case (Inl e)
    have s: "script x = err e # script u" using sys(2) x(2) Inl by simp
    have "sock_error l e u = (Inr res, v)" using tl Inl by simp
    from sock_error_result [OF this cu] show ?thesis
    proof (elim disjE conjE)
      assume "res = Inl l" "steady c u v"
      with wu show ?thesis using sd.R_trans by blast
    next
      assume r: "res = Inr (-1)" and "e \<noteq> EAGAIN" "e \<noteq> EWOULDBLOCK" "is_completed (conns (st v) c)"
        and "suffix (script v) (script u)"
      with s have "io_failed c err x v" by (auto simp: io_failed_def suffix_def intro!: exI [of _ "[]"])
      with r failed_after [OF wx] show ?thesis by blast
    qed
  next
    case (Inr cnt)
    with tl have g: "got cnt u = (Inr res, v)" by simp
    with keepsD [OF got g] wu sd.R_trans show ?thesis by blast
  qed
qed

section \<open>The loops\<close>

text \<open>What a call of either function comes to: its result is not negative and the connection is as open as
  before, or it is -1 and the connection was closed after an error.\<close>

definition io_outcome :: "nat \<Rightarrow> (errno \<Rightarrow> resp) \<Rightarrow> (resp, srv_state, event) world \<Rightarrow> int \<Rightarrow>
    (resp, srv_state, event) world \<Rightarrow> bool" where
  "io_outcome c err w r v \<longleftrightarrow> (0 \<le> r \<and> steady c w v) \<or> (r = -1 \<and> io_failed c err w v)"

lemma io_loop_outcome:
  assumes run: "io_loop bd l w = (Inr r, v)" and c: "curr_conn (st w) = Some c" and ok: "P l"
    and step: "\<And>l w x u. bd l w = (Inr x, u) \<Longrightarrow> curr_conn (st w) = Some c \<Longrightarrow> P l \<Longrightarrow>
      (x = Inr (-1) \<and> io_failed c err w u) \<or> (steady c w u \<and> (case x of Inl l' \<Rightarrow> P l' | Inr a \<Rightarrow> 0 \<le> a))"
  shows "io_outcome c err w r v"
proof -
  let ?I = "\<lambda>l u. steady c w u \<and> P l"
  let ?Q = "\<lambda>r v. case r of Inl s \<Rightarrow> True | Inr a \<Rightarrow> io_outcome c err w a v"
  have "triple (?I l) (io_loop bd l) ?Q"
  proof (rule triple_loop, rule tripleI)
    fix l u q x assume I: "?I l u" and q: "bd l u = (q, x)"
    from I c have cu: "curr_conn (st u) = Some c" by (auto simp: steady_def)
    show "case q of Inl s \<Rightarrow> ?Q (Inl s) x | Inr (Inl l') \<Rightarrow> ?I l' x | Inr (Inr a) \<Rightarrow> ?Q (Inr a) x"
    proof (cases q)
      case (Inr y)
      from step [OF q [unfolded Inr] cu] I sd.R_trans failed_after Inr show ?thesis
        by (cases y) (auto simp: io_outcome_def)
    qed simp
  qed simp
  from tripleD [OF this _ run] ok sd.R_refl show ?thesis by simp
qed

lemma io_outcome_after: "steady c w u \<Longrightarrow> io_outcome c err u r v \<Longrightarrow> io_outcome c err w r v"
  unfolding io_outcome_def using sd.R_trans failed_after by blast

lemma recv_outcome:
  assumes run: "recv_from_curr_conn room off timeout terminator w = (Inr r, v)" and c: "curr_conn (st w) = Some c"
  shows "io_outcome c R_read_err w r v"
proof -
  from run obtain x u where x: "curr_conn_update_active w = (Inr (), x)" and u: "curr_conn_start_op x = (Inr (), u)"
    and l: "io_loop (recv_body off timeout terminator) (room, off, False, False) u = (Inr r, v)"
    by (auto simp: recv_from_curr_conn_def io_then_returns)
  have s: "steady c w u" using keepsD [OF sd_update_active x] keepsD [OF sd_start_op u] by (rule sd.R_trans)
  have "io_outcome c R_read_err u r v"
  proof (rule io_loop_outcome [OF l, where P = "\<lambda>(to_recv, n_recv, b). off \<le> n_recv"])
    fix l :: io_local and w x u
    assume run: "recv_body off timeout terminator l w = (Inr x, u)" and c: "curr_conn (st w) = Some c"
      and P: "case l of (to_recv, n_recv, b) \<Rightarrow> off \<le> n_recv"
    obtain to_recv n_recv e b where l: "l = (to_recv, n_recv, e, b)" by (cases l)
    show "(x = Inr (-1) \<and> io_failed c R_read_err w u) \<or>
      (steady c w u \<and> (case x of Inl (to_recv, n_recv, b) \<Rightarrow> off \<le> n_recv | Inr a \<Rightarrow> 0 \<le> a))"
    proof (cases "to_recv \<noteq> 0 \<and> \<not> e \<and> \<not> b")
      case False
      with run P l have "x = Inr (n_recv - off)" "u = w" by (auto simp: recv_body_def ret_def)
      with P l sd.R_refl show ?thesis by simp
    next
      case True
      from True l have l: "l = (to_recv, n_recv, False, False)" by simp
      from True run have run: "io_bind curr_conn_sock (\<lambda>sock. io_bind (sys_read sock n_recv to_recv) (\<lambda>r. case r of
          Inl errno \<Rightarrow> sock_error l errno | Inr cnt \<Rightarrow> recv_got timeout terminator l cnt)) w = (Inr x, u)"
        unfolding l by (simp add: recv_body_def)
      have "\<forall>sock w e u. sys_read sock n_recv to_recv w = (Inr (Inl e), u) \<longrightarrow> script w = R_read_err e # script u"
        by (simp add: sys_read_error)
      from io_call_result [OF run c sd_sys_read this sd_recv_got] show ?thesis
      proof (elim disjE conjE exE)
        fix cnt y assume "steady c w u" and "recv_got timeout terminator l cnt y = (Inr x, u)"
        with P l show ?thesis
          by (auto simp: recv_got_def io_then_returns io_bind_returns ret_def split: if_splits)
      qed (use P l in auto)
    qed
  qed (use s c in \<open>auto simp: steady_def\<close>)
  with io_outcome_after [OF s] show ?thesis by blast
qed

lemma send_outcome:
  assumes run: "send_to_curr_conn buf tot timeout w = (Inr r, v)" and c: "curr_conn (st w) = Some c"
  shows "io_outcome c R_write_err w r v"
proof -
  from run obtain x u where x: "curr_conn_update_active w = (Inr (), x)" and u: "curr_conn_start_op x = (Inr (), u)"
    and l: "io_loop (send_body buf timeout) (tot, 0, False, False) u = (Inr r, v)"
    by (auto simp: send_to_curr_conn_def io_then_returns)
  have s: "steady c w u" using keepsD [OF sd_update_active x] keepsD [OF sd_start_op u] by (rule sd.R_trans)
  have "io_outcome c R_write_err u r v"
  proof (rule io_loop_outcome [OF l, where P = "\<lambda>(to_send, n_send, b). 0 \<le> n_send"])
    fix l :: io_local and w x u
    assume run: "send_body buf timeout l w = (Inr x, u)" and c: "curr_conn (st w) = Some c"
      and P: "case l of (to_send, n_send, b) \<Rightarrow> 0 \<le> n_send"
    obtain to_send n_send e b where l: "l = (to_send, n_send, e, b)" by (cases l)
    show "(x = Inr (-1) \<and> io_failed c R_write_err w u) \<or>
      (steady c w u \<and> (case x of Inl (to_send, n_send, b) \<Rightarrow> 0 \<le> n_send | Inr a \<Rightarrow> 0 \<le> a))"
    proof (cases "to_send \<noteq> 0 \<and> \<not> e \<and> \<not> b")
      case False
      with run P l have "x = Inr n_send" "u = w" by (auto simp: send_body_def ret_def)
      with P l sd.R_refl show ?thesis by simp
    next
      case True
      from True l have l: "l = (to_send, n_send, False, False)" by simp
      from True run have run: "io_bind curr_conn_sock (\<lambda>sock. io_bind (sys_write sock buf n_send to_send) (\<lambda>r. case r of
          Inl errno \<Rightarrow> sock_error l errno | Inr cnt \<Rightarrow> send_got timeout l cnt)) w = (Inr x, u)"
        unfolding l by (simp add: send_body_def)
      have "\<forall>sock w e u. sys_write sock buf n_send to_send w = (Inr (Inl e), u) \<longrightarrow> script w = R_write_err e # script u"
        by (simp add: sys_write_error)
      from io_call_result [OF run c sd_sys_write this sd_send_got] show ?thesis
      proof (elim disjE conjE exE)
        fix cnt y assume "steady c w u" and "send_got timeout l cnt y = (Inr x, u)"
        with P l show ?thesis
          by (auto simp: send_got_def io_then_returns io_bind_returns ret_def split: if_splits)
      qed (use P l in auto)
    qed
  qed (use s c in \<open>auto simp: steady_def\<close>)
  with io_outcome_after [OF s] show ?thesis by blast
qed

end
