(* ===== verification/Http_Msg.thy ===== *)
theory Http_Msg
  imports Srv_Defs
begin

text \<open>
  \<open>srv_async/http/srv_http_msg.h\<close>, \<open>srv_http_msg_internal.h\<close> and \<open>srv_http_msg.cpp\<close>: the
  string helpers, the status codes and their texts, and the generic message with its header
  fields. The iteration order of \<open>std::unordered_map\<close> is the library's: it is a parameter
  \<open>hash_order\<close> of the serialisation, of which the code relies on visiting every entry once.
\<close>

section \<open>String helpers\<close>

definition CRLF :: string where
  "CRLF = [CR, LF]"

definition to_lower :: "string \<Rightarrow> string" where
  "to_lower s = List.map tolower s"

text \<open>The two loops of \<open>contains_ci\<close>: the inner one advances \<open>j\<close> while the characters agree.\<close>

function ci_match :: "string \<Rightarrow> string \<Rightarrow> nat \<Rightarrow> nat \<Rightarrow> nat" where
  "ci_match haystack needle i j =
     (if j < length needle \<and> tolower (haystack ! (i + j)) = tolower (needle ! j)
      then ci_match haystack needle i (j + 1) else j)"
  by pat_completeness auto
termination
  by (relation "measure (\<lambda>(h, n, i, j). length n - j)") auto

function ci_search :: "string \<Rightarrow> string \<Rightarrow> nat \<Rightarrow> bool" where
  "ci_search haystack needle i =
     (if i \<le> length haystack - length needle
      then (if ci_match haystack needle i 0 = length needle then True
            else ci_search haystack needle (i + 1))
      else False)"
  by pat_completeness auto
termination
  by (relation "measure (\<lambda>(h, n, i). Suc (length h) - i)") auto

declare ci_match.simps [simp del] ci_search.simps [simp del]

definition contains_ci :: "string \<Rightarrow> string \<Rightarrow> bool" where
  "contains_ci haystack needle =
     (if needle = [] \<or> length haystack < length needle then False
      else ci_search haystack needle 0)"

fun trim_front :: "string \<Rightarrow> string" where
  "trim_front [] = []"
| "trim_front (c # s) = (if c = CHR '' '' then trim_front s else c # s)"

function trim_back :: "string \<Rightarrow> string" where
  "trim_back s = (if s \<noteq> [] \<and> last s = CHR '' '' then trim_back (butlast s) else s)"
  by pat_completeness auto
termination
  by (relation "measure length") auto

declare trim_back.simps [simp del]

definition trim_spaces :: "string \<Rightarrow> string" where
  "trim_spaces s = trim_back (trim_front s)"

section \<open>Status codes\<close>

datatype http_status =
    HTTP_STATUS_NONE
  | HTTP_STATUS_OK
  | HTTP_STATUS_BAD_REQUEST
  | HTTP_STATUS_NOT_FOUND
  | HTTP_STATUS_METHOD_NOT_ALLOWED
  | HTTP_STATUS_REQUEST_TIMEOUT
  | HTTP_STATUS_LENGTH_REQUIRED
  | HTTP_STATUS_PAYLOAD_TOO_LARGE
  | HTTP_STATUS_INTERNAL_SERVER_ERROR
  | HTTP_STATUS_NOT_IMPLEMENTED
  | HTTP_STATUS_HEADER_FIELDS_TOO_LARGE

fun status_value :: "http_status \<Rightarrow> nat" where
  "status_value HTTP_STATUS_NONE = 0"
| "status_value HTTP_STATUS_OK = 200"
| "status_value HTTP_STATUS_BAD_REQUEST = 400"
| "status_value HTTP_STATUS_NOT_FOUND = 404"
| "status_value HTTP_STATUS_METHOD_NOT_ALLOWED = 405"
| "status_value HTTP_STATUS_REQUEST_TIMEOUT = 408"
| "status_value HTTP_STATUS_LENGTH_REQUIRED = 411"
| "status_value HTTP_STATUS_PAYLOAD_TOO_LARGE = 413"
| "status_value HTTP_STATUS_INTERNAL_SERVER_ERROR = 500"
| "status_value HTTP_STATUS_NOT_IMPLEMENTED = 501"
| "status_value HTTP_STATUS_HEADER_FIELDS_TOO_LARGE = 431"

text \<open>
  The initialiser of \<open>http_status_text\<close>: its assignments, in order. \<open>operator[]\<close> does not
  check its index, so an assignment past the end goes to memory that is not the vector's; the
  second component collects the indices of these. What they do to that memory is not modelled.
\<close>

definition vec_assign :: "string list \<times> nat list \<Rightarrow> http_status \<times> string \<Rightarrow> string list \<times> nat list" where
  "vec_assign v a =
     (case (v, a) of ((text, outside), (code, s)) \<Rightarrow>
       if status_value code < length text then (text[status_value code := s], outside)
       else (text, outside @ [status_value code]))"

definition http_status_text_init :: "string list \<times> nat list" where
  "http_status_text_init =
     foldl vec_assign (replicate (status_value HTTP_STATUS_HEADER_FIELDS_TOO_LARGE + 1) [], [])
       [(HTTP_STATUS_OK, ''OK''),
        (HTTP_STATUS_BAD_REQUEST, ''Bad Request''),
        (HTTP_STATUS_NOT_FOUND, ''Not Found''),
        (HTTP_STATUS_METHOD_NOT_ALLOWED, ''Method Not Allowed''),
        (HTTP_STATUS_REQUEST_TIMEOUT, ''Request Timeout''),
        (HTTP_STATUS_LENGTH_REQUIRED, ''Length Required''),
        (HTTP_STATUS_PAYLOAD_TOO_LARGE, ''Payload Too Large''),
        (HTTP_STATUS_INTERNAL_SERVER_ERROR, ''Internal Server Error''),
        (HTTP_STATUS_NOT_IMPLEMENTED, ''Not Implemented''),
        (HTTP_STATUS_HEADER_FIELDS_TOO_LARGE, ''Request Header Fields Too Large'')]"

definition http_status_text :: "string list" where
  "http_status_text = fst http_status_text_init"

text \<open>\<open>http_status_text[static_cast<size_t>(code)]\<close>.\<close>

definition status_text_of :: "http_status \<Rightarrow> fault + string" where
  "status_text_of code =
     (if status_value code < length http_status_text then Inr (http_status_text ! status_value code)
      else Inl (Vector_index (status_value code)))"

section \<open>Header fields and messages\<close>

datatype header_value = Str string | SizeT nat

fun AsString :: "header_value \<Rightarrow> fault + string" where
  "AsString (Str s) = Inr s"
| "AsString (SizeT n) = Inl Bad_variant"

fun AsSizeT :: "header_value \<Rightarrow> fault + nat" where
  "AsSizeT (SizeT n) = Inr n"
| "AsSizeT (Str s) = Inl Bad_variant"

type_synonym header_map = "(string \<times> header_value) list"

record http_msg =
  headers :: header_map
  body :: bytes

definition AddHeader :: "string \<Rightarrow> header_value \<Rightarrow> 'a http_msg_scheme \<Rightarrow> 'a http_msg_scheme" where
  "AddHeader name v m = m\<lparr>headers := AList.update (to_lower name) v (headers m)\<rparr>"

definition HasHeader :: "string \<Rightarrow> 'a http_msg_scheme \<Rightarrow> bool" where
  "HasHeader name m = (map_of (headers m) (to_lower name) \<noteq> None)"

text \<open>\<open>header_value_t()\<close>, for a header that is not there, is the empty string.\<close>

definition GetHeaderValue :: "string \<Rightarrow> 'a http_msg_scheme \<Rightarrow> header_value" where
  "GetHeaderValue name m =
     (case map_of (headers m) (to_lower name) of None \<Rightarrow> Str [] | Some v \<Rightarrow> v)"

definition SetBody :: "bytes \<Rightarrow> 'a http_msg_scheme \<Rightarrow> 'a http_msg_scheme" where
  "SetBody b m = m\<lparr>body := b\<rparr>"

definition AppendBody :: "bytes \<Rightarrow> 'a http_msg_scheme \<Rightarrow> 'a http_msg_scheme" where
  "AppendBody chunk m = m\<lparr>body := body m @ chunk\<rparr>"

definition GetBodySize :: "'a http_msg_scheme \<Rightarrow> nat" where
  "GetBodySize m = length (body m)"

fun show_value :: "header_value \<Rightarrow> string" where
  "show_value (Str s) = s"
| "show_value (SizeT n) = show_nat n"

definition header_line :: "string \<times> header_value \<Rightarrow> string" where
  "header_line h = (case h of (name, v) \<Rightarrow> name @ '': '' @ show_value v @ CRLF)"

definition SerializeHeadersAndBody ::
  "(header_map \<Rightarrow> header_map) \<Rightarrow> 'a http_msg_scheme \<Rightarrow> bytes" where
  "SerializeHeadersAndBody hash_order m =
     concat (List.map header_line (hash_order (headers m))) @ CRLF @ body m"

section \<open>The helpers' meaning\<close>

lemma to_lower_simps [simp]:
  "to_lower [] = []" "length (to_lower s) = length s"
  "to_lower (to_lower s) = to_lower s"
  by (simp_all add: to_lower_def o_def)

lemma ci_match_le: "j \<le> length needle \<Longrightarrow> ci_match haystack needle i j \<le> length needle"
  by (induction haystack needle i j rule: ci_match.induct) (subst ci_match.simps, auto)

lemma ci_match_full:
  "j \<le> length needle \<Longrightarrow> ci_match haystack needle i j = length needle \<longleftrightarrow>
     (\<forall>k. j \<le> k \<and> k < length needle \<longrightarrow> tolower (haystack ! (i + k)) = tolower (needle ! k))"
proof (induction haystack needle i j rule: ci_match.induct)
  case (1 haystack needle i j)
  show ?case
  proof (cases "j < length needle \<and> tolower (haystack ! (i + j)) = tolower (needle ! j)")
    case True
    then have "ci_match haystack needle i j = ci_match haystack needle i (j + 1)"
      by (subst ci_match.simps) simp
    moreover have "ci_match haystack needle i (j + 1) = length needle \<longleftrightarrow>
        (\<forall>k. j + 1 \<le> k \<and> k < length needle \<longrightarrow> tolower (haystack ! (i + k)) = tolower (needle ! k))"
      using 1 True by simp
    moreover have "(\<forall>k. j \<le> k \<and> k < length needle \<longrightarrow> tolower (haystack ! (i + k)) = tolower (needle ! k)) \<longleftrightarrow>
        (\<forall>k. j + 1 \<le> k \<and> k < length needle \<longrightarrow> tolower (haystack ! (i + k)) = tolower (needle ! k))"
      using True by (metis Suc_eq_plus1 Suc_leD not_less_eq_eq le_antisym)
    ultimately show ?thesis by simp
  next
    case False
    then have "ci_match haystack needle i j = j" by (subst ci_match.simps) auto
    with False 1(2) show ?thesis by auto
  qed
qed

lemma ci_match_occurs:
  assumes "i + length needle \<le> length haystack"
  shows "ci_match haystack needle i 0 = length needle \<longleftrightarrow>
    occurs_at (to_lower needle) (to_lower haystack) i"
proof -
  have "take (length needle) (drop i (to_lower haystack)) = to_lower needle \<longleftrightarrow>
      (\<forall>k<length needle. tolower (haystack ! (i + k)) = tolower (needle ! k))"
    using assms by (auto simp: list_eq_iff_nth_eq to_lower_def)
  then show ?thesis by (simp add: ci_match_full occurs_at_def)
qed

lemma ci_search_occurs:
  assumes "length needle \<le> length haystack"
  shows "ci_search haystack needle i \<longleftrightarrow>
    (\<exists>j. i \<le> j \<and> j + length needle \<le> length haystack \<and>
       occurs_at (to_lower needle) (to_lower haystack) j)"
  using assms
proof (induction haystack needle i rule: ci_search.induct)
  case (1 haystack needle i)
  show ?case
  proof (cases "i \<le> length haystack - length needle")
    case True
    show ?thesis
    proof (cases "ci_match haystack needle i 0 = length needle")
      case m: True
      then have "occurs_at (to_lower needle) (to_lower haystack) i"
        using True 1(2) by (subst (asm) ci_match_occurs) auto
      with True m 1(2) show ?thesis by (subst ci_search.simps) auto
    next
      case m: False
      then have "\<not> occurs_at (to_lower needle) (to_lower haystack) i"
        using True 1(2) by (subst (asm) ci_match_occurs) auto
      moreover have "ci_search haystack needle i = ci_search haystack needle (i + 1)"
        using True m by (subst ci_search.simps) simp
      ultimately show ?thesis
        using "1.IH" [OF True m "1.prems"]
        by (metis Suc_eq_plus1 Suc_leD not_less_eq_eq le_antisym)
    qed
  next
    case False
    with 1(2) show ?thesis by (subst ci_search.simps) auto
  qed
qed

lemma occurs_lowered_bound:
  "needle \<noteq> [] \<Longrightarrow> occurs_at (to_lower needle) (to_lower haystack) i \<Longrightarrow>
    i + length needle \<le> length haystack"
  using occurs_at_bound [of "to_lower needle" "to_lower haystack" i]
  by (metis length_0_conv to_lower_simps(2))

lemma contains_ci_iff:
  "contains_ci haystack needle \<longleftrightarrow>
     needle \<noteq> [] \<and> (\<exists>i. occurs_at (to_lower needle) (to_lower haystack) i)"
proof (cases "needle = [] \<or> length haystack < length needle")
  case True
  then have "\<not> (needle \<noteq> [] \<and> (\<exists>i. occurs_at (to_lower needle) (to_lower haystack) i))"
    using occurs_lowered_bound [of needle haystack] by fastforce
  with True show ?thesis by (auto simp: contains_ci_def)
next
  case False
  then have "contains_ci haystack needle = ci_search haystack needle 0"
    by (simp add: contains_ci_def)
  also have "\<dots> \<longleftrightarrow> (\<exists>j. j + length needle \<le> length haystack \<and>
      occurs_at (to_lower needle) (to_lower haystack) j)"
    using False ci_search_occurs [of needle haystack 0] by simp
  finally show ?thesis using False occurs_lowered_bound [of needle haystack] by blast
qed

lemma trim_front_dropWhile: "trim_front s = dropWhile (\<lambda>c. c = CHR '' '') s"
  by (induction s) auto

lemma trim_back_dropWhile: "trim_back s = rev (dropWhile (\<lambda>c. c = CHR '' '') (rev s))"
proof (induction s rule: rev_induct)
  case (snoc c s)
  then show ?case by (subst trim_back.simps) simp
qed (simp add: trim_back.simps)

lemma trim_spaces_shape:
  "trim_spaces s = rev (dropWhile (\<lambda>c. c = CHR '' '') (rev (dropWhile (\<lambda>c. c = CHR '' '') s)))"
  by (simp add: trim_spaces_def trim_front_dropWhile trim_back_dropWhile)

definition trimmed :: "string \<Rightarrow> bool" where
  "trimmed s \<longleftrightarrow> s = [] \<or> (List.hd s \<noteq> CHR '' '' \<and> List.last s \<noteq> CHR '' '')"

lemma trim_front_fix: "s = [] \<or> List.hd s \<noteq> CHR '' '' \<Longrightarrow> trim_front s = s"
  by (cases s) auto

lemma trim_back_fix: "s = [] \<or> List.last s \<noteq> CHR '' '' \<Longrightarrow> trim_back s = s"
  by (subst trim_back.simps) auto

lemma trim_trimmed: "trimmed s \<Longrightarrow> trim_spaces s = s"
  by (auto simp: trim_spaces_def trimmed_def trim_front_fix trim_back_fix)

lemma trim_front_hd: "trim_front s = [] \<or> List.hd (trim_front s) \<noteq> CHR '' ''"
  by (induction s) auto

lemma trim_back_hd: "s = [] \<or> List.hd s \<noteq> CHR '' '' \<Longrightarrow> trim_back s = [] \<or> List.hd (trim_back s) = List.hd s"
proof (induction s rule: rev_induct)
  case (snoc c s)
  show ?case
  proof (cases "c = CHR '' ''")
    case True
    then have "s \<noteq> []" using snoc.prems by auto
    moreover have "trim_back (s @ [c]) = trim_back s" using True by (subst trim_back.simps) simp
    ultimately show ?thesis using snoc by simp
  next
    case False
    then have "trim_back (s @ [c]) = s @ [c]" by (intro trim_back_fix) simp
    then show ?thesis by simp
  qed
qed (simp add: trim_back.simps)

lemma trim_back_last: "trim_back s = [] \<or> List.last (trim_back s) \<noteq> CHR '' ''"
proof (induction s rule: rev_induct)
  case (snoc c s)
  then show ?case by (subst (1 2) trim_back.simps) auto
qed (simp add: trim_back.simps)

lemma trimmed_trim_spaces: "trimmed (trim_spaces s)"
  using trim_front_hd [of s] trim_back_hd [of "trim_front s"] trim_back_last [of "trim_front s"]
  unfolding trimmed_def trim_spaces_def
  by (cases "trim_front s = []") (auto simp: trim_back.simps [of "[]"])

lemma trim_spaces_space [simp]: "trim_spaces (CHR '' '' # s) = trim_spaces s"
  by (simp add: trim_spaces_def)

lemma trim_spaces_sublist: "sublist (trim_spaces s) s"
proof -
  let ?P = "\<lambda>c. c = CHR '' ''"
  have "s = takeWhile ?P s @ dropWhile ?P s" by simp
  moreover have "dropWhile ?P s = trim_spaces s @ rev (takeWhile ?P (rev (dropWhile ?P s)))"
    unfolding trim_spaces_shape by (metis rev_append rev_rev_ident takeWhile_dropWhile_id)
  ultimately show ?thesis by (metis sublist_appendI)
qed

section \<open>Status texts\<close>

lemma length_foldl_assign: "length (fst (foldl vec_assign v as)) = length (fst v)"
  by (induction "as" arbitrary: v) (auto simp: vec_assign_def split: prod.splits)

lemma http_status_text_length: "length http_status_text = 432"
  unfolding http_status_text_def http_status_text_init_def length_foldl_assign by simp

lemma http_status_text_init_unfold:
  "http_status_text_init =
    ((replicate 432 [])[200 := ''OK'', 400 := ''Bad Request'', 404 := ''Not Found'',
       405 := ''Method Not Allowed'', 408 := ''Request Timeout'', 411 := ''Length Required'',
       413 := ''Payload Too Large'', 431 := ''Request Header Fields Too Large''], [500, 501])"
  unfolding http_status_text_init_def
  by (simp only: foldl.simps vec_assign_def prod.case status_value.simps length_list_update
      length_replicate) simp

lemma status_text_simps [simp]:
  "status_text_of HTTP_STATUS_NONE = Inr ''''"
  "status_text_of HTTP_STATUS_OK = Inr ''OK''"
  "status_text_of HTTP_STATUS_BAD_REQUEST = Inr ''Bad Request''"
  "status_text_of HTTP_STATUS_NOT_FOUND = Inr ''Not Found''"
  "status_text_of HTTP_STATUS_METHOD_NOT_ALLOWED = Inr ''Method Not Allowed''"
  "status_text_of HTTP_STATUS_REQUEST_TIMEOUT = Inr ''Request Timeout''"
  "status_text_of HTTP_STATUS_LENGTH_REQUIRED = Inr ''Length Required''"
  "status_text_of HTTP_STATUS_PAYLOAD_TOO_LARGE = Inr ''Payload Too Large''"
  "status_text_of HTTP_STATUS_HEADER_FIELDS_TOO_LARGE = Inr ''Request Header Fields Too Large''"
  "status_text_of HTTP_STATUS_INTERNAL_SERVER_ERROR = Inl (Vector_index 500)"
  "status_text_of HTTP_STATUS_NOT_IMPLEMENTED = Inl (Vector_index 501)"
  by (simp_all add: status_text_of_def http_status_text_length)
    (simp_all add: http_status_text_def http_status_text_init_unfold nth_list_update)

section \<open>The header store\<close>

text \<open>
  What the clients of the header map rely on: names are compared without case, the last value
  added under a name is the one found, adding one header leaves the others alone.
\<close>

locale header_store =
  fixes add :: "string \<Rightarrow> 'v \<Rightarrow> 'm \<Rightarrow> 'm" and get :: "string \<Rightarrow> 'm \<Rightarrow> 'v option"
  assumes get_same: "to_lower n = to_lower n' \<Longrightarrow> get n (add n' v m) = Some v"
    and get_other: "to_lower n \<noteq> to_lower n' \<Longrightarrow> get n (add n' v m) = get n m"
begin

definition add_all :: "(string \<times> 'v) list \<Rightarrow> 'm \<Rightarrow> 'm" where
  "add_all hs m = foldl (\<lambda>m (n, v). add n v m) m hs"

lemma get_add: "get n (add n' v m) = (if to_lower n = to_lower n' then Some v else get n m)"
  by (simp add: get_same get_other)

lemma get_overwritten: "to_lower n = to_lower n' \<Longrightarrow> get k (add n v (add n' v' m)) = get k (add n v m)"
  by (simp add: get_add)

lemma get_commute:
  "to_lower n \<noteq> to_lower n' \<Longrightarrow> get k (add n v (add n' v' m)) = get k (add n' v' (add n v m))"
  by (auto simp: get_add)

lemma get_add_all:
  "get n (add_all hs m) =
     (case map_of (rev (List.map (\<lambda>(k, v). (to_lower k, v)) hs)) (to_lower n) of
        None \<Rightarrow> get n m | Some v \<Rightarrow> Some v)"
  by (induction hs arbitrary: m rule: rev_induct)
    (auto simp: add_all_def get_add split: option.splits)

end

definition find_header :: "string \<Rightarrow> 'a http_msg_scheme \<Rightarrow> header_value option" where
  "find_header name m = map_of (headers m) (to_lower name)"

interpretation hdr: header_store AddHeader find_header
  by unfold_locales (auto simp: AddHeader_def find_header_def update_conv')

lemma HasHeader_find: "HasHeader n m \<longleftrightarrow> find_header n m \<noteq> None"
  by (simp add: HasHeader_def find_header_def)

lemma GetHeaderValue_find:
  "GetHeaderValue n m = (case find_header n m of None \<Rightarrow> Str [] | Some v \<Rightarrow> v)"
  by (simp add: GetHeaderValue_def find_header_def)

lemma body_AddHeader [simp]: "body (AddHeader n v m) = body m"
  by (simp add: AddHeader_def)

lemma headers_bodies [simp]:
  "headers (SetBody b m) = headers m" "headers (AppendBody b m) = headers m"
  "body (SetBody b m) = b" "body (AppendBody b m) = body m @ b"
  by (simp_all add: SetBody_def AppendBody_def)

lemma find_header_bodies [simp]:
  "find_header n (SetBody b m) = find_header n m" "find_header n (AppendBody b m) = find_header n m"
  by (simp_all add: find_header_def)

lemma distinct_AddHeader:
  "distinct (List.map fst (headers m)) \<Longrightarrow> distinct (List.map fst (headers (AddHeader n v m)))"
  by (simp add: AddHeader_def distinct_update)

lemma set_AddHeader:
  "h \<in> set (headers (AddHeader n v m)) \<Longrightarrow> h \<in> set (headers m) \<or> h = (to_lower n, v)"
proof -
  have "h \<in> set (AList.update k v al) \<Longrightarrow> h \<in> set al \<or> h = (k, v)" for k and al :: header_map
    by (induction al) (auto split: if_splits)
  then show "h \<in> set (headers (AddHeader n v m)) \<Longrightarrow> ?thesis" by (simp add: AddHeader_def)
qed

end
