(* ===== verification/Http_Request.thy ===== *)
theory Http_Request
  imports Http_Msg
begin

text \<open>
  \<open>srv_async/http/srv_http_request_msg.cpp\<close> and the request classes of \<open>srv_http_msg.h\<close>: the
  table of methods, the factory, the parser of the request line and the header fields, the
  keep-alive decision and the serialisation. The class of an object is its \<open>req_class\<close> field.
\<close>

section \<open>Requests\<close>

datatype request_class = Base_msg | Get_msg | Head_msg | Post_msg | Put_msg | Delete_msg | Patch_msg

record http_request = http_msg +
  req_class :: request_class
  req_method :: string
  req_target :: string
  req_version :: string
  error_code :: http_status

definition new_request :: "request_class \<Rightarrow> http_request" where
  "new_request cls = \<lparr>headers = [], body = [], req_class = cls, req_method = [], req_target = [],
     req_version = [], error_code = HTTP_STATUS_NONE\<rparr>"

text \<open>The two constructors of the base class that take an error code.\<close>

definition error_request :: "http_status \<Rightarrow> http_request" where
  "error_request error = (new_request Base_msg)\<lparr>error_code := error\<rparr>"

definition error_request_method :: "http_status \<Rightarrow> string \<Rightarrow> http_request" where
  "error_request_method error meth =
     (new_request Base_msg)\<lparr>req_method := meth, error_code := error\<rparr>"

definition SetErrorCode :: "http_status \<Rightarrow> http_request \<Rightarrow> http_request" where
  "SetErrorCode code r = r\<lparr>error_code := code\<rparr>"

definition IsError :: "http_request \<Rightarrow> bool" where
  "IsError r = (error_code r \<noteq> HTTP_STATUS_NONE)"

definition IsOk :: "http_request \<Rightarrow> bool" where
  "IsOk r = (\<not> IsError r)"

section \<open>Methods\<close>

definition methods_info :: "(string \<times> request_class \<times> bool) list" where
  "methods_info =
     [(''GET'', Get_msg, False), (''HEAD'', Head_msg, False), (''POST'', Post_msg, True),
      (''PUT'', Put_msg, True), (''DELETE'', Delete_msg, False), (''PATCH'', Patch_msg, True)]"

definition Create :: "string \<Rightarrow> http_request" where
  "Create meth =
     (case map_of methods_info meth of
        None \<Rightarrow> error_request_method HTTP_STATUS_METHOD_NOT_ALLOWED meth
      | Some (creator, has_body) \<Rightarrow> new_request creator)"

definition MethodHasBody :: "string \<Rightarrow> bool" where
  "MethodHasBody meth =
     (case map_of methods_info meth of None \<Rightarrow> False | Some (creator, has_body) \<Rightarrow> has_body)"

section \<open>Parsing\<close>

definition starts_with :: "string \<Rightarrow> string \<Rightarrow> bool" where
  "starts_with s p = (take (length p) s = p)"

text \<open>
  The parts of \<open>ParseRequestHeader\<close> return \<open>Inl\<close> where the function returns through \<open>fail\<close>,
  with the request it leaves behind, and \<open>Inr\<close> where it goes on.
\<close>

definition parse_content_length :: "string \<Rightarrow> string \<Rightarrow> http_request \<Rightarrow> http_request + http_request" where
  "parse_content_length name val r =
     (if \<not> MethodHasBody (req_method r) then Inl (SetErrorCode HTTP_STATUS_BAD_REQUEST r)
      else case from_chars val of
        Inl ec \<Rightarrow> Inl (SetErrorCode HTTP_STATUS_BAD_REQUEST r)
      | Inr (len, rest) \<Rightarrow>
          if rest \<noteq> [] then Inl (SetErrorCode HTTP_STATUS_BAD_REQUEST r)
          else if len > MAX_HTTP_BODY_SIZE then Inl (SetErrorCode HTTP_STATUS_PAYLOAD_TOO_LARGE r)
          else Inr (AddHeader name (SizeT len) r))"

definition parse_field :: "string \<Rightarrow> http_request \<Rightarrow> http_request + http_request" where
  "parse_field line r =
     (if line = [] then Inr r
      else case find_char (CHR '':'') line of
        None \<Rightarrow> Inl (SetErrorCode HTTP_STATUS_BAD_REQUEST r)
      | Some colon \<Rightarrow>
          let name = take colon line;
              val = trim_spaces (drop (colon + 1) line) in
          if to_lower name = ''content-length'' then parse_content_length name val r
          else Inr (AddHeader name (Str val) r))"

function parse_fields :: "string \<Rightarrow> http_request \<Rightarrow> http_request + http_request" where
  "parse_fields p r =
     (if p = [] then Inr r
      else case find_sub CRLF p of
        None \<Rightarrow> Inl (SetErrorCode HTTP_STATUS_BAD_REQUEST r)
      | Some line_end \<Rightarrow>
          (case parse_field (take line_end p) r of
             Inl r' \<Rightarrow> Inl r'
           | Inr r' \<Rightarrow> parse_fields (drop (min (line_end + length CRLF) (length p)) p) r'))"
  by pat_completeness auto
termination
  by (relation "measure (\<lambda>(p, r). length p)") (auto simp: CRLF_def)

declare parse_fields.simps [simp del]

definition parse_request_line :: "string \<Rightarrow> http_request \<Rightarrow> http_request + http_request" where
  "parse_request_line line r =
     (case (find_char (CHR '' '') line, rfind_char (CHR '' '') line) of
        (Some sp1, Some sp2) \<Rightarrow>
          if sp1 = sp2 then Inl (SetErrorCode HTTP_STATUS_BAD_REQUEST r)
          else
            let method_v = take sp1 line;
                target_v = take (sp2 - sp1 - 1) (drop (sp1 + 1) line);
                version_v = drop (sp2 + 1) line in
            if method_v = [] \<or> target_v = [] \<or> \<not> starts_with version_v ''HTTP/''
            then Inl (SetErrorCode HTTP_STATUS_BAD_REQUEST r)
            else Inr (r\<lparr>req_method := method_v, req_target := target_v, req_version := version_v\<rparr>)
      | _ \<Rightarrow> Inl (SetErrorCode HTTP_STATUS_BAD_REQUEST r))"

definition ParseRequestHeader :: "string \<Rightarrow> http_request \<Rightarrow> http_request" where
  "ParseRequestHeader buf r =
     (case find_sub CRLF buf of
        None \<Rightarrow> SetErrorCode HTTP_STATUS_BAD_REQUEST r
      | Some line_end \<Rightarrow>
          (case parse_request_line (take line_end buf) r of
             Inl r1 \<Rightarrow> r1
           | Inr r1 \<Rightarrow>
               (case parse_fields (drop (line_end + length CRLF) buf) r1 of
                  Inl r2 \<Rightarrow> r2
                | Inr r2 \<Rightarrow>
                    if MethodHasBody (req_method r2) \<and> \<not> HasHeader ''content-length'' r2
                    then SetErrorCode HTTP_STATUS_LENGTH_REQUIRED r2
                    else r2)))"

section \<open>Keep-alive and serialisation\<close>

definition WantKeepAlive :: "http_request \<Rightarrow> fault + bool" where
  "WantKeepAlive r =
     (if IsError r then Inr False
      else if HasHeader ''Connection'' r
      then (case AsString (GetHeaderValue ''Connection'' r) of
              Inl f \<Rightarrow> Inl f
            | Inr conn_val \<Rightarrow>
                if contains_ci conn_val ''close'' then Inr False
                else if contains_ci conn_val ''keep-alive'' then Inr True
                else Inr (req_version r \<noteq> ''HTTP/1.0''))
      else Inr (req_version r \<noteq> ''HTTP/1.0''))"

definition Serialize_request :: "(header_map \<Rightarrow> header_map) \<Rightarrow> http_request \<Rightarrow> bytes" where
  "Serialize_request hash_order r =
     req_method r @ '' '' @ req_target r @ '' '' @ req_version r @ CRLF @
     SerializeHeadersAndBody hash_order r"

section \<open>What every parsed request satisfies\<close>

text \<open>
  \<open>fields_ok\<close>: names are stored in lower case and once each; only the length is a number, it is
  within the limit, and it is there only for a method that has a body.
\<close>

definition field_ok :: "string \<Rightarrow> string \<times> header_value \<Rightarrow> bool" where
  "field_ok meth h =
     (case h of (name, v) \<Rightarrow>
       to_lower name = name \<and>
       (case v of
          Str s \<Rightarrow> name \<noteq> ''content-length''
        | SizeT n \<Rightarrow> name = ''content-length'' \<and> n \<le> MAX_HTTP_BODY_SIZE \<and> MethodHasBody meth))"

definition fields_ok :: "http_request \<Rightarrow> bool" where
  "fields_ok r \<longleftrightarrow> distinct (List.map fst (headers r)) \<and> (\<forall>h \<in> set (headers r). field_ok (req_method r) h)"

definition request_ok :: "http_request \<Rightarrow> bool" where
  "request_ok r \<longleftrightarrow> fields_ok r \<and>
     req_method r \<noteq> [] \<and> req_target r \<noteq> [] \<and> starts_with (req_version r) ''HTTP/'' \<and>
     CHR '' '' \<notin> set (req_method r) \<and> CHR '' '' \<notin> set (req_version r) \<and>
     (MethodHasBody (req_method r) \<longrightarrow> HasHeader ''content-length'' r)"

lemma to_lower_content_length [simp]: "to_lower ''content-length'' = ''content-length''"
  by code_simp

lemma to_lower_Content_Length [simp]: "to_lower ''Content-Length'' = ''content-length''"
  by code_simp

lemma to_lower_Connection [simp]: "to_lower ''Connection'' = ''connection''"
  by code_simp

lemma SetErrorCode_simps [simp]:
  "headers (SetErrorCode e r) = headers r" "body (SetErrorCode e r) = body r"
  "req_class (SetErrorCode e r) = req_class r" "req_method (SetErrorCode e r) = req_method r"
  "req_target (SetErrorCode e r) = req_target r" "req_version (SetErrorCode e r) = req_version r"
  "error_code (SetErrorCode e r) = e"
  by (simp_all add: SetErrorCode_def)

lemma AddHeader_request [simp]:
  "req_class (AddHeader n v r) = req_class r" "req_method (AddHeader n v r) = req_method r"
  "req_target (AddHeader n v r) = req_target r" "req_version (AddHeader n v r) = req_version r"
  "error_code (AddHeader n v r) = error_code r"
  by (simp_all add: AddHeader_def)

lemma fields_ok_AddHeader:
  "fields_ok r \<Longrightarrow> field_ok (req_method r) (to_lower n, v) \<Longrightarrow> fields_ok (AddHeader n v r)"
  by (auto simp: fields_ok_def distinct_AddHeader dest: set_AddHeader)

text \<open>What one line can do: nothing, fail, or add one header.\<close>

lemma parse_content_length_cases:
  assumes "to_lower name = ''content-length''"
  shows "(\<exists>e. parse_content_length name val r = Inl (SetErrorCode e r) \<and> e \<noteq> HTTP_STATUS_NONE) \<or>
    (\<exists>n. parse_content_length name val r = Inr (AddHeader name (SizeT n) r) \<and>
       field_ok (req_method r) (to_lower name, SizeT n))"
  using assms
  by (auto simp: parse_content_length_def field_ok_def split: sum.split prod.split)

lemma parse_field_cases:
  "(\<exists>e. parse_field line r = Inl (SetErrorCode e r) \<and> e \<noteq> HTTP_STATUS_NONE) \<or>
   parse_field line r = Inr r \<or>
   (\<exists>n v. parse_field line r = Inr (AddHeader n v r) \<and> field_ok (req_method r) (to_lower n, v))"
proof (cases "line = [] \<or> find_char (CHR '':'') line = None")
  case False
  then obtain colon where c: "find_char (CHR '':'') line = Some colon" "line \<noteq> []" by auto
  let ?n = "take colon line" and ?v = "trim_spaces (drop (colon + 1) line)"
  show ?thesis
  proof (cases "to_lower ?n = ''content-length''")
    case True
    with c have "parse_field line r = parse_content_length ?n ?v r"
      by (simp add: parse_field_def Let_def)
    with parse_content_length_cases [OF True, of ?v r] show ?thesis by metis
  next
    case False
    with c have "parse_field line r = Inr (AddHeader ?n (Str ?v) r)"
      by (simp add: parse_field_def Let_def)
    moreover have "field_ok (req_method r) (to_lower ?n, Str ?v)"
      using False by (simp add: field_ok_def)
    ultimately show ?thesis by blast
  qed
qed (auto simp: parse_field_def)

definition same_line :: "http_request \<Rightarrow> http_request \<Rightarrow> bool" where
  "same_line r r' \<longleftrightarrow> req_class r' = req_class r \<and> req_method r' = req_method r \<and>
     req_target r' = req_target r \<and> req_version r' = req_version r \<and> body r' = body r"

lemma parse_field_keeps:
  assumes "fields_ok r"
  shows "parse_field line r = Inr r' \<Longrightarrow> fields_ok r' \<and> same_line r r' \<and> error_code r' = error_code r"
    and "parse_field line r = Inl r' \<Longrightarrow> fields_ok r' \<and> same_line r r' \<and> IsError r'"
  using parse_field_cases [of line r] assms
  by (auto simp: same_line_def IsError_def fields_ok_AddHeader) (simp_all add: fields_ok_def)

lemma parse_fields_keeps:
  assumes "fields_ok r"
  shows "(parse_fields p r = Inr r' \<longrightarrow> fields_ok r' \<and> same_line r r' \<and> error_code r' = error_code r) \<and>
    (parse_fields p r = Inl r' \<longrightarrow> fields_ok r' \<and> same_line r r' \<and> IsError r')"
  using assms
proof (induction p r rule: parse_fields.induct)
  case (1 p r)
  show ?case
  proof (cases "p = [] \<or> find_sub CRLF p = None")
    case True
    with 1(2) show ?thesis
      by (subst (1 2) parse_fields.simps)
        (auto simp: same_line_def IsError_def fields_ok_def)
  next
    case False
    then obtain i where i: "find_sub CRLF p = Some i" "p \<noteq> []" by auto
    show ?thesis
    proof (cases "parse_field (take i p) r")
      case (Inl a)
      with i parse_field_keeps(2) [OF 1(2) Inl] show ?thesis
        by (subst (1 2) parse_fields.simps) auto
    next
      case (Inr a)
      let ?q = "drop (min (i + length CRLF) (length p)) p"
      have "parse_fields p r = parse_fields ?q a"
        using i Inr by (subst parse_fields.simps) simp
      with 1(1) [OF i(2) i(1) Inr] parse_field_keeps(1) [OF 1(2) Inr] show ?thesis
        by (auto simp: same_line_def)
    qed
  qed
qed

lemma parse_request_line_cases:
  "(\<exists>e. parse_request_line line r = Inl (SetErrorCode e r) \<and> e \<noteq> HTTP_STATUS_NONE) \<or>
   (\<exists>m u v. line = m @ '' '' @ u @ '' '' @ v \<and> m \<noteq> [] \<and> u \<noteq> [] \<and> starts_with v ''HTTP/'' \<and>
      CHR '' '' \<notin> set m \<and> CHR '' '' \<notin> set v \<and>
      parse_request_line line r = Inr (r\<lparr>req_method := m, req_target := u, req_version := v\<rparr>))"
proof (cases "find_char (CHR '' '') line")
  case (Some i)
  show ?thesis
  proof (cases "rfind_char (CHR '' '') line")
    case j: (Some j)
    let ?m = "take i line" and ?u = "take (j - i - 1) (drop (i + 1) line)" and ?v = "drop (j + 1) line"
    have a: "i < length line" "line ! i = CHR '' ''" "CHR '' '' \<notin> set ?m"
      using find_char_SomeD [OF Some] by auto
    have b: "j < length line" "line ! j = CHR '' ''" "CHR '' '' \<notin> set ?v"
      using rfind_char_SomeD [OF j] by auto
    show ?thesis
    proof (cases "i = j \<or> ?m = [] \<or> ?u = [] \<or> \<not> starts_with ?v ''HTTP/''")
      case True
      with Some j show ?thesis by (auto simp: parse_request_line_def Let_def)
    next
      case False
      then have ne: "i \<noteq> j" by blast
      have "\<not> j < i"
      proof
        assume "j < i"
        then have "line ! j \<in> set ?m" using a(1) by (auto simp: in_set_conv_nth)
        with a(3) b(2) show False by simp
      qed
      with ne have "i < j" by simp
      have "line = ?m @ '' '' @ drop (i + 1) line"
        using a by (metis id_take_nth_drop Suc_eq_plus1 append_Cons append_Nil)
      moreover have "drop (i + 1) line = ?u @ '' '' @ ?v"
      proof -
        have k: "j - i - 1 < length (drop (i + 1) line)" using \<open>i < j\<close> b(1) by simp
        have "drop (i + 1) line ! (j - i - 1) = CHR '' ''" using \<open>i < j\<close> b by simp
        with id_take_nth_drop [OF k] \<open>i < j\<close> show ?thesis by simp
      qed
      ultimately have "line = ?m @ '' '' @ ?u @ '' '' @ ?v" by metis
      moreover have "parse_request_line line r =
          Inr (r\<lparr>req_method := ?m, req_target := ?u, req_version := ?v\<rparr>)"
        using Some j False by (simp add: parse_request_line_def Let_def)
      ultimately show ?thesis using False a(3) b(3) by blast
    qed
  qed (use Some in \<open>auto simp: parse_request_line_def\<close>)
qed (auto simp: parse_request_line_def)

text \<open>The parts of a successful parse.\<close>

lemma ParseRequestHeader_ok:
  assumes ok: "IsOk (ParseRequestHeader buf r)" and h: "headers r = []"
  obtains i m u v r2 where
    "find_sub CRLF buf = Some i" "take i buf = m @ '' '' @ u @ '' '' @ v"
    "m \<noteq> []" "u \<noteq> []" "starts_with v ''HTTP/''" "CHR '' '' \<notin> set m" "CHR '' '' \<notin> set v"
    "parse_fields (drop (i + length CRLF) buf)
       (r\<lparr>req_method := m, req_target := u, req_version := v\<rparr>) = Inr r2"
    "MethodHasBody m \<longrightarrow> HasHeader ''content-length'' r2"
    "fields_ok r2" "same_line (r\<lparr>req_method := m, req_target := u, req_version := v\<rparr>) r2"
    "error_code r2 = error_code r" "ParseRequestHeader buf r = r2"
proof -
  obtain i where i: "find_sub CRLF buf = Some i"
    using ok by (cases "find_sub CRLF buf") (auto simp: ParseRequestHeader_def IsOk_def IsError_def)
  note cases = parse_request_line_cases [of "take i buf" r]
  then obtain m u v where l: "take i buf = m @ '' '' @ u @ '' '' @ v" "m \<noteq> []" "u \<noteq> []"
    "starts_with v ''HTTP/''" "CHR '' '' \<notin> set m" "CHR '' '' \<notin> set v"
    and p: "parse_request_line (take i buf) r =
      Inr (r\<lparr>req_method := m, req_target := u, req_version := v\<rparr>)" (is "_ = Inr ?r1")
    using ok i by (auto simp: ParseRequestHeader_def IsOk_def IsError_def)
  have f: "fields_ok ?r1" using h by (simp add: fields_ok_def)
  obtain r2 where r2: "parse_fields (drop (i + length CRLF) buf) ?r1 = Inr r2"
    using ok i p parse_fields_keeps [OF f, of "drop (i + length CRLF) buf"]
    by (cases "parse_fields (drop (i + length CRLF) buf) ?r1") (auto simp: ParseRequestHeader_def IsOk_def)
  have k: "fields_ok r2" "same_line ?r1 r2" "error_code r2 = error_code r"
    using parse_fields_keeps [OF f] r2 by auto
  have m: "req_method r2 = m" using k(2) by (simp add: same_line_def)
  have q: "ParseRequestHeader buf r =
      (if MethodHasBody (req_method r2) \<and> \<not> HasHeader ''content-length'' r2
       then SetErrorCode HTTP_STATUS_LENGTH_REQUIRED r2 else r2)"
    using i p r2 by (simp add: ParseRequestHeader_def)
  have b: "MethodHasBody m \<longrightarrow> HasHeader ''content-length'' r2"
    using ok q m by (auto simp: IsOk_def IsError_def split: if_splits)
  then have "\<not> (MethodHasBody (req_method r2) \<and> \<not> HasHeader ''content-length'' r2)" using m by blast
  with q have "ParseRequestHeader buf r = r2" by (simp only: if_False)
  with i l r2 b k show ?thesis by (intro that)
qed

lemma parse_request_ok:
  assumes "IsOk (ParseRequestHeader buf r)" and "headers r = []"
  shows "request_ok (ParseRequestHeader buf r)"
  using assms
  by (rule ParseRequestHeader_ok) (simp add: request_ok_def same_line_def)

lemma parse_keeps_class:
  assumes "headers r = []"
  shows "req_class (ParseRequestHeader buf r) = req_class r \<and> body (ParseRequestHeader buf r) = body r"
proof (cases "find_sub CRLF buf")
  case (Some i)
  from parse_request_line_cases [of "take i buf" r] show ?thesis
  proof (elim disjE exE conjE)
    fix m u v
    let ?r1 = "r\<lparr>req_method := m, req_target := u, req_version := v\<rparr>"
    assume p: "parse_request_line (take i buf) r = Inr ?r1"
    have "fields_ok ?r1" using assms by (simp add: fields_ok_def)
    note keeps = parse_fields_keeps [OF this, of "drop (i + length CRLF) buf"]
    have q: "ParseRequestHeader buf r = (case parse_fields (drop (i + length CRLF) buf) ?r1 of
        Inl r2 \<Rightarrow> r2 | Inr r2 \<Rightarrow>
          if MethodHasBody (req_method r2) \<and> \<not> HasHeader ''content-length'' r2
          then SetErrorCode HTTP_STATUS_LENGTH_REQUIRED r2 else r2)"
      by (simp add: ParseRequestHeader_def Some p)
    show ?thesis
    proof (cases "parse_fields (drop (i + length CRLF) buf) ?r1")
      case (Inl a)
      with keeps [of a] q show ?thesis by (simp add: same_line_def)
    next
      case (Inr a)
      with keeps [of a] q show ?thesis by (simp add: same_line_def)
    qed
  qed (simp add: ParseRequestHeader_def Some)
qed (simp add: ParseRequestHeader_def)

section \<open>Text without a line break\<close>

fun crlf_free :: "string \<Rightarrow> bool" where
  "crlf_free [] \<longleftrightarrow> True"
| "crlf_free [c] \<longleftrightarrow> True"
| "crlf_free (c # d # s) \<longleftrightarrow> \<not> (c = CR \<and> d = LF) \<and> crlf_free (d # s)"

lemma find_crlf_None: "find_sub CRLF s = None \<longleftrightarrow> crlf_free s"
  by (induction s rule: crlf_free.induct) (auto simp: CRLF_def)

lemma crlf_free_append: "crlf_free (s @ t) \<Longrightarrow> crlf_free s \<and> crlf_free t"
proof (induction s rule: crlf_free.induct)
  case (2 v)
  then show ?case by (cases t) auto
qed auto

lemma crlf_free_join: "c \<noteq> CR \<Longrightarrow> c \<noteq> LF \<Longrightarrow> crlf_free (s @ c # t) \<longleftrightarrow> crlf_free s \<and> crlf_free t"
proof (induction s rule: crlf_free.induct)
  case 1
  then show ?case by (cases t) auto
next
  case (2 v)
  then show ?case by (cases t) auto
qed auto

lemma crlf_free_sublist: "sublist t s \<Longrightarrow> crlf_free s \<Longrightarrow> crlf_free t"
  by (auto simp: sublist_def dest!: crlf_free_append)

lemma find_crlf: "crlf_free s \<Longrightarrow> find_sub CRLF (s @ CRLF @ t) = Some (length s)"
proof (induction s rule: crlf_free.induct)
  case (2 v)
  then show ?case by (cases t) (auto simp: CRLF_def)
qed (auto simp: CRLF_def)

lemma find_crlf_free:
  assumes "find_sub CRLF s = Some i"
  shows "crlf_free (take i s)"
proof -
  have False if o: "occurs_at CRLF (take i s) j" for j
  proof -
    have "j + length CRLF \<le> length (take i s)" using o by (rule occurs_at_bound) (simp add: CRLF_def)
    then have "j < i" by (simp add: CRLF_def)
    moreover have "occurs_at CRLF (take i s @ drop i s) j"
      using o by (rule occurs_at_append) (simp add: CRLF_def)
    ultimately show False using find_sub_Some_least [OF assms] by simp
  qed
  then have "find_sub CRLF (take i s) = None" unfolding find_sub_None by blast
  then show ?thesis by (simp only: find_crlf_None)
qed

lemma tolower_fixed: "\<not> (97 \<le> char_code d \<and> char_code d \<le> 122) \<Longrightarrow>
    \<not> (65 \<le> char_code d \<and> char_code d \<le> 90) \<Longrightarrow> tolower c = d \<longleftrightarrow> c = d"
  by (auto simp: tolower_def char_code_char_of)

lemma tolower_crlf [simp]: "tolower c = CR \<longleftrightarrow> c = CR" "tolower c = LF \<longleftrightarrow> c = LF"
  "tolower c = CHR '':'' \<longleftrightarrow> c = CHR '':''"
  by (rule tolower_fixed; simp add: char_code_def)+

lemma crlf_free_to_lower [simp]: "crlf_free (to_lower s) = crlf_free s"
  by (induction s rule: crlf_free.induct) (auto simp: to_lower_def)

lemma colon_to_lower [simp]: "CHR '':'' \<in> set (to_lower s) \<longleftrightarrow> CHR '':'' \<in> set s"
proof -
  have "CHR '':'' \<in> set (to_lower s) \<longleftrightarrow> (\<exists>c \<in> set s. tolower c = CHR '':'')"
    unfolding to_lower_def set_map image_iff by (metis (no_types))
  then show ?thesis by (simp only: tolower_crlf) simp
qed

lemma digits_crlf_free: "\<forall>c\<in>set s. is_digit c \<Longrightarrow> crlf_free s"
proof (induction s rule: crlf_free.induct)
  case (3 c d s)
  then show ?case by (auto simp: is_digit_def char_code_def)
qed auto

end
