(* ===== verification/Http_Wire.thy ===== *)
theory Http_Wire
  imports Http_Request
begin

text \<open>
  Requests on the wire: the parser reads back what \<open>Serialize\<close> writes, and every request the
  parser accepts is one that can be written.
\<close>

section \<open>The end of a header section\<close>

text \<open>\<open>find_http_headers_end\<close> and \<open>get_method_token\<close> of \<open>srv_http_send_recv.cpp\<close>.\<close>

definition HEADERS_END :: string where
  "HEADERS_END = [CR, LF, CR, LF]"

definition find_http_headers_end :: "string \<Rightarrow> nat" where
  "find_http_headers_end buf =
     (case find_sub HEADERS_END buf of None \<Rightarrow> 0 | Some pos \<Rightarrow> pos + length HEADERS_END)"

definition get_method_token :: "string \<Rightarrow> string" where
  "get_method_token buf =
     (case find_char (CHR '' '') buf of None \<Rightarrow> [] | Some sp \<Rightarrow> take sp buf)"

lemma headers_end_occurs: "occurs_at HEADERS_END s j \<longleftrightarrow> occurs_at CRLF s j \<and> occurs_at CRLF s (j + 2)"
proof -
  have "take 4 x = [CR, LF, CR, LF] \<longleftrightarrow> take 2 x = [CR, LF] \<and> take 2 (drop 2 x) = [CR, LF]" for x :: string
    by (cases x; cases "tl x"; cases "tl (tl x)"; cases "tl (tl (tl x))") auto
  from this [of "drop j s"] show ?thesis
    by (simp add: occurs_at_def HEADERS_END_def CRLF_def add.commute eval_nat_numeral)
qed

lemma occurs_at_drop: "occurs_at p (a @ s) (length a + i) \<longleftrightarrow> occurs_at p s i"
  by (simp add: occurs_at_def)

lemma no_end_in_line:
  assumes l: "crlf_free l" and j: "j < length l + 2" and t: "take 2 t \<noteq> CRLF"
  shows "\<not> occurs_at HEADERS_END (l @ CRLF @ t) j"
proof (cases "j < length l")
  case True
  then show ?thesis
    using find_sub_Some_least [OF find_crlf [OF l, of t]] by (simp add: headers_end_occurs)
next
  case False
  with j have "j = length l \<or> j = length l + 1" by auto
  moreover have "\<not> occurs_at CRLF (l @ CRLF @ t) (length l + 1)"
    by (simp add: occurs_at_def CRLF_def)
  moreover have "\<not> occurs_at CRLF (l @ CRLF @ t) (length l + 2)"
    using t by (simp add: occurs_at_def CRLF_def eval_nat_numeral)
  ultimately show ?thesis by (auto simp: headers_end_occurs)
qed

lemma line_not_empty: "crlf_free l \<Longrightarrow> l \<noteq> [] \<Longrightarrow> take 2 (l @ CRLF @ t) \<noteq> CRLF"
  using find_sub_Some_least [OF find_crlf [of l t], of 0] by (simp add: CRLF_def eval_nat_numeral)

text \<open>A sequence of lines, an empty line, and what follows.\<close>

definition lines_text :: "string list \<Rightarrow> string" where
  "lines_text ls = concat (List.map (\<lambda>l. l @ CRLF) ls)"

lemma find_end_of_lines:
  assumes "\<forall>l \<in> set ls. crlf_free l \<and> l \<noteq> []" and "ls \<noteq> []"
  shows "find_sub HEADERS_END (lines_text ls @ CRLF @ b) = Some (length (lines_text ls) - 2)"
  using assms
proof (induction ls)
  case (Cons l ls)
  then have l: "crlf_free l" "l \<noteq> []" by auto
  show ?case
  proof (cases "ls = []")
    case True
    have "occurs_at HEADERS_END (l @ CRLF @ CRLF @ b) (length l)"
      by (simp add: occurs_at_def HEADERS_END_def CRLF_def)
    moreover have "\<not> occurs_at HEADERS_END (l @ CRLF @ CRLF @ b) j" if "j < length l" for j
      using find_sub_Some_least [OF find_crlf [OF l(1)] that] by (simp add: headers_end_occurs)
    ultimately show ?thesis
      unfolding find_sub_eq_Some using True by (simp add: lines_text_def CRLF_def)
  next
    case False
    let ?t = "lines_text ls @ CRLF @ b"
    have len: "2 \<le> length (lines_text ls)" using False by (cases ls) (auto simp: lines_text_def CRLF_def)
    have IH: "find_sub HEADERS_END ?t = Some (length (lines_text ls) - 2)" using Cons False by simp
    obtain l' ls' where ls: "ls = l' # ls'" using False by (cases ls) auto
    have t: "take 2 ?t \<noteq> CRLF"
      using line_not_empty [of l' "lines_text ls' @ CRLF @ b"] Cons.prems ls by (simp add: lines_text_def)
    have split: "lines_text (l # ls) @ CRLF @ b = (l @ CRLF) @ ?t" by (simp add: lines_text_def)
    have at: "occurs_at HEADERS_END ((l @ CRLF) @ ?t) (length (l @ CRLF) + (length (lines_text ls) - 2))"
      unfolding occurs_at_drop by (rule find_sub_Some_occurs [OF IH])
    have least: "\<not> occurs_at HEADERS_END ((l @ CRLF) @ ?t) j"
      if j: "j < length (l @ CRLF) + (length (lines_text ls) - 2)" for j
    proof (cases "j < length l + 2")
      case True
      then show ?thesis using no_end_in_line [OF l(1) True t] by simp
    next
      case False
      then obtain i where i: "j = length (l @ CRLF) + i" by (metis CRLF_def add.commute le_Suc_ex
            length_Cons length_append list.size(3) not_less numeral_2_eq_2)
      with j have "i < length (lines_text ls) - 2" by simp
      then show ?thesis unfolding i occurs_at_drop by (rule find_sub_Some_least [OF IH])
    qed
    have "length (lines_text (l # ls)) - 2 = length (l @ CRLF) + (length (lines_text ls) - 2)"
      using len by (simp add: lines_text_def)
    with at least show ?thesis unfolding split find_sub_eq_Some by simp
  qed
qed simp

lemma headers_end_of_lines:
  assumes "\<forall>l \<in> set ls. crlf_free l \<and> l \<noteq> []" and "ls \<noteq> []"
  shows "find_http_headers_end (lines_text ls @ CRLF @ b) = length (lines_text ls @ CRLF)"
proof -
  have "2 \<le> length (lines_text ls)" using assms(2) by (cases ls) (auto simp: lines_text_def CRLF_def)
  with find_end_of_lines [OF assms, of b] show ?thesis
    by (simp add: find_http_headers_end_def HEADERS_END_def CRLF_def)
qed

lemma headers_end_bound: "find_http_headers_end s \<le> length s"
  using find_sub_bound [of HEADERS_END s]
  by (auto simp: find_http_headers_end_def HEADERS_END_def split: option.split)

lemma headers_end_append:
  "find_http_headers_end s \<noteq> 0 \<Longrightarrow> find_http_headers_end (s @ t) = find_http_headers_end s"
  using find_sub_append [of HEADERS_END s _ t]
  by (auto simp: find_http_headers_end_def HEADERS_END_def split: option.splits)

lemma headers_end_take:
  "find_http_headers_end s \<noteq> 0 \<Longrightarrow> find_http_headers_end (take (find_http_headers_end s) s) = find_http_headers_end s"
  using find_sub_take [of HEADERS_END s]
  by (auto simp: find_http_headers_end_def HEADERS_END_def split: option.splits)

text \<open>The header lines of a message, as lines.\<close>

definition header_texts :: "header_map \<Rightarrow> string list" where
  "header_texts hs = List.map (\<lambda>(n, v). n @ '': '' @ show_value v) hs"

lemma header_lines_text: "concat (List.map header_line hs) = lines_text (header_texts hs)"
  by (induction hs) (auto simp: header_line_def lines_text_def header_texts_def)

section \<open>Requests that can be written\<close>

definition header_writable :: "string \<times> header_value \<Rightarrow> bool" where
  "header_writable h =
     (case h of (name, v) \<Rightarrow> crlf_free name \<and> CHR '':'' \<notin> set name \<and>
       (case v of Str s \<Rightarrow> trimmed s \<and> crlf_free s | SizeT n \<Rightarrow> True))"

definition line_writable :: "http_request \<Rightarrow> bool" where
  "line_writable r \<longleftrightarrow> crlf_free (req_method r) \<and> crlf_free (req_target r) \<and> crlf_free (req_version r)"

definition writable :: "http_request \<Rightarrow> bool" where
  "writable r \<longleftrightarrow> line_writable r \<and> (\<forall>h \<in> set (headers r). header_writable h)"

text \<open>The header section alone: the serialisation of the request without its body.\<close>

definition header_section :: "(header_map \<Rightarrow> header_map) \<Rightarrow> http_request \<Rightarrow> bytes" where
  "header_section hash_order r = Serialize_request hash_order (SetBody [] r)"

lemma Serialize_request_split:
  "Serialize_request hash_order r = header_section hash_order r @ body r"
  by (simp add: Serialize_request_def header_section_def SerializeHeadersAndBody_def SetBody_def)

section \<open>Reading back\<close>

lemma show_value_crlf_free: "header_writable (n, v) \<Longrightarrow> crlf_free (show_value v)"
  by (cases v) (auto simp: header_writable_def digits_crlf_free show_nat_digits)

lemma trimmed_show_nat: "trimmed (show_nat n)"
proof -
  have "\<forall>c \<in> set (show_nat n). c \<noteq> CHR '' ''"
    using show_nat_digits [of n] by (auto simp: is_digit_def char_code_def)
  then show ?thesis by (auto simp: trimmed_def)
qed

lemma trim_show_value: "header_writable (n, v) \<Longrightarrow> trim_spaces (show_value v) = show_value v"
  by (cases v) (auto simp: header_writable_def trim_trimmed trimmed_show_nat)

lemma MAX_BODY_less: "n \<le> MAX_HTTP_BODY_SIZE \<Longrightarrow> n < 2 ^ 64"
  by (simp add: srv_consts)

lemma parse_field_read:
  assumes w: "header_writable (n, v)" and f: "field_ok (req_method r) (n, v)"
  shows "parse_field (n @ '': '' @ show_value v) r = Inr (AddHeader n v r)"
proof -
  have c: "find_char (CHR '':'') (n @ '': '' @ show_value v) = Some (length n)"
    using w find_char_append_notin [of "CHR '':''" n "CHR '' '' # show_value v"]
    by (simp add: header_writable_def)
  have v: "trim_spaces (drop (length n + 1) (n @ '': '' @ show_value v)) = show_value v"
    using trim_show_value [OF w] by simp
  show ?thesis
  proof (cases v)
    case (Str s)
    with f c v show ?thesis
      by (simp add: parse_field_def Let_def field_ok_def)
  next
    case (SizeT k)
    with f have k: "k \<le> MAX_HTTP_BODY_SIZE" "to_lower n = ''content-length''" "MethodHasBody (req_method r)"
      by (auto simp: field_ok_def)
    then have "from_chars (show_nat k) = Inr (k, [])" by (intro from_chars_show_nat MAX_BODY_less)
    with SizeT k have "parse_content_length n (show_value v) r = Inr (AddHeader n v r)"
      by (simp add: parse_content_length_def)
    with c v k(2) show ?thesis by (simp add: parse_field_def Let_def)
  qed
qed

lemma parse_fields_line:
  assumes "crlf_free l"
  shows "parse_fields (l @ CRLF @ p) r =
    (case parse_field l r of Inl r' \<Rightarrow> Inl r' | Inr r' \<Rightarrow> parse_fields p r')"
  using find_crlf [OF assms, of p]
  by (subst parse_fields.simps) (auto simp: CRLF_def split: sum.split)

lemma parse_fields_end: "parse_fields CRLF r = Inr r"
  using parse_fields_line [of "[]" "[]" r]
  by (simp add: parse_field_def parse_fields.simps [of "[]"])

lemma header_text_crlf_free: "header_writable (n, v) \<Longrightarrow> crlf_free (n @ '': '' @ show_value v)"
  using show_value_crlf_free [of n v] crlf_free_join [of "CHR '':''" n "CHR '' '' # show_value v"]
    crlf_free_join [of "CHR '' ''" "[]" "show_value v"]
  by (simp add: header_writable_def)

lemma header_texts_writable:
  "\<forall>h \<in> set hs. header_writable h \<Longrightarrow> \<forall>l \<in> set (header_texts hs). crlf_free l \<and> l \<noteq> []"
  by (auto simp: header_texts_def header_text_crlf_free simp del: append_Cons)

lemma update_new: "k \<notin> fst ` set al \<Longrightarrow> AList.update k v al = al @ [(k, v)]"
  by (induction al) auto

lemma parse_fields_read:
  assumes "\<forall>h \<in> set hs. header_writable h \<and> field_ok (req_method r) h"
    and "distinct (List.map fst hs)" and "fst ` set hs \<inter> fst ` set (headers r) = {}"
  shows "parse_fields (concat (List.map header_line hs) @ CRLF) r = Inr (r\<lparr>headers := headers r @ hs\<rparr>)"
  using assms
proof (induction hs arbitrary: r)
  case Nil
  then show ?case by (simp add: parse_fields_end)
next
  case (Cons h hs)
  obtain n v where h: "h = (n, v)" by fastforce
  have low: "to_lower n = n" using Cons.prems(1) h by (simp add: field_ok_def)
  have w: "header_writable (n, v)" "field_ok (req_method r) (n, v)" using Cons.prems(1) h by auto
  have "n \<notin> fst ` set (headers r)" using Cons.prems(3) h by auto
  with low have add: "AddHeader n v r = r\<lparr>headers := headers r @ [(n, v)]\<rparr>"
    by (simp add: AddHeader_def update_new)
  have "parse_fields (concat (List.map header_line (h # hs)) @ CRLF) r =
      parse_fields (concat (List.map header_line hs) @ CRLF) (AddHeader n v r)"
    using parse_fields_line [OF header_text_crlf_free [OF w(1)]] parse_field_read [OF w]
    by (simp add: header_line_def h)
  also have "\<dots> = Inr ((AddHeader n v r)\<lparr>headers := headers (AddHeader n v r) @ hs\<rparr>)"
    using Cons.prems h add by (intro Cons.IH) auto
  finally show ?case using add h by simp
qed

lemma parse_request_line_read:
  assumes "CHR '' '' \<notin> set m" "CHR '' '' \<notin> set v" "m \<noteq> []" "u \<noteq> []" "starts_with v ''HTTP/''"
  shows "parse_request_line (m @ '' '' @ u @ '' '' @ v) r =
    Inr (r\<lparr>req_method := m, req_target := u, req_version := v\<rparr>)"
proof -
  let ?l = "m @ '' '' @ u @ '' '' @ v"
  have "find_char (CHR '' '') ?l = Some (length m)"
    using find_char_append_notin [OF assms(1), of "u @ '' '' @ v"] by simp
  moreover have "rfind_char (CHR '' '') ?l = Some (length m + 1 + length u)"
    using rfind_char_append_notin [OF assms(2), of "m @ '' '' @ u"] by simp
  ultimately show ?thesis using assms by (simp add: parse_request_line_def Let_def)
qed

text \<open>
  The round trip. The fields come back in the order they were written in, so the parsed map is
  the written one.
\<close>

lemma parse_serialized:
  assumes ok: "request_ok r" and w: "writable r" and order: "mset (hash_order (headers r)) = mset (headers r)"
    and r0: "headers r0 = []" "error_code r0 = HTTP_STATUS_NONE"
  shows "ParseRequestHeader (header_section hash_order r) r0 =
    r0\<lparr>headers := hash_order (headers r), req_method := req_method r, req_target := req_target r,
       req_version := req_version r\<rparr>"
proof -
  let ?line = "req_method r @ '' '' @ req_target r @ '' '' @ req_version r"
  let ?rest = "concat (List.map header_line (hash_order (headers r))) @ CRLF"
  let ?r1 = "r0\<lparr>req_method := req_method r, req_target := req_target r, req_version := req_version r\<rparr>"
  let ?r2 = "?r1\<lparr>headers := hash_order (headers r)\<rparr>"
  have split: "header_section hash_order r = ?line @ CRLF @ ?rest"
    by (simp add: header_section_def Serialize_request_def SerializeHeadersAndBody_def SetBody_def)
  have set: "set (hash_order (headers r)) = set (headers r)" using order by (rule mset_eq_setD)
  have dist: "distinct (List.map fst (hash_order (headers r)))"
    using ok order by (metis fields_ok_def mset_eq_imp_distinct_iff mset_map request_ok_def)
  have "crlf_free ?line"
    using w crlf_free_join [of "CHR '' ''" "req_method r" "req_target r @ '' '' @ req_version r"]
      crlf_free_join [of "CHR '' ''" "req_target r" "req_version r"]
    by (simp add: writable_def line_writable_def)
  then have line: "find_sub CRLF (header_section hash_order r) = Some (length ?line)"
    unfolding split by (rule find_crlf)
  have p: "parse_request_line ?line r0 = Inr ?r1"
    using ok by (intro parse_request_line_read) (auto simp: request_ok_def)
  have f: "parse_fields ?rest ?r1 = Inr (?r1\<lparr>headers := headers ?r1 @ hash_order (headers r)\<rparr>)"
    using ok w set dist r0 by (intro parse_fields_read) (auto simp: request_ok_def fields_ok_def writable_def)
  have "distinct (List.map fst (headers r))" using ok by (simp add: request_ok_def fields_ok_def)
  with dist set have "map_of (hash_order (headers r)) = map_of (headers r)"
    by (intro map_of_inject_set [THEN iffD2]) auto
  then have has: "HasHeader n ?r2 = HasHeader n r" for n by (simp add: HasHeader_def)
  have "ParseRequestHeader (header_section hash_order r) r0 =
      (if MethodHasBody (req_method r) \<and> \<not> HasHeader ''content-length'' ?r2
       then SetErrorCode HTTP_STATUS_LENGTH_REQUIRED ?r2 else ?r2)"
  proof -
    have t: "take (length ?line) (?line @ CRLF @ ?rest) = ?line"
      and d: "drop (length ?line + length CRLF) (?line @ CRLF @ ?rest) = ?rest" by simp_all
    show ?thesis
      using p f r0(1) unfolding ParseRequestHeader_def line option.case unfolding split t d
      by (simp only: sum.case) simp
  qed
  moreover have "\<not> (MethodHasBody (req_method r) \<and> \<not> HasHeader ''content-length'' ?r2)"
    using ok unfolding has request_ok_def by blast
  ultimately show ?thesis by (simp only: if_False) simp
qed

section \<open>Accepted requests can be written\<close>

lemma trimmed_value_crlf_free: "crlf_free s \<Longrightarrow> crlf_free (trim_spaces s)"
  by (rule crlf_free_sublist [OF trim_spaces_sublist])

lemma parse_field_writable:
  assumes "crlf_free line" and "\<forall>h \<in> set (headers r). header_writable h" and "parse_field line r = Inr r'"
  shows "\<forall>h \<in> set (headers r'). header_writable h"
proof (cases "line = []")
  case True
  with assms show ?thesis by (simp add: parse_field_def)
next
  case False
  then obtain c where c: "find_char (CHR '':'') line = Some c"
    using assms(3) by (cases "find_char (CHR '':'') line") (auto simp: parse_field_def)
  let ?n = "take c line" and ?v = "trim_spaces (drop (c + 1) line)"
  have n: "crlf_free ?n" "CHR '':'' \<notin> set ?n"
    using crlf_free_append [of "take c line" "drop c line"] assms(1) find_char_SomeD [OF c] by auto
  have v: "crlf_free ?v" "trimmed ?v"
    using crlf_free_append [of "take (c + 1) line" "drop (c + 1) line"] assms(1)
    by (auto simp: trimmed_value_crlf_free trimmed_trim_spaces)
  have "r' = AddHeader ?n (Str ?v) r \<or> (\<exists>k. r' = AddHeader ?n (SizeT k) r)"
    using assms(3) False c
    by (auto simp: parse_field_def Let_def parse_content_length_def split: if_splits sum.splits)
  with n v assms(2) show ?thesis
    by (auto simp: header_writable_def dest!: set_AddHeader)
qed

lemma parse_fields_writable:
  assumes "\<forall>h \<in> set (headers r). header_writable h" and "parse_fields p r = Inr r'"
  shows "\<forall>h \<in> set (headers r'). header_writable h"
  using assms
proof (induction p r rule: parse_fields.induct)
  case (1 p r)
  show ?case
  proof (cases "p = []")
    case True
    with 1 show ?thesis by (simp add: parse_fields.simps)
  next
    case False
    then obtain i where i: "find_sub CRLF p = Some i"
      using 1(3) by (subst (asm) parse_fields.simps) (auto split: option.splits)
    obtain a where a: "parse_field (take i p) r = Inr a"
      using 1(3) False i by (subst (asm) parse_fields.simps) (auto split: sum.splits)
    have "parse_fields (drop (min (i + length CRLF) (length p)) p) a = Inr r'"
      using 1(3) False i a by (subst (asm) parse_fields.simps) simp
    with 1(1) [OF False i a] parse_field_writable [OF find_crlf_free [OF i] 1(2) a]
    show ?thesis by blast
  qed
qed

lemma parsed_writable:
  assumes ok: "IsOk (ParseRequestHeader buf r)" and h: "headers r = []"
  shows "writable (ParseRequestHeader buf r)"
  using ok h
proof (rule ParseRequestHeader_ok)
  fix i m u v r2
  let ?r1 = "r\<lparr>req_method := m, req_target := u, req_version := v\<rparr>"
  assume i: "find_sub CRLF buf = Some i" and l: "take i buf = m @ '' '' @ u @ '' '' @ v"
    and p: "parse_fields (drop (i + length CRLF) buf) ?r1 = Inr r2"
    and s: "same_line ?r1 r2" and eq: "ParseRequestHeader buf r = r2"
  have "crlf_free (m @ '' '' @ u @ '' '' @ v)" using find_crlf_free [OF i] l by simp
  then have "crlf_free m \<and> crlf_free u \<and> crlf_free v"
    using crlf_free_join [of "CHR '' ''" m "u @ '' '' @ v"] crlf_free_join [of "CHR '' ''" u v] by simp
  with s have "line_writable r2" by (simp add: line_writable_def same_line_def)
  moreover have "\<forall>h \<in> set (headers r2). header_writable h"
    using parse_fields_writable [OF _ p] h by simp
  ultimately show ?thesis using eq by (simp add: writable_def)
qed

text \<open>The header section of a writable request ends where the receiver looks for its end.\<close>

lemma header_section_end:
  assumes w: "writable r" and order: "mset (hash_order (headers r)) = mset (headers r)"
  shows "find_http_headers_end (Serialize_request hash_order r) = length (header_section hash_order r)"
proof -
  let ?line = "req_method r @ '' '' @ req_target r @ '' '' @ req_version r"
  let ?ls = "?line # header_texts (hash_order (headers r))"
  have "set (hash_order (headers r)) = set (headers r)" using order by (rule mset_eq_setD)
  then have h: "\<forall>l \<in> set (header_texts (hash_order (headers r))). crlf_free l \<and> l \<noteq> []"
    using w by (intro header_texts_writable) (simp add: writable_def)
  have "crlf_free ?line"
    using w crlf_free_join [of "CHR '' ''" "req_method r" "req_target r @ '' '' @ req_version r"]
      crlf_free_join [of "CHR '' ''" "req_target r" "req_version r"]
    by (simp add: writable_def line_writable_def)
  with h have ls: "\<forall>l \<in> set ?ls. crlf_free l \<and> l \<noteq> []" by simp
  have s: "Serialize_request hash_order r = lines_text ?ls @ CRLF @ body r"
    by (simp add: Serialize_request_def SerializeHeadersAndBody_def header_lines_text lines_text_def)
  have "header_section hash_order r = lines_text ?ls @ CRLF"
    by (simp add: header_section_def Serialize_request_def SerializeHeadersAndBody_def SetBody_def
        header_lines_text lines_text_def)
  with headers_end_of_lines [OF ls, of "body r"] show ?thesis by (simp add: s)
qed

end
