(* ===== verification/Http_Response.thy ===== *)
theory Http_Response
  imports Http_Wire
begin

text \<open>
  \<open>srv_async/http/srv_http_response_msg.cpp\<close>, the files \<open>srv_http_request_<method>.cpp\<close> and
  \<open>MakeResponse\<close>: the responses of the server, their pages and headers, and how they are
  serialised. The formatted date is an argument.
\<close>

section \<open>Pages and responses\<close>

record http_response = http_msg +
  status_code :: http_status
  status_text :: string

definition get_html_page :: "string \<Rightarrow> string \<Rightarrow> string" where
  "get_html_page title body_html =
     ''<!DOCTYPE html>'' @ [LF] @
     ''<html>'' @ [LF] @
     ''<head>'' @ [LF] @
     ''    <meta charset='' @ [CHR 0x22] @ ''UTF-8'' @ [CHR 0x22] @ ''>'' @ [LF] @
     ''    <title>'' @ title @ ''</title>'' @ [LF] @
     ''</head>'' @ [LF] @
     ''<body>'' @ [LF] @ body_html @ ''</body>'' @ [LF] @
     ''</html>'' @ [LF]"

text \<open>The constructor of \<open>http_response_msg\<close> with a code.\<close>

definition new_response :: "http_status \<Rightarrow> fault + http_response" where
  "new_response code =
     (case status_text_of code of
        Inl f \<Rightarrow> Inl f
      | Inr text \<Rightarrow> Inr \<lparr>headers = [], body = [], status_code = code, status_text = text\<rparr>)"

definition make_page_response ::
  "string \<Rightarrow> http_status \<Rightarrow> http_request \<Rightarrow> string \<Rightarrow> string \<Rightarrow> bool \<Rightarrow> fault + http_response" where
  "make_page_response date code req title body_html omit_body =
     (case new_response code of
        Inl f \<Rightarrow> Inl f
      | Inr resp0 \<Rightarrow>
          let page = get_html_page title body_html;
              resp1 = AddHeader ''Date'' (Str date) resp0;
              resp2 = AddHeader ''Server'' (Str ''my_srv_async/1.0 (Ubuntu)'') resp1 in
          (case WantKeepAlive req of
             Inl f \<Rightarrow> Inl f
           | Inr keep \<Rightarrow>
               let resp3 = AddHeader ''Connection'' (Str (if keep then ''keep-alive'' else ''close'')) resp2;
                   resp4 = AddHeader ''Content-Type'' (Str ''text/html; charset=UTF-8'') resp3;
                   resp5 = AddHeader ''Content-Length'' (SizeT (length page)) resp4 in
               Inr (if \<not> omit_body then SetBody page resp5 else resp5)))"

definition make_error_response :: "string \<Rightarrow> http_status \<Rightarrow> http_request \<Rightarrow> fault + http_response" where
  "make_error_response date code req =
     (let code_str = show_nat (status_value code) in
      case status_text_of code of
        Inl f \<Rightarrow> Inl f
      | Inr text \<Rightarrow>
          (case make_page_response date code req (code_str @ '' '' @ text)
                  (''<h1>'' @ code_str @ '' '' @ text @ ''</h1>'' @ [LF]) False of
             Inl f \<Rightarrow> Inl f
           | Inr resp \<Rightarrow>
               Inr (if code = HTTP_STATUS_METHOD_NOT_ALLOWED
                    then AddHeader ''Allow'' (Str ''GET, HEAD, POST, PUT, DELETE, PATCH'') resp
                    else resp)))"

definition make_main_page_response :: "string \<Rightarrow> http_request \<Rightarrow> bool \<Rightarrow> fault + http_response" where
  "make_main_page_response date req omit_body =
     (if req_target req = ''/'' \<or> req_target req = ''/index.html''
      then make_page_response date HTTP_STATUS_OK req ''Main Page''
             (''<h1>Welcome to coroutine-based async server!</h1>'' @ [LF] @
              ''<p>This is the server'' @ [CHR 0x27] @ ''s main page plug.</p>'' @ [LF]) omit_body
      else make_page_response date HTTP_STATUS_NOT_FOUND req ''Not Found''
             (''<h1>404 Page Not Found</h1>'' @ [LF] @
              ''<p>Requested page: '' @ req_target req @ ''</p>'' @ [LF]) omit_body)"

section \<open>The responses of each class\<close>

definition MakeOkResponse_base :: "string \<Rightarrow> http_request \<Rightarrow> fault + http_response" where
  "MakeOkResponse_base date req = make_error_response date HTTP_STATUS_INTERNAL_SERVER_ERROR req"

definition MakeOkResponse_get :: "string \<Rightarrow> http_request \<Rightarrow> fault + http_response" where
  "MakeOkResponse_get date req = make_main_page_response date req False"

definition MakeOkResponse_head :: "string \<Rightarrow> http_request \<Rightarrow> fault + http_response" where
  "MakeOkResponse_head date req = make_main_page_response date req True"

definition MakeOkResponse_post :: "string \<Rightarrow> http_request \<Rightarrow> fault + http_response" where
  "MakeOkResponse_post date req =
     make_page_response date HTTP_STATUS_NOT_IMPLEMENTED req ''Not Implemented''
       (''<h1>501 Not Implemented</h1>'' @ [LF] @
        ''<p>Handling of POST requests will be implemented'' @
        '' in the next version of server.</p>'' @ [LF]) False"

definition MakeOkResponse_put :: "string \<Rightarrow> http_request \<Rightarrow> fault + http_response" where
  "MakeOkResponse_put date req =
     make_page_response date HTTP_STATUS_NOT_IMPLEMENTED req ''Not Implemented''
       (''<h1>501 Not Implemented</h1>'' @ [LF] @
        ''<p>Handling of PUT requests will be implemented'' @
        '' in the next version of server.</p>'' @ [LF]) False"

definition MakeOkResponse_delete :: "string \<Rightarrow> http_request \<Rightarrow> fault + http_response" where
  "MakeOkResponse_delete date req =
     make_page_response date HTTP_STATUS_NOT_IMPLEMENTED req ''Not Implemented''
       (''<h1>501 Not Implemented</h1>'' @ [LF] @
        ''<p>Handling of DELETE requests will be implemented'' @
        '' in the next version of server.</p>'' @ [LF]) False"

definition MakeOkResponse_patch :: "string \<Rightarrow> http_request \<Rightarrow> fault + http_response" where
  "MakeOkResponse_patch date req =
     make_page_response date HTTP_STATUS_NOT_IMPLEMENTED req ''Not Implemented''
       (''<h1>501 Not Implemented</h1>'' @ [LF] @
        ''<p>Handling of PATCH requests will be implemented'' @
        '' in the next version of server.</p>'' @ [LF]) False"

text \<open>The virtual call: dispatch on the class of the object.\<close>

fun MakeOkResponse :: "request_class \<Rightarrow> string \<Rightarrow> http_request \<Rightarrow> fault + http_response" where
  "MakeOkResponse Base_msg = MakeOkResponse_base"
| "MakeOkResponse Get_msg = MakeOkResponse_get"
| "MakeOkResponse Head_msg = MakeOkResponse_head"
| "MakeOkResponse Post_msg = MakeOkResponse_post"
| "MakeOkResponse Put_msg = MakeOkResponse_put"
| "MakeOkResponse Delete_msg = MakeOkResponse_delete"
| "MakeOkResponse Patch_msg = MakeOkResponse_patch"

definition MakeResponse :: "string \<Rightarrow> http_request \<Rightarrow> fault + http_response" where
  "MakeResponse date r =
     (if IsError r
      then make_error_response date
             (if error_code r \<noteq> HTTP_STATUS_NONE then error_code r else HTTP_STATUS_BAD_REQUEST) r
      else MakeOkResponse (req_class r) date r)"

definition Serialize_response :: "(header_map \<Rightarrow> header_map) \<Rightarrow> http_response \<Rightarrow> bytes" where
  "Serialize_response hash_order resp =
     ''HTTP/1.1 '' @ show_nat (status_value (status_code resp)) @ '' '' @ status_text resp @ CRLF @
     SerializeHeadersAndBody hash_order resp"

section \<open>Keep-alive never meets a number\<close>

lemma to_lower_names [simp]:
  "to_lower ''Date'' = ''date''" "to_lower ''Server'' = ''server''"
  "to_lower ''Content-Type'' = ''content-type''" "to_lower ''Allow'' = ''allow''"
  by code_simp+

lemma connection_text:
  assumes "fields_ok r" and "HasHeader ''Connection'' r"
  obtains s where "GetHeaderValue ''Connection'' r = Str s"
proof -
  obtain v where v: "map_of (headers r) ''connection'' = Some v"
    using assms(2) by (auto simp: HasHeader_def)
  then have "field_ok (req_method r) (''connection'', v)"
    using assms(1) by (auto simp: fields_ok_def dest: map_of_SomeD)
  with v show ?thesis by (cases v) (auto simp: field_ok_def GetHeaderValue_def intro: that)
qed

lemma WantKeepAlive_total: "IsError r \<or> fields_ok r \<Longrightarrow> \<exists>b. WantKeepAlive r = Inr b"
  by (auto simp: WantKeepAlive_def elim!: connection_text)

lemma WantKeepAlive_error: "IsError r \<Longrightarrow> WantKeepAlive r = Inr False"
  by (simp add: WantKeepAlive_def)

text \<open>A client names a connection option in its \<open>Connection\<close> field, in any case.\<close>

definition names_option :: "string \<Rightarrow> http_request \<Rightarrow> bool" where
  "names_option opt r \<longleftrightarrow>
     (case find_header ''Connection'' r of
        Some (Str s) \<Rightarrow> find_sub opt (to_lower s) \<noteq> None
      | _ \<Rightarrow> False)"

lemma option_words [simp]: "to_lower ''close'' = ''close''" "to_lower ''keep-alive'' = ''keep-alive''"
  by code_simp+

lemma contains_ci_find: "contains_ci s w \<longleftrightarrow> w \<noteq> [] \<and> find_sub (to_lower w) (to_lower s) \<noteq> None"
  using contains_ci_iff [of s w] by (simp add: find_sub_None)

lemma WantKeepAlive_valid:
  assumes "IsOk r" and "fields_ok r"
  shows "WantKeepAlive r = Inr (\<not> names_option ''close'' r \<and>
    (names_option ''keep-alive'' r \<or> req_version r \<noteq> ''HTTP/1.0''))"
proof (cases "HasHeader ''Connection'' r")
  case True
  from connection_text [OF assms(2) True] obtain s where s: "GetHeaderValue ''Connection'' r = Str s" .
  then have "find_header ''Connection'' r = Some (Str s)"
    using True by (auto simp: GetHeaderValue_find HasHeader_find)
  with s True assms(1) show ?thesis
    by (simp add: WantKeepAlive_def IsOk_def names_option_def contains_ci_find)
next
  case False
  then have "find_header ''Connection'' r = None" by (simp add: HasHeader_find)
  with False assms(1) show ?thesis by (simp add: WantKeepAlive_def IsOk_def names_option_def)
qed

section \<open>What every response satisfies\<close>

text \<open>
  \<open>answers r resp\<close>: the response carries the text of its code, header fields that can be
  written, the length of the page it was made from, which is the body unless the body is left
  out, and the keep-alive decision of the request.
\<close>

definition headers_writable :: "'a http_msg_scheme \<Rightarrow> bool" where
  "headers_writable m \<longleftrightarrow> (\<forall>h \<in> set (headers m). header_writable h)"

definition answers :: "http_request \<Rightarrow> bool \<Rightarrow> http_response \<Rightarrow> bool" where
  "answers r omit resp \<longleftrightarrow>
     status_text_of (status_code resp) = Inr (status_text resp) \<and>
     headers_writable resp \<and>
     (\<exists>page. find_header ''Content-Length'' resp = Some (SizeT (length page)) \<and>
        body resp = (if omit then [] else page)) \<and>
     (\<exists>keep. WantKeepAlive r = Inr keep \<and>
        find_header ''Connection'' resp = Some (Str (if keep then ''keep-alive'' else ''close'')))"

lemma AddHeader_response [simp]:
  "status_code (AddHeader n v m) = status_code m" "status_text (AddHeader n v m) = status_text m"
  by (simp_all add: AddHeader_def)

lemma SetBody_response [simp]:
  "status_code (SetBody b m) = status_code m" "status_text (SetBody b m) = status_text m"
  by (simp_all add: SetBody_def)

lemma headers_writable_simps [simp]:
  "headers_writable (SetBody b m) = headers_writable m"
  "headers_writable \<lparr>headers = [], body = b', \<dots> = x\<rparr>"
  by (simp_all add: headers_writable_def)

lemma header_writable_AddHeader:
  "headers_writable m \<Longrightarrow> header_writable (to_lower n, v) \<Longrightarrow> headers_writable (AddHeader n v m)"
  by (auto simp: headers_writable_def dest: set_AddHeader)

lemma own_headers_writable:
  "header_writable (''server'', Str ''my_srv_async/1.0 (Ubuntu)'')"
  "header_writable (''connection'', Str ''keep-alive'')" "header_writable (''connection'', Str ''close'')"
  "header_writable (''content-type'', Str ''text/html; charset=UTF-8'')"
  "header_writable (''content-length'', SizeT n)"
  "header_writable (''allow'', Str ''GET, HEAD, POST, PUT, DELETE, PATCH'')"
  by (simp_all add: header_writable_def trimmed_def)

definition date_ok :: "string \<Rightarrow> bool" where
  "date_ok date \<longleftrightarrow> trimmed date \<and> crlf_free date"

lemma date_writable: "date_ok date \<Longrightarrow> header_writable (''date'', Str date)"
  by (simp add: header_writable_def date_ok_def)

lemma make_page_response_Inr:
  assumes "status_text_of code = Inr text" and "WantKeepAlive req = Inr keep" and "date_ok date"
  shows "\<exists>resp. make_page_response date code req title body_html omit = Inr resp \<and>
    answers req omit resp \<and> status_code resp = code \<and>
    body resp = (if omit then [] else get_html_page title body_html)"
  using assms own_headers_writable date_writable [OF assms(3)]
  by (auto simp: make_page_response_def new_response_def Let_def answers_def hdr.get_add
      intro!: header_writable_AddHeader)

lemma make_page_response_Inl:
  "status_text_of code = Inl f \<Longrightarrow> make_page_response date code req title body_html omit = Inl f"
  by (simp add: make_page_response_def new_response_def)

lemma answers_AddHeader:
  "answers r omit resp \<Longrightarrow> header_writable (to_lower n, v) \<Longrightarrow>
    to_lower n \<noteq> ''content-length'' \<Longrightarrow> to_lower n \<noteq> ''connection'' \<Longrightarrow> answers r omit (AddHeader n v resp)"
  unfolding answers_def
  using header_writable_AddHeader [of resp n v] by (simp add: hdr.get_add)

lemma make_error_response_Inr:
  assumes "status_text_of code = Inr text" and "WantKeepAlive req = Inr keep" and "date_ok date"
  shows "\<exists>resp. make_error_response date code req = Inr resp \<and> answers req False resp \<and>
    status_code resp = code"
proof -
  obtain resp where "make_page_response date code req (show_nat (status_value code) @ '' '' @ text)
      (''<h1>'' @ show_nat (status_value code) @ '' '' @ text @ ''</h1>'' @ [LF]) False = Inr resp"
    "answers req False resp" "status_code resp = code"
    using make_page_response_Inr [OF assms] by blast
  with assms(1) show ?thesis
    by (auto simp: make_error_response_def own_headers_writable intro!: answers_AddHeader)
qed

lemma make_main_page_response_Inr:
  assumes "WantKeepAlive req = Inr keep" and "date_ok date"
  shows "\<exists>resp. make_main_page_response date req omit = Inr resp \<and> answers req omit resp \<and>
    status_code resp = (if req_target req = ''/'' \<or> req_target req = ''/index.html''
      then HTTP_STATUS_OK else HTTP_STATUS_NOT_FOUND)"
proof (cases "req_target req = ''/'' \<or> req_target req = ''/index.html''")
  case True
  with make_page_response_Inr [OF status_text_simps(2) assms, of "''Main Page''" _ omit] show ?thesis
    unfolding make_main_page_response_def by (simp only: if_True) blast
next
  case False
  with make_page_response_Inr [OF status_text_simps(4) assms, of "''Not Found''" _ omit] show ?thesis
    unfolding make_main_page_response_def by (simp only: if_False) blast
qed

section \<open>The contract of the virtual call\<close>

text \<open>
  What \<open>MakeResponse\<close> relies on, for every class: a response of one of the class's codes that
  answers the request, or the fault of looking up the text of one of them.
\<close>

locale ok_response =
  fixes mk :: "string \<Rightarrow> http_request \<Rightarrow> fault + http_response"
    and codes :: "http_status set" and omit :: bool
  assumes result: "date_ok date \<Longrightarrow> WantKeepAlive req = Inr keep \<Longrightarrow>
    (\<exists>resp. mk date req = Inr resp \<and> answers req omit resp \<and> status_code resp \<in> codes) \<or>
    (\<exists>f. mk date req = Inl f \<and> (\<exists>code \<in> codes. status_text_of code = Inl f))"
begin

lemma answers_if:
  assumes "date_ok date" and "WantKeepAlive req = Inr keep" and "mk date req = Inr resp"
  shows "answers req omit resp \<and> status_code resp \<in> codes"
  using result [OF assms(1,2)] assms(3) by auto

lemma responds:
  assumes "date_ok date" and "WantKeepAlive req = Inr keep" and "\<forall>code \<in> codes. \<exists>text. status_text_of code = Inr text"
  shows "\<exists>resp. mk date req = Inr resp"
  using result [OF assms(1,2)] assms(3) by fastforce

lemma faults:
  assumes "date_ok date" and "WantKeepAlive req = Inr keep" and "\<forall>code \<in> codes. status_text_of code = Inl f"
  shows "mk date req = Inl f"
  using result [OF assms(1,2)] assms(3) by (fastforce simp: answers_def)

end

lemma not_implemented_page:
  "make_page_response date HTTP_STATUS_NOT_IMPLEMENTED req title html omit = Inl (Vector_index 501)"
  by (simp add: make_page_response_Inl)

lemma main_page_codes:
  assumes "date_ok date" and "WantKeepAlive req = Inr keep"
  shows "\<exists>resp. make_main_page_response date req omit = Inr resp \<and> answers req omit resp \<and>
    status_code resp \<in> {HTTP_STATUS_OK, HTTP_STATUS_NOT_FOUND}"
  using make_main_page_response_Inr [OF assms(2,1), of omit] by (metis insert_iff)

interpretation get_resp: ok_response MakeOkResponse_get "{HTTP_STATUS_OK, HTTP_STATUS_NOT_FOUND}" False
  by (unfold_locales, unfold MakeOkResponse_get_def, rule disjI1, rule main_page_codes)

interpretation head_resp: ok_response MakeOkResponse_head "{HTTP_STATUS_OK, HTTP_STATUS_NOT_FOUND}" True
  by (unfold_locales, unfold MakeOkResponse_head_def, rule disjI1, rule main_page_codes)

interpretation base_resp: ok_response MakeOkResponse_base "{HTTP_STATUS_INTERNAL_SERVER_ERROR}" False
  by unfold_locales (simp add: MakeOkResponse_base_def make_error_response_def Let_def)

interpretation post_resp: ok_response MakeOkResponse_post "{HTTP_STATUS_NOT_IMPLEMENTED}" False
  by unfold_locales (simp add: MakeOkResponse_post_def not_implemented_page del: append_Cons append.simps)

interpretation put_resp: ok_response MakeOkResponse_put "{HTTP_STATUS_NOT_IMPLEMENTED}" False
  by unfold_locales (simp add: MakeOkResponse_put_def not_implemented_page del: append_Cons append.simps)

interpretation delete_resp: ok_response MakeOkResponse_delete "{HTTP_STATUS_NOT_IMPLEMENTED}" False
  by unfold_locales (simp add: MakeOkResponse_delete_def not_implemented_page del: append_Cons append.simps)

interpretation patch_resp: ok_response MakeOkResponse_patch "{HTTP_STATUS_NOT_IMPLEMENTED}" False
  by unfold_locales (simp add: MakeOkResponse_patch_def not_implemented_page del: append_Cons append.simps)

section \<open>The response to a request\<close>

definition omits_body :: "http_request \<Rightarrow> bool" where
  "omits_body r \<longleftrightarrow> IsOk r \<and> req_class r = Head_msg"

lemma error_response:
  assumes "IsError r" and "date_ok date"
  shows "MakeResponse date r = make_error_response date (error_code r) r"
  using assms by (simp add: MakeResponse_def IsError_def)

lemma MakeResponse_answers:
  assumes ok: "IsError r \<or> fields_ok r" and d: "date_ok date" and resp: "MakeResponse date r = Inr resp"
  shows "answers r (omits_body r) resp"
proof -
  obtain keep where k: "WantKeepAlive r = Inr keep" using WantKeepAlive_total [OF ok] by blast
  show ?thesis
  proof (cases "IsError r")
    case True
    then have e: "make_error_response date (error_code r) r = Inr resp"
      using resp d by (simp add: error_response)
    then obtain descr where "status_text_of (error_code r) = Inr descr"
      by (cases "status_text_of (error_code r)") (auto simp: make_error_response_def)
    with make_error_response_Inr [OF this k d] e True show ?thesis
      by (simp add: omits_body_def IsOk_def)
  next
    case False
    then have m: "MakeOkResponse (req_class r) date r = Inr resp" using resp by (simp add: MakeResponse_def)
    with False show ?thesis
      using get_resp.answers_if [OF d k] head_resp.answers_if [OF d k] base_resp.answers_if [OF d k]
        post_resp.answers_if [OF d k] put_resp.answers_if [OF d k] delete_resp.answers_if [OF d k]
        patch_resp.answers_if [OF d k]
      by (cases "req_class r") (auto simp: omits_body_def IsOk_def)
  qed
qed

text \<open>
  When there is a response at all: for an error, when its code has a text; for a valid request,
  for \<open>GET\<close> and \<open>HEAD\<close>. A valid request of another method reads past the status texts.
\<close>

lemma MakeResponse_valid:
  assumes ok: "IsOk r" "fields_ok r" and d: "date_ok date"
  shows "(req_class r \<in> {Get_msg, Head_msg} \<longrightarrow> (\<exists>resp. MakeResponse date r = Inr resp \<and>
      status_code resp = (if req_target r = ''/'' \<or> req_target r = ''/index.html''
        then HTTP_STATUS_OK else HTTP_STATUS_NOT_FOUND))) \<and>
    (req_class r \<in> {Post_msg, Put_msg, Delete_msg, Patch_msg} \<longrightarrow> MakeResponse date r = Inl (Vector_index 501)) \<and>
    (req_class r = Base_msg \<longrightarrow> MakeResponse date r = Inl (Vector_index 500))"
proof -
  obtain keep where k: "WantKeepAlive r = Inr keep" using WantKeepAlive_total ok by blast
  have m: "MakeResponse date r = MakeOkResponse (req_class r) date r"
    using ok by (simp add: MakeResponse_def IsOk_def)
  have main: "\<exists>resp. make_main_page_response date r omit = Inr resp \<and> status_code resp =
      (if req_target r = ''/'' \<or> req_target r = ''/index.html'' then HTTP_STATUS_OK else HTTP_STATUS_NOT_FOUND)"
    for omit using make_main_page_response_Inr [OF k d, of omit] by blast
  show ?thesis
    using base_resp.faults [OF d k] post_resp.faults [OF d k]
      put_resp.faults [OF d k] delete_resp.faults [OF d k] patch_resp.faults [OF d k]
    unfolding m
    by (cases "req_class r") (simp_all only: MakeOkResponse.simps MakeOkResponse_get_def
        MakeOkResponse_head_def main request_class.distinct, simp_all)
qed

lemma MakeResponse_error:
  assumes e: "IsError r" "error_code r \<notin> {HTTP_STATUS_INTERNAL_SERVER_ERROR, HTTP_STATUS_NOT_IMPLEMENTED}"
    and d: "date_ok date"
  shows "\<exists>resp. MakeResponse date r = Inr resp \<and> status_code resp = error_code r \<and>
    find_header ''Connection'' resp = Some (Str ''close'')"
proof -
  obtain descr where t: "status_text_of (error_code r) = Inr descr"
    using e(2) by (cases "error_code r") auto
  from make_error_response_Inr [OF t WantKeepAlive_error [OF e(1)] d]
  show ?thesis using e(1) d by (auto simp: error_response answers_def WantKeepAlive_error)
qed

lemma MakeResponse_faults:
  assumes "IsError r \<or> fields_ok r" and "date_ok date" and "MakeResponse date r = Inl f"
  shows "f \<in> {Vector_index 500, Vector_index 501}"
proof (cases "IsError r")
  case True
  with assms show ?thesis
    by (cases "error_code r"; use MakeResponse_error [OF True] in \<open>fastforce simp: error_response
        make_error_response_def Let_def\<close>)
next
  case False
  with assms MakeResponse_valid [of r date] show ?thesis
    by (cases "req_class r") (auto simp: IsOk_def)
qed

text \<open>
  The response to a valid \<open>HEAD\<close> request is the one the same request with \<open>GET\<close> gets, less its body.
\<close>

lemma make_page_response_omits:
  assumes "make_page_response date code r title html True = Inr resp" and "WantKeepAlive r' = WantKeepAlive r"
  shows "make_page_response date code r' title html False = Inr (SetBody (get_html_page title html) resp) \<and>
    find_header ''Content-Length'' resp = Some (SizeT (length (get_html_page title html))) \<and> body resp = []"
  using assms by (auto simp: make_page_response_def new_response_def Let_def hdr.get_add split: sum.splits)

lemma main_page_omits:
  assumes "make_main_page_response date r True = Inr resp" and "WantKeepAlive r' = WantKeepAlive r"
    and "req_target r' = req_target r"
  shows "\<exists>page. make_main_page_response date r' False = Inr (SetBody page resp) \<and>
    find_header ''Content-Length'' resp = Some (SizeT (length page)) \<and> body resp = []"
proof (cases "req_target r = ''/'' \<or> req_target r = ''/index.html''")
  case True
  with assms make_page_response_omits [OF _ assms(2)] show ?thesis
    unfolding make_main_page_response_def by (simp only: if_True) blast
next
  case False
  with assms make_page_response_omits [OF _ assms(2)] show ?thesis
    unfolding make_main_page_response_def by (simp only: if_False) blast
qed

definition as_get :: "http_request \<Rightarrow> http_request" where
  "as_get r = r\<lparr>req_method := ''GET'', req_class := Get_msg\<rparr>"

lemma head_like_get:
  assumes "omits_body r" and "MakeResponse date r = Inr resp"
  shows "\<exists>page. MakeResponse date (as_get r) = Inr (SetBody page resp) \<and>
    find_header ''Content-Length'' resp = Some (SizeT (length page)) \<and> body resp = []"
proof -
  have "make_main_page_response date r True = Inr resp" and e: "\<not> IsError r"
    using assms by (auto simp: omits_body_def MakeResponse_def IsOk_def MakeOkResponse_head_def)
  moreover have "WantKeepAlive (as_get r) = WantKeepAlive r" "req_target (as_get r) = req_target r"
    by (simp_all add: as_get_def WantKeepAlive_def IsError_def HasHeader_def GetHeaderValue_def find_header_def
        split: sum.split)
  ultimately obtain page where "make_main_page_response date (as_get r) False = Inr (SetBody page resp)"
    "find_header ''Content-Length'' resp = Some (SizeT (length page))" "body resp = []"
    using main_page_omits by blast
  with e show ?thesis by (auto simp: MakeResponse_def MakeOkResponse_get_def as_get_def IsError_def)
qed

text \<open>The client's end: where the header section ends, the rest is the body.\<close>

lemma show_nat_crlf_free: "crlf_free (show_nat n)"
  by (rule digits_crlf_free [OF show_nat_digits])

lemma status_text_crlf_free: "status_text_of code = Inr text \<Longrightarrow> crlf_free text"
  by (cases code) auto

lemma response_header_end:
  assumes a: "answers r omit resp" and order: "mset (hash_order (headers resp)) = mset (headers resp)"
  shows "drop (find_http_headers_end (Serialize_response hash_order resp))
      (Serialize_response hash_order resp) = body resp"
proof -
  let ?line = "''HTTP/1.1 '' @ show_nat (status_value (status_code resp)) @ '' '' @ status_text resp"
  let ?ls = "?line # header_texts (hash_order (headers resp))"
  have "set (hash_order (headers resp)) = set (headers resp)" using order by (rule mset_eq_setD)
  then have h: "\<forall>l \<in> set (header_texts (hash_order (headers resp))). crlf_free l \<and> l \<noteq> []"
    using a by (intro header_texts_writable) (simp add: answers_def headers_writable_def)
  have "crlf_free (show_nat (status_value (status_code resp)) @ '' '' @ status_text resp)"
    using a status_text_crlf_free show_nat_crlf_free
      crlf_free_join [of "CHR '' ''" "show_nat (status_value (status_code resp))" "status_text resp"]
    by (auto simp: answers_def)
  then have "crlf_free ?line"
    using crlf_free_join [of "CHR '' ''" "''HTTP/1.1''"] by simp
  with h have ls: "\<forall>l \<in> set ?ls. crlf_free l \<and> l \<noteq> []" by simp
  have s: "Serialize_response hash_order resp = lines_text ?ls @ CRLF @ body resp"
    by (simp add: Serialize_response_def SerializeHeadersAndBody_def header_lines_text lines_text_def)
  have e: "find_http_headers_end (lines_text ?ls @ CRLF @ body resp) = length (lines_text ?ls @ CRLF)"
    by (rule headers_end_of_lines [OF ls]) simp
  have d: "drop (length (x @ CRLF)) (x @ CRLF @ b) = b" for x b :: bytes by simp
  show ?thesis unfolding s e by (rule d)
qed

end
