(* ===== verification/Http_Send_Recv.thy ===== *)
theory Http_Send_Recv
  imports Recv_Send Http_Response
begin

text \<open>
  \<open>srv_async/http/srv_http_send_recv.cpp\<close>: receiving one request from the connection's byte
  stream, sending the response, and one round of the conversation with a client. A view into
  the receive buffer is the bytes it shows: nothing is received while it is used.
\<close>

section \<open>The receive buffer\<close>

text \<open>\<open>std::string_view(recv_buf_p + off, n)\<close> and \<open>memmove\<close> within the buffer.\<close>

definition buf_view :: "int \<Rightarrow> int \<Rightarrow> conn_t \<Rightarrow> fault + bytes" where
  "buf_view off n k =
     (if 0 \<le> off \<and> 0 \<le> n \<and> off + n \<le> recv_buf_size k
      then Inr (mem_view (recv_mem k) (nat off) (nat n)) else Inl (Out_of_bounds off))"

definition curr_view :: "int \<Rightarrow> int \<Rightarrow> (resp, srv_state, event, bytes) io" where
  "curr_view off n = io_bind (curr_field (buf_view off n)) lift_fault"

definition buf_move :: "int \<Rightarrow> int \<Rightarrow> (resp, srv_state, event, unit) io" where
  "buf_move off n = io_bind (curr_view off n) (\<lambda>v.
     with_curr (\<lambda>c. modify_st (set_conn c (\<lambda>k. k\<lparr>recv_mem := mem_store 0 v (recv_mem k)\<rparr>))))"

definition set_recv_pos :: "int \<Rightarrow> int \<Rightarrow> (resp, srv_state, event, unit) io" where
  "set_recv_pos n_have n_curr = with_curr (\<lambda>c. modify_st (set_conn c (\<lambda>k.
     k\<lparr>recv_buf_have := n_have, recv_buf_curr := n_curr\<rparr>)))"

section \<open>Receiving a request\<close>

text \<open>The end of \<open>recv_http_hdr\<close>, from \<open>if (!hdr_size)\<close> on.\<close>

definition hdr_finish :: "int \<Rightarrow> int \<Rightarrow> nat \<Rightarrow> (resp, srv_state, event, bytes) io" where
  "hdr_finish n_curr n_have hdr_size =
     io_bind (if hdr_size = 0
              then io_bind (curr_view n_curr (n_have - n_curr)) (\<lambda>v. ret (find_http_headers_end v))
              else ret hdr_size) (\<lambda>hdr_size.
     io_then (set_recv_pos n_have (n_curr + int hdr_size))
       (if hdr_size \<noteq> 0 then curr_view n_curr (int hdr_size) else ret []))"

definition recv_http_hdr :: "(resp, srv_state, event, bytes) io" where
  "recv_http_hdr =
     io_bind (curr_field recv_buf_size) (\<lambda>recv_buf_size.
     io_bind (curr_field recv_buf_have) (\<lambda>n_have.
     io_bind (curr_field recv_buf_curr) (\<lambda>n_curr.
       if n_curr \<noteq> n_have
       then io_bind (curr_view n_curr (n_have - n_curr)) (\<lambda>v.
         if find_http_headers_end v = 0
         then io_then (buf_move n_curr (n_have - n_curr))
           (io_bind (recv_from_curr_conn (recv_buf_size - (n_have - n_curr)) (n_have - n_curr)
                TIMEOUT_INF True) (\<lambda>count.
              if count \<le> 0 then ret [] else hdr_finish 0 (n_have - n_curr + count) 0))
         else hdr_finish n_curr n_have (find_http_headers_end v))
       else io_bind (recv_from_curr_conn recv_buf_size 0 TIMEOUT_INF True) (\<lambda>count.
         if count \<le> 0 then ret [] else hdr_finish 0 count 0))))"

text \<open>\<open>recv_http_msg\<close> from the header section to the request without its body.\<close>

definition request_of_header :: "bytes \<Rightarrow> http_request" where
  "request_of_header http_hdr =
     (if length http_hdr > MAX_HTTP_HDR_SIZE then error_request HTTP_STATUS_HEADER_FIELDS_TOO_LARGE
      else let req = Create (get_method_token http_hdr) in
        if IsOk req then ParseRequestHeader http_hdr req else req)"

definition body_loop :: "int \<Rightarrow> int \<Rightarrow> int \<times> http_request \<Rightarrow>
    (resp, srv_state, event, int \<times> http_request + http_request option) io" where
  "body_loop buf_size body_len l =
     (case l of (got_len, req) \<Rightarrow>
       if \<not> got_len < body_len then ret (Inr (Some req))
       else let to_recv = min (body_len - got_len) buf_size in
         io_bind (recv_from_curr_conn to_recv 0 CLIENT_OP_TIMEOUT False) (\<lambda>count.
         if count \<noteq> to_recv then ret (Inr None)
         else io_bind (curr_view 0 count) (\<lambda>chunk.
           io_then cond_swap_to_main_ctx (ret (Inl (got_len + count, AppendBody chunk req))))))"

definition recv_http_body :: "http_request \<Rightarrow> (resp, srv_state, event, http_request option) io" where
  "recv_http_body req =
     io_bind (curr_field recv_buf_size) (\<lambda>recv_buf_size.
     io_bind (curr_field recv_buf_have) (\<lambda>n_have.
     io_bind (curr_field recv_buf_curr) (\<lambda>n_curr.
     io_bind (lift_fault (AsSizeT (GetHeaderValue ''Content-Length'' req))) (\<lambda>len.
       let body_len = int len;
           got_len = min (n_have - n_curr) body_len in
       io_bind (curr_view n_curr got_len) (\<lambda>chunk.
       io_then (if n_curr + got_len = n_have then set_recv_pos 0 0
                else set_recv_pos n_have (n_curr + got_len))
         (io_loop (body_loop recv_buf_size body_len) (got_len, AppendBody chunk req)))))))"

definition recv_http_msg :: "(resp, srv_state, event, http_request option) io" where
  "recv_http_msg =
     io_bind recv_http_hdr (\<lambda>http_hdr.
       if http_hdr = [] then ret None
       else let req = request_of_header http_hdr in
         if IsOk req \<and> MethodHasBody (get_method_token http_hdr)
         then recv_http_body req
         else ret (Some req))"

section \<open>Sending the response\<close>

definition send_msg_loop :: "bytes \<Rightarrow> int \<Rightarrow> (resp, srv_state, event, int + int) io" where
  "send_msg_loop msg pos =
     (let size = int (length msg) in
      if \<not> pos < size then ret (Inr size)
      else let to_send = min SEND_PACKET_SIZE (size - pos) in
        io_bind (send_to_curr_conn (drop (nat pos) msg) to_send CLIENT_OP_TIMEOUT) (\<lambda>count.
        if count \<noteq> to_send then ret (Inr 0)
        else io_then cond_swap_to_main_ctx (ret (Inl (pos + to_send)))))"

definition send_http_msg :: "(header_map \<Rightarrow> header_map) \<Rightarrow> http_response \<Rightarrow> (resp, srv_state, event, int) io" where
  "send_http_msg hash_order resp = io_loop (send_msg_loop (Serialize_response hash_order resp)) 0"

text \<open>
  \<open>format_date_hdr\<close> reads the clock; that the formatted date has no line break and no blank at
  its ends is documented behaviour of \<open>strftime\<close> for this format.
\<close>

definition format_date_hdr :: "(resp, srv_state, event, string) io" where
  "format_date_hdr = io_bind (answer Wait) (\<lambda>r. case r of
     R_date date \<Rightarrow> if date_ok date then ret date else stop_with Mismatch
   | _ \<Rightarrow> stop_with Mismatch)"

definition handle_one_client_request :: "(header_map \<Rightarrow> header_map) \<Rightarrow> (resp, srv_state, event, bool) io" where
  "handle_one_client_request hash_order =
     io_bind recv_http_msg (\<lambda>r. case r of
       None \<Rightarrow> ret False
     | Some req \<Rightarrow>
         io_bind format_date_hdr (\<lambda>date.
         io_bind (lift_fault (MakeResponse date req)) (\<lambda>resp.
         io_bind (send_http_msg hash_order resp) (\<lambda>count.
         if count \<le> 0 then ret False
         else io_bind (lift_fault (WantKeepAlive req)) (\<lambda>keep.
           if \<not> keep then ret False
           else io_then cond_swap_to_main_ctx (ret True))))))"

section \<open>The byte stream of a connection\<close>

text \<open>
  \<open>stream P R S\<close>: the bytes \<open>P\<close> are received but not used yet, \<open>R\<close> is all that was received
  and \<open>S\<close> all that was sent; \<open>traffic R S\<close> says nothing about the buffer.
\<close>

definition stream :: "bytes \<Rightarrow> bytes \<Rightarrow> bytes \<Rightarrow> conn_t \<Rightarrow> event list \<Rightarrow> bool" where
  "stream P R S k t \<longleftrightarrow>
     mem_view (recv_mem k) (nat (recv_buf_curr k)) (nat (recv_buf_have k - recv_buf_curr k)) = P \<and>
     recvd t = R \<and> sent t = S"

definition traffic :: "bytes \<Rightarrow> bytes \<Rightarrow> conn_t \<Rightarrow> event list \<Rightarrow> bool" where
  "traffic R S k t \<longleftrightarrow> (\<exists>d. recvd t = R @ d) \<and> sent t = S"

lemma stream_yield [simp]: "stream P R S k (t @ [Ev_yield n]) = stream P R S k t"
  by (simp add: stream_def)

lemma traffic_yield [simp]: "traffic R S k (t @ [Ev_yield n]) = traffic R S k t"
  by (simp add: traffic_def)

lemma recv_result_traffic: "recv_result m h u R S off room r k t \<Longrightarrow> traffic R S k t"
  by (auto simp: recv_result_def recv_state_def co_view_def traffic_def)

lemma recv_result_bounds: "recv_result m h u R S off room r k t \<Longrightarrow> r \<le> room"
  by (auto simp: recv_result_def dest: recv_state_bounds)

lemma recv_result_got:
  "recv_result m h u R S off room r k t \<Longrightarrow> 0 \<le> r \<Longrightarrow>
    \<exists>d. co_view (mem_store (nat off) d m) h u (R @ d) S k t \<and> r = int (length d) \<and> r \<le> room"
  by (auto simp: recv_result_def recv_state_def)

declare take_append [simp del] drop_append [simp del]

lemma mem_view_take: "n \<le> m \<Longrightarrow> mem_view f off n = take n (mem_view f off m)"
  by (auto simp: mem_view_def take_map)

lemma mem_view_drop: "mem_view f (off + n) (m - n) = drop n (mem_view f off m)"
  by (auto simp: mem_view_def drop_map add.assoc intro!: nth_equalityI)

lemma mem_view_store_after:
  "length a = n \<Longrightarrow> mem_view (mem_store n d (mem_store 0 a m)) 0 (n + length d) = a @ d"
  using mem_store_append [of 0 a d m] mem_view_store [of 0 "a @ d" m] by simp

context coroutine_state
begin

lemma co_positions:
  assumes "\<And>size h u. co c J
      (\<lambda>k t. A k t \<and> size = recv_buf_size k \<and> h = recv_buf_have k \<and> u = recv_buf_curr k) (f size h u) B"
  shows "co c J A (io_bind (curr_field recv_buf_size) (\<lambda>size. io_bind (curr_field recv_buf_have) (\<lambda>h.
    io_bind (curr_field recv_buf_curr) (\<lambda>u. f size h u)))) B"
proof (rule co_bind)
  let ?S = "\<lambda>size k t. A k t \<and> size = recv_buf_size k"
  show "co c J A (curr_field recv_buf_size) ?S" by (rule co_curr_field) simp
  show "co c J (?S size) (io_bind (curr_field recv_buf_have) (\<lambda>h.
    io_bind (curr_field recv_buf_curr) (\<lambda>u. f size h u))) B" for size
  proof (rule co_bind)
    let ?H = "\<lambda>h k t. ?S size k t \<and> h = recv_buf_have k"
    show "co c J (?S size) (curr_field recv_buf_have) ?H" by (rule co_curr_field) simp
    show "co c J (?H h) (io_bind (curr_field recv_buf_curr) (\<lambda>u. f size h u)) B" for h
      by (rule co_bind [OF co_curr_field assms]) auto
  qed
qed

lemma co_curr_view:
  assumes "\<And>k t. layout_ok k \<Longrightarrow> A k t \<Longrightarrow> 0 \<le> off \<and> 0 \<le> n \<and> off + n \<le> recv_buf_size k"
    and "\<And>k t. layout_ok k \<Longrightarrow> A k t \<Longrightarrow> B (mem_view (recv_mem k) (nat off) (nat n)) k t"
  shows "co c J A (curr_view off n) B"
  unfolding curr_view_def
  by (rule co_bind [OF co_curr_field [where B = "\<lambda>v k t. A k t \<and> v = buf_view off n k"] co_lift_fault])
    (use assms in \<open>fastforce simp: buf_view_def\<close>)+

lemma co_buf_move:
  assumes "\<And>k t. layout_ok k \<Longrightarrow> A k t \<Longrightarrow> 0 \<le> off \<and> 0 \<le> n \<and> off + n \<le> recv_buf_size k"
    and "\<And>k t. layout_ok k \<Longrightarrow> A k t \<Longrightarrow>
      B () (k\<lparr>recv_mem := mem_store 0 (mem_view (recv_mem k) (nat off) (nat n)) (recv_mem k)\<rparr>) t"
  shows "co c J A (buf_move off n) B"
  unfolding buf_move_def
proof (rule co_bind)
  let ?M = "\<lambda>v k t. A k t \<and> v = mem_view (recv_mem k) (nat off) (nat n)"
  show "co c J A (curr_view off n) ?M" by (rule co_curr_view) (use assms in auto)
  show "co c J (?M v) (with_curr (\<lambda>c. modify_st (set_conn c (\<lambda>k. k\<lparr>recv_mem := mem_store 0 v (recv_mem k)\<rparr>)))) B"
    for v by (rule co_with_curr, rule co_set_conn) (use assms in \<open>auto simp: same_footprint_def\<close>)
qed

lemma co_set_recv_pos:
  assumes "\<And>k t. layout_ok k \<Longrightarrow> A k t \<Longrightarrow> 0 \<le> u \<and> u \<le> h \<and> h \<le> recv_buf_size k \<and>
      B () (k\<lparr>recv_buf_have := h, recv_buf_curr := u\<rparr>) t"
  shows "co c J A (set_recv_pos h u) B"
  unfolding set_recv_pos_def
  by (rule co_with_curr, rule co_set_conn) (use assms in \<open>auto simp: same_footprint_def layout_ok_def\<close>)

text \<open>
  The end of \<open>recv_http_hdr\<close>: with the bytes \<open>V\<close> between the two positions, the header section
  is cut off \<open>V\<close>, or there is none.
\<close>

definition hdr_result :: "bytes \<Rightarrow> bytes \<Rightarrow> bytes \<Rightarrow> bytes \<Rightarrow> conn_t \<Rightarrow> event list \<Rightarrow> bool" where
  "hdr_result P R S hdr k t \<longleftrightarrow>
     (if hdr = [] then traffic R S k t
      else \<exists>d P'. P @ d = hdr @ P' \<and> find_http_headers_end (P @ d) = length hdr \<and> stream P' (R @ d) S k t)"

lemma co_hdr_finish:
  assumes pos: "0 \<le> u" "u \<le> h" "h \<le> RECV_BUF_SIZE"
    and hs: "hs = 0 \<or> hs = find_http_headers_end V"
  shows "co c J
     (\<lambda>k t. mem_view (recv_mem k) (nat u) (nat (h - u)) = V \<and> recvd t = R' \<and> sent t = S)
     (hdr_finish u h hs)
     (\<lambda>hdr k t. recvd t = R' \<and> sent t = S \<and> hdr = take (find_http_headers_end V) V \<and>
        (hdr \<noteq> [] \<longrightarrow> stream (drop (find_http_headers_end V) V) R' S k t))" (is "co c J ?A _ ?B")
proof -
  let ?n = "find_http_headers_end V"
  have find: "co c J ?A (if hs = 0 then io_bind (curr_view u (h - u)) (\<lambda>v. ret (find_http_headers_end v))
      else ret hs) (\<lambda>n k t. ?A k t \<and> n = ?n)"
  proof (rule co_if)
    show "co c J ?A (io_bind (curr_view u (h - u)) (\<lambda>v. ret (find_http_headers_end v))) (\<lambda>n k t. ?A k t \<and> n = ?n)"
      by (rule co_bind [OF co_curr_view [where B = "\<lambda>v k t. ?A k t \<and> v = V"] co_ret])
        (use pos in \<open>auto simp: layout_ok_def\<close>)
    assume "hs \<noteq> 0"
    with hs show "co c J ?A (ret hs) (\<lambda>n k t. ?A k t \<and> n = ?n)" by (intro co_ret) auto
  qed
  have rest: "co c J (\<lambda>k t. ?A k t \<and> n = ?n)
      (io_then (set_recv_pos h (u + int n)) (if n \<noteq> 0 then curr_view u (int n) else ret [])) ?B" for n
  proof (rule co_pure)
    assume n: "n = ?n"
    have le: "?n \<le> length V" by (rule headers_end_bound)
    let ?M = "\<lambda>k t. ?A k t \<and> length V = nat (h - u) \<and> recv_buf_have k = h \<and> recv_buf_curr k = u + int n"
    have set: "co c J ?A (set_recv_pos h (u + int n)) (\<lambda>_. ?M)"
      by (rule co_set_recv_pos) (use le n pos in \<open>auto simp: layout_ok_def\<close>)
    have view: "co c J ?M (if n \<noteq> 0 then curr_view u (int n) else ret []) ?B"
    proof (rule co_if)
      assume "n \<noteq> 0"
      show "co c J ?M (curr_view u (int n)) ?B"
      proof (rule co_curr_view)
        fix k t assume l: "layout_ok k" and M: "?M k t"
        then show "0 \<le> u \<and> 0 \<le> int n \<and> u + int n \<le> recv_buf_size k"
          using le n pos by (auto simp: layout_ok_def)
        have a: "nat (u + int n) = nat u + n" "nat (h - (u + int n)) = nat (h - u) - n"
          using pos by (simp_all add: nat_add_distrib nat_diff_distrib)
        have "stream (drop ?n V) R' S k t"
          using M n a mem_view_drop [of "recv_mem k" "nat u" n "nat (h - u)"] by (simp add: stream_def)
        moreover have "mem_view (recv_mem k) (nat u) (nat (int n)) = take ?n V"
          using M n le mem_view_take [of n "nat (h - u)" "recv_mem k" "nat u"] by auto
        ultimately show "?B (mem_view (recv_mem k) (nat u) (nat (int n))) k t" using M by simp
      qed
    next
      assume "\<not> n \<noteq> 0"
      with n show "co c J ?M (ret []) ?B" by (intro co_ret) auto
    qed
    show "co c J ?A (io_then (set_recv_pos h (u + int n)) (if n \<noteq> 0 then curr_view u (int n) else ret [])) ?B"
      by (rule co_then [OF set view])
  qed
  show ?thesis unfolding hdr_finish_def by (rule co_bind [OF find rest])
qed

text \<open>\<open>recv_from_curr_conn\<close> appending to the bytes \<open>P\<close> at the start of the buffer.\<close>

lemma co_recv_append:
  assumes P: "int (length P) + room \<le> RECV_BUF_SIZE" "0 \<le> room"
  shows "co c J (\<lambda>k t. mem_view (recv_mem k) 0 (length P) = P \<and> recvd t = R \<and> sent t = S \<and>
       recv_buf_have k = h \<and> recv_buf_curr k = u)
     (recv_from_curr_conn room (int (length P)) timeout terminator)
     (\<lambda>count k t. traffic R S k t \<and> count \<le> room \<and>
        (0 \<le> count \<longrightarrow> (\<exists>d. mem_view (recv_mem k) 0 (nat (int (length P) + count)) = P @ d \<and>
           int (length d) = count \<and> recvd t = R @ d \<and> sent t = S \<and>
           recv_buf_have k = h \<and> recv_buf_curr k = u)))" (is "co c J ?A ?m ?B")
proof (rule co_pre)
  let ?P = "\<lambda>m. mem_view m 0 (length P) = P"
  show "co c J (\<lambda>k t. \<exists>m. co_view m h u R S k t \<and> ?P m) ?m ?B"
  proof (rule co_ex, rule co_pure)
    fix m assume m: "?P m"
    have "?B count k t" if r: "recv_result m h u R S (int (length P)) room count k t" for count k t
    proof (intro conjI impI)
      show "traffic R S k t" "count \<le> room"
        using recv_result_traffic [OF r] recv_result_bounds [OF r] by auto
      assume "0 \<le> count"
      from recv_result_got [OF r this] obtain d where
        d: "co_view (mem_store (length P) d m) h u (R @ d) S k t" "count = int (length d)" by auto
      have "mem_view (mem_store (length P) d m) 0 (length P + length d) = P @ d"
        using m mem_view_store_before [of 0 "length P" "length P" d m] mem_view_store [of "length P" d m]
        by (simp add: mem_view_append)
      with d show "\<exists>d. mem_view (recv_mem k) 0 (nat (int (length P) + count)) = P @ d \<and>
           int (length d) = count \<and> recvd t = R @ d \<and> sent t = S \<and>
           recv_buf_have k = h \<and> recv_buf_curr k = u"
        by (auto simp: co_view_def nat_int_add)
    qed
    with P show "co c J (co_view m h u R S) ?m ?B"
      by (intro co_conseq [OF co_recv_from [where m = m and h = h and u = u and R = R and S = S]]) auto
  qed
qed (auto simp: co_view_def)

lemma hdr_result_cut:
  assumes "recvd t = R @ d \<and> sent t = S \<and> hdr = take (find_http_headers_end (P @ d)) (P @ d) \<and>
    (hdr \<noteq> [] \<longrightarrow> stream (drop (find_http_headers_end (P @ d)) (P @ d)) (R @ d) S k t)"
  shows "hdr_result P R S hdr k t"
proof (cases "hdr = []")
  case True
  with assms show ?thesis by (auto simp: hdr_result_def traffic_def)
next
  case False
  let ?n = "find_http_headers_end (P @ d)"
  have "length hdr = ?n" using assms headers_end_bound [of "P @ d"] by simp
  moreover have "P @ d = hdr @ drop ?n (P @ d)" using assms by simp
  moreover have "stream (drop ?n (P @ d)) (R @ d) S k t" using False assms by simp
  ultimately have "\<exists>d P'. P @ d = hdr @ P' \<and> find_http_headers_end (P @ d) = length hdr \<and> stream P' (R @ d) S k t"
    by (intro exI [of _ d] exI [of _ "drop ?n (P @ d)"]) simp
  with False show ?thesis by (simp add: hdr_result_def)
qed

lemma co_hdr_cut:
  assumes "0 \<le> u" "u \<le> h" "h \<le> RECV_BUF_SIZE" "hs = 0 \<or> hs = find_http_headers_end (P @ d)"
  shows "co c J (\<lambda>k t. mem_view (recv_mem k) (nat u) (nat (h - u)) = P @ d \<and> recvd t = R @ d \<and> sent t = S)
    (hdr_finish u h hs) (hdr_result P R S)"
  by (rule co_conseq [OF co_hdr_finish [OF assms]]) (assumption, erule hdr_result_cut)

lemma co_recv_then_finish:
  assumes P: "int (length P) + room \<le> RECV_BUF_SIZE" "0 \<le> room"
  shows "co c J (\<lambda>k t. mem_view (recv_mem k) 0 (length P) = P \<and> recvd t = R \<and> sent t = S \<and>
       recv_buf_have k = h \<and> recv_buf_curr k = u)
     (io_bind (recv_from_curr_conn room (int (length P)) TIMEOUT_INF True) (\<lambda>count.
        if count \<le> 0 then ret [] else hdr_finish 0 (int (length P) + count) 0))
     (hdr_result P R S)"
proof (rule co_bind [OF co_recv_append [OF P]], rule co_if)
  fix count :: int
  let ?B = "\<lambda>d k t. mem_view (recv_mem k) 0 (nat (int (length P) + count)) = P @ d \<and>
     int (length d) = count \<and> recvd t = R @ d \<and> sent t = S \<and> recv_buf_have k = h \<and> recv_buf_curr k = u"
  let ?A = "\<lambda>k t. traffic R S k t \<and> count \<le> room \<and> (0 \<le> count \<longrightarrow> (\<exists>d. ?B d k t))"
  show "co c J ?A (ret []) (hdr_result P R S)"
    by (rule co_ret) (simp add: hdr_result_def)
  assume c: "\<not> count \<le> 0"
  show "co c J ?A (hdr_finish 0 (int (length P) + count) 0) (hdr_result P R S)"
  proof (rule co_pre)
    show "co c J (\<lambda>k t. \<exists>d. (mem_view (recv_mem k) (nat 0) (nat (int (length P) + count - 0)) = P @ d \<and>
        recvd t = R @ d \<and> sent t = S) \<and> count \<le> room)
      (hdr_finish 0 (int (length P) + count) 0) (hdr_result P R S)"
      by (rule co_ex, rule co_pure, rule co_hdr_cut) (use P c in auto)
  qed (use c in auto)
qed

lemma co_recv_http_hdr: "co c J (stream P R S) recv_http_hdr (hdr_result P R S)"
  unfolding recv_http_hdr_def
proof (rule co_positions, rule co_pre)
  fix size h u
  let ?A = "\<lambda>k t. mem_view (recv_mem k) (nat u) (nat (h - u)) = P \<and> recvd t = R \<and> sent t = S \<and>
      recv_buf_have k = h \<and> recv_buf_curr k = u"
  let ?p = "size = RECV_BUF_SIZE \<and> 0 \<le> u \<and> u \<le> h \<and> h \<le> RECV_BUF_SIZE \<and> int (length P) = h - u"
  show "co c J (\<lambda>k t. ?A k t \<and> ?p)
    (if u \<noteq> h
     then io_bind (curr_view u (h - u)) (\<lambda>v.
       if find_http_headers_end v = 0
       then io_then (buf_move u (h - u))
         (io_bind (recv_from_curr_conn (size - (h - u)) (h - u) TIMEOUT_INF True) (\<lambda>count.
            if count \<le> 0 then ret [] else hdr_finish 0 (h - u + count) 0))
       else hdr_finish u h (find_http_headers_end v))
     else io_bind (recv_from_curr_conn size 0 TIMEOUT_INF True) (\<lambda>count.
       if count \<le> 0 then ret [] else hdr_finish 0 count 0)) (hdr_result P R S)"
  proof (rule co_pure, rule co_if)
    assume p: ?p and ne: "u \<noteq> h"
    have len: "h - u = int (length P)" using p by simp
    show "co c J ?A (io_bind (curr_view u (h - u)) (\<lambda>v.
       if find_http_headers_end v = 0
       then io_then (buf_move u (h - u))
         (io_bind (recv_from_curr_conn (size - (h - u)) (h - u) TIMEOUT_INF True) (\<lambda>count.
            if count \<le> 0 then ret [] else hdr_finish 0 (h - u + count) 0))
       else hdr_finish u h (find_http_headers_end v))) (hdr_result P R S)"
    proof (rule co_bind [OF co_curr_view [where B = "\<lambda>v k t. ?A k t \<and> v = P"]], goal_cases)
      case (3 v)
      show ?case
      proof (rule co_pure, rule co_if)
        show "co c J ?A (io_then (buf_move u (h - u))
         (io_bind (recv_from_curr_conn (size - (h - u)) (h - u) TIMEOUT_INF True) (\<lambda>count.
            if count \<le> 0 then ret [] else hdr_finish 0 (h - u + count) 0))) (hdr_result P R S)"
          unfolding len
          by (rule co_then [OF co_buf_move co_recv_then_finish])
            (use p mem_view_store [of 0 P] in \<open>auto simp: layout_ok_def\<close>)
        assume "v = P"
        then show "co c J ?A (hdr_finish u h (find_http_headers_end v)) (hdr_result P R S)"
          by (intro co_pre [OF co_hdr_cut [where d = "[]"]]) (use p in auto)
      qed
    qed (use p in \<open>auto simp: layout_ok_def\<close>)
  next
    assume p: ?p and "\<not> u \<noteq> h"
    then have P: "P = []" using p by simp
    have fin: "co c J (\<lambda>k t. mem_view (recv_mem k) 0 0 = [] \<and> recvd t = R \<and> sent t = S \<and>
        recv_buf_have k = h \<and> recv_buf_curr k = u)
      (io_bind (recv_from_curr_conn size 0 TIMEOUT_INF True) (\<lambda>count.
        if count \<le> 0 then ret [] else hdr_finish 0 count 0)) (hdr_result P R S)"
      using co_recv_then_finish [of "[]" size R S h u] p P
      by (simp add: srv_consts cong: if_cong)
    show "co c J ?A (io_bind (recv_from_curr_conn size 0 TIMEOUT_INF True) (\<lambda>count.
       if count \<le> 0 then ret [] else hdr_finish 0 count 0)) (hdr_result P R S)"
      by (rule co_pre [OF fin]) (auto simp: mem_view_def)
  qed
qed (auto simp: stream_def layout_ok_def)

end

section \<open>The requests the parser hands on\<close>

lemma AppendBody_request [simp]:
  "IsOk (AppendBody b r) = IsOk r" "IsError (AppendBody b r) = IsError r"
  "fields_ok (AppendBody b r) = fields_ok r" "AppendBody b (AppendBody a r) = AppendBody (a @ b) r"
  "req_method (AppendBody b r) = req_method r" "req_class (AppendBody b r) = req_class r"
  "req_target (AppendBody b r) = req_target r"
  by (simp_all add: AppendBody_def IsOk_def IsError_def fields_ok_def)

lemma AppendBody_Nil [simp]: "AppendBody [] r = (r :: http_request)"
  by (simp add: AppendBody_def)

lemma Create_cases:
  "(IsError (Create m) \<and> fields_ok (Create m)) \<or>
   (IsOk (Create m) \<and> error_code (Create m) = HTTP_STATUS_NONE \<and> headers (Create m) = [] \<and>
     body (Create m) = [] \<and> map_of methods_info m = Some (req_class (Create m), MethodHasBody m))"
  by (auto simp: Create_def MethodHasBody_def new_request_def error_request_method_def IsError_def
      IsOk_def fields_ok_def split: option.split)

lemma method_token:
  assumes "take i buf = m @ '' '' @ u" and "CHR '' '' \<notin> set m"
  shows "get_method_token buf = m"
proof -
  have "buf = m @ CHR '' '' # u @ drop i buf"
    using assms(1) append_take_drop_id [of i buf] by simp
  then have "find_char (CHR '' '') buf = Some (length m)"
    using find_char_append_notin [OF assms(2), of "u @ drop i buf"] by simp
  then show ?thesis
    using \<open>buf = _\<close> by (simp add: get_method_token_def) (metis append_eq_conv_conj)
qed

lemma request_of_header_valid:
  assumes ok: "IsOk (request_of_header hdr)"
  shows "request_ok (request_of_header hdr) \<and> writable (request_of_header hdr) \<and>
    req_method (request_of_header hdr) = get_method_token hdr \<and> body (request_of_header hdr) = [] \<and>
    map_of methods_info (get_method_token hdr) =
      Some (req_class (request_of_header hdr), MethodHasBody (get_method_token hdr))"
proof -
  let ?c = "Create (get_method_token hdr)"
  have c: "IsOk ?c" and r: "request_of_header hdr = ParseRequestHeader hdr ?c"
    using ok by (auto simp: request_of_header_def Let_def error_request_def IsOk_def IsError_def
        split: if_splits)
  with Create_cases [of "get_method_token hdr"] have h: "headers ?c = []" "body ?c = []"
    and m: "map_of methods_info (get_method_token hdr) = Some (req_class ?c, MethodHasBody (get_method_token hdr))"
    by (auto simp: IsOk_def)
  have ok': "IsOk (ParseRequestHeader hdr ?c)" using ok r by simp
  have "req_method (ParseRequestHeader hdr ?c) = get_method_token hdr"
    using ok' h(1)
    by (rule ParseRequestHeader_ok) (use method_token [of _ hdr] in \<open>auto simp: same_line_def\<close>)
  with r h m parse_request_ok [OF ok' h(1)] parsed_writable [OF ok' h(1)] parse_keeps_class [OF h(1), of hdr]
  show ?thesis by simp
qed

lemma ParseRequestHeader_fields:
  "headers r = [] \<Longrightarrow> IsError (ParseRequestHeader buf r) \<or> fields_ok (ParseRequestHeader buf r)"
  using parse_request_ok [of buf r] by (auto simp: IsOk_def request_ok_def)

lemma request_of_header_sound: "IsError (request_of_header hdr) \<or> fields_ok (request_of_header hdr)"
  using request_of_header_valid [of hdr] by (auto simp: IsOk_def request_ok_def)

lemma ParseRequestHeader_codes:
  "error_code (ParseRequestHeader buf r) \<in> {error_code r, HTTP_STATUS_BAD_REQUEST,
     HTTP_STATUS_PAYLOAD_TOO_LARGE, HTTP_STATUS_LENGTH_REQUIRED}"
proof -
  have f: "error_code r' \<in> {error_code r, HTTP_STATUS_BAD_REQUEST, HTTP_STATUS_PAYLOAD_TOO_LARGE}"
    if "parse_field l r = Inl r' \<or> parse_field l r = Inr r'" for l r r'
    using that by (auto simp: parse_field_def parse_content_length_def Let_def
        split: if_splits option.splits sum.splits)
  have fs: "error_code r' \<in> {error_code r, HTTP_STATUS_BAD_REQUEST, HTTP_STATUS_PAYLOAD_TOO_LARGE}"
    if "parse_fields p r = Inl r' \<or> parse_fields p r = Inr r'" for p r r'
    using that
  proof (induction p r rule: parse_fields.induct)
    case (1 p r)
    show ?case
    proof (cases "p = [] \<or> find_sub CRLF p = None")
      case True
      then have "parse_fields p r = Inr r \<or> parse_fields p r = Inl (SetErrorCode HTTP_STATUS_BAD_REQUEST r)"
        by (subst (1 2) parse_fields.simps) auto
      with 1(2) show ?thesis by auto
    next
      case False
      then obtain i where i: "p \<noteq> []" "find_sub CRLF p = Some i" by auto
      show ?thesis
      proof (cases "parse_field (take i p) r")
        case (Inl a)
        then have "parse_fields p r = Inl a" using i by (subst parse_fields.simps) simp
        with 1(2) Inl f [of "take i p" r a] show ?thesis by auto
      next
        case (Inr a)
        have "parse_fields p r = parse_fields (drop (min (i + length CRLF) (length p)) p) a"
          using i Inr by (subst parse_fields.simps) simp
        with 1(1) [OF i Inr] 1(2) f [of "take i p" r a] Inr show ?thesis by auto
      qed
    qed
  qed
  show ?thesis
  proof (cases "find_sub CRLF buf")
    case (Some i)
    show ?thesis
    proof (cases "parse_request_line (take i buf) r")
      case (Inl a)
      then have "a = SetErrorCode HTTP_STATUS_BAD_REQUEST r"
        by (auto simp: parse_request_line_def Let_def split: option.splits if_splits)
      with Some Inl show ?thesis by (simp add: ParseRequestHeader_def)
    next
      case (Inr a)
      then have e: "error_code a = error_code r" using parse_request_line_cases [of "take i buf" r] by auto
      show ?thesis
        using fs [of "drop (i + length CRLF) buf" a] e Some Inr
        by (cases "parse_fields (drop (i + length CRLF) buf) a") (auto simp: ParseRequestHeader_def)
    qed
  qed (simp add: ParseRequestHeader_def)
qed

lemma request_of_header_code:
  "error_code (request_of_header hdr) = HTTP_STATUS_HEADER_FIELDS_TOO_LARGE \<longleftrightarrow> length hdr > MAX_HTTP_HDR_SIZE"
  "error_code (request_of_header hdr) = HTTP_STATUS_METHOD_NOT_ALLOWED \<longleftrightarrow>
    length hdr \<le> MAX_HTTP_HDR_SIZE \<and> map_of methods_info (get_method_token hdr) = None"
  using ParseRequestHeader_codes [of hdr "Create (get_method_token hdr)"] Create_cases [of "get_method_token hdr"]
  by (auto simp: request_of_header_def Let_def error_request_def Create_def new_request_def
      error_request_method_def IsOk_def IsError_def split: option.splits)

lemma request_of_header_codes:
  "error_code (request_of_header hdr) \<in> {HTTP_STATUS_NONE, HTTP_STATUS_BAD_REQUEST,
     HTTP_STATUS_METHOD_NOT_ALLOWED, HTTP_STATUS_LENGTH_REQUIRED, HTTP_STATUS_PAYLOAD_TOO_LARGE,
     HTTP_STATUS_HEADER_FIELDS_TOO_LARGE}"
  using ParseRequestHeader_codes [of hdr "Create (get_method_token hdr)"] Create_cases [of "get_method_token hdr"]
  by (auto simp: request_of_header_def Let_def error_request_def Create_def new_request_def
      error_request_method_def IsOk_def IsError_def split: option.splits)

text \<open>The number of body bytes a header section announces.\<close>

definition declared_length :: "http_request \<Rightarrow> nat" where
  "declared_length r =
     (if IsOk r \<and> MethodHasBody (req_method r)
      then (case find_header ''Content-Length'' r of Some (SizeT n) \<Rightarrow> n | _ \<Rightarrow> 0) else 0)"

lemma declared_header:
  assumes "IsOk (request_of_header hdr)" and "MethodHasBody (get_method_token hdr)"
  shows "AsSizeT (GetHeaderValue ''Content-Length'' (request_of_header hdr)) =
      Inr (declared_length (request_of_header hdr))" and "declared_length (request_of_header hdr) \<le> MAX_HTTP_BODY_SIZE"
proof -
  let ?r = "request_of_header hdr"
  have ok: "request_ok ?r" and m: "req_method ?r = get_method_token hdr"
    using request_of_header_valid [OF assms(1)] by auto
  then obtain v where v: "map_of (headers ?r) ''content-length'' = Some v"
    using assms(2) by (auto simp: request_ok_def HasHeader_def)
  then have "field_ok (req_method ?r) (''content-length'', v)"
    using ok by (auto simp: request_ok_def fields_ok_def dest: map_of_SomeD)
  then obtain n where n: "v = SizeT n" "n \<le> MAX_HTTP_BODY_SIZE" by (cases v) (auto simp: field_ok_def)
  with v assms m show "AsSizeT (GetHeaderValue ''Content-Length'' ?r) = Inr (declared_length ?r)"
    and "declared_length ?r \<le> MAX_HTTP_BODY_SIZE"
    by (simp_all add: declared_length_def GetHeaderValue_find find_header_def)
qed

end
