(* ===== verification/Http_Exchange.thy ===== *)
theory Http_Exchange
  imports Http_Send_Recv
begin

text \<open>
  The conversation of one connection with its client, over the byte stream: a request is the
  next header section with exactly the body it announces; the response sent is the one made for
  it; requests are answered in the order they arrive, also when they are pipelined.
\<close>

section \<open>The contract of one exchange\<close>

text \<open>\<open>request_in bs req\<close>: the bytes \<open>bs\<close> are one request, and \<open>req\<close> is what is made of them.\<close>

definition request_in :: "bytes \<Rightarrow> http_request \<Rightarrow> bool" where
  "request_in bs req \<longleftrightarrow>
     (let n = find_http_headers_end bs; r = request_of_header (take n bs) in
      n \<noteq> 0 \<and> length bs = n + declared_length r \<and> req = AppendBody (drop n bs) r)"

definition answer_to :: "(header_map \<Rightarrow> header_map) \<Rightarrow> http_request \<Rightarrow> bytes \<Rightarrow> bool" where
  "answer_to hash_order req out \<longleftrightarrow>
     (\<exists>date resp. date_ok date \<and> MakeResponse date req = Inr resp \<and> out = Serialize_response hash_order resp)"

definition exchange :: "(header_map \<Rightarrow> header_map) \<Rightarrow> bytes \<Rightarrow> bytes \<Rightarrow> bool \<Rightarrow> bool" where
  "exchange hash_order bs out keep \<longleftrightarrow>
     (\<exists>req. request_in bs req \<and> answer_to hash_order req out \<and> WantKeepAlive req = Inr keep)"

lemma request_in_sound: "request_in bs req \<Longrightarrow> IsError req \<or> fields_ok req"
  using request_of_header_sound by (auto simp: request_in_def Let_def)

lemma request_inI:
  assumes "find_http_headers_end (hdr @ b @ p) = length hdr" and "hdr \<noteq> []"
    and "length b = declared_length (request_of_header hdr)"
  shows "request_in (hdr @ b) (AppendBody b (request_of_header hdr))"
proof -
  let ?s = "hdr @ b @ p"
  have nz: "find_http_headers_end ?s \<noteq> 0" using assms(1,2) by simp
  have "take (find_http_headers_end ?s) ?s = hdr" using assms(1) by (simp add: take_append)
  with headers_end_take [OF nz] assms(1) have h: "find_http_headers_end hdr = length hdr" by simp
  then have "find_http_headers_end (hdr @ b) = length hdr"
    using headers_end_append [of hdr b] assms(2) by simp
  with assms(2,3) show ?thesis by (simp add: request_in_def Let_def take_append drop_append)
qed

section \<open>Receiving the body\<close>

definition body_state ::
  "bytes \<Rightarrow> bytes \<Rightarrow> bytes \<Rightarrow> http_request \<Rightarrow> int \<Rightarrow> int \<times> http_request \<Rightarrow> conn_t \<Rightarrow> event list \<Rightarrow> bool" where
  "body_state P R S req len l k t =
     (case l of (got, req') \<Rightarrow>
       \<exists>b d P'. req' = AppendBody b req \<and> got = int (length b) \<and> got \<le> len \<and>
         P @ d = b @ P' \<and> stream P' (R @ d) S k t \<and>
         (got < len \<longrightarrow> P' = [] \<and> recv_buf_have k = 0 \<and> recv_buf_curr k = 0))"

definition body_result ::
  "bytes \<Rightarrow> bytes \<Rightarrow> bytes \<Rightarrow> http_request \<Rightarrow> int \<Rightarrow> http_request option \<Rightarrow> conn_t \<Rightarrow> event list \<Rightarrow> bool" where
  "body_result P R S req len r k t =
     (case r of None \<Rightarrow> traffic R S k t
      | Some req' \<Rightarrow> \<exists>b d P'. req' = AppendBody b req \<and> len = int (length b) \<and>
          P @ d = b @ P' \<and> stream P' (R @ d) S k t)"

lemma body_state_yield: "body_state P R S req len l k t \<Longrightarrow> body_state P R S req len l k (t @ [Ev_yield n])"
  by (cases l) (simp add: body_state_def)

lemma body_state_done:
  "body_state P R S req len (got, req') k t \<Longrightarrow> \<not> got < len \<Longrightarrow> body_result P R S req len (Some req') k t"
  by (auto simp: body_state_def body_result_def)

text \<open>One more chunk, received into the empty buffer.\<close>

lemma body_state_chunk:
  assumes p: "P @ d = b" "got = int (length b)"
    and r: "mem_view (recv_mem k) 0 (length e) = e" "recvd t = (R @ d) @ e" "sent t = S"
      "recv_buf_have k = 0" "recv_buf_curr k = 0" and le: "got + int (length e) \<le> len"
  shows "body_state P R S req len (got + int (length e), AppendBody e (AppendBody b req)) k t"
  unfolding body_state_def prod.case
proof (intro exI conjI)
  show "AppendBody e (AppendBody b req) = AppendBody (b @ e) req" by simp
  show "got + int (length e) = int (length (b @ e))" using p by simp
  show "P @ d @ e = (b @ e) @ []" using p by simp
  show "stream [] (R @ d @ e) S k t" using r by (simp add: stream_def mem_view_def)
qed (use r le in auto)

lemma lift_fault_bind: "io_bind (lift_fault (Inr a)) f = f a"
  by (simp add: lift_fault_def io_bind_def ret_def fun_eq_iff)

lemma body_state_cut:
  assumes "stream (drop n P) R S k t" and "n \<le> length P" and "len = int n"
  shows "body_state P R S req len (int n, AppendBody (take n P) req) k t"
  unfolding body_state_def prod.case
  by (rule exI [of _ "take n P"], rule exI [of _ "[]"], rule exI [of _ "drop n P"]) (use assms in auto)

context coroutine_state
begin

lemma co_recv_fresh:
  assumes "room \<le> RECV_BUF_SIZE" and "0 \<le> room"
  shows "co c J (\<lambda>k t. recvd t = R \<and> sent t = S \<and> recv_buf_have k = h \<and> recv_buf_curr k = u)
     (recv_from_curr_conn room 0 timeout terminator)
     (\<lambda>count k t. traffic R S k t \<and> count \<le> room \<and>
        (0 \<le> count \<longrightarrow> (\<exists>e. mem_view (recv_mem k) 0 (nat count) = e \<and>
           int (length e) = count \<and> recvd t = R @ e \<and> sent t = S \<and>
           recv_buf_have k = h \<and> recv_buf_curr k = u)))"
proof -
  have z: "int (length ([] :: bytes)) = 0" by simp
  show ?thesis
    using assms by (intro co_conseq [OF co_recv_append [of "[]" room R S h u timeout terminator, unfolded z]])
      (auto simp: mem_view_def)
qed

lemma co_body_loop:
  "co c J (body_state P R S req len l) (body_loop RECV_BUF_SIZE len l)
     (\<lambda>r k t. case r of Inl l' \<Rightarrow> body_state P R S req len l' k t | Inr a \<Rightarrow> body_result P R S req len a k t)"
  (is "co c J ?A _ ?B")
proof (cases l)
  case (Pair got req')
  show ?thesis
    unfolding body_loop_def Pair prod.case
  proof (rule co_if)
    assume "\<not> got < len"
    then show "co c J (body_state P R S req len (got, req')) (ret (Inr (Some req'))) ?B"
      by (intro co_ret) (auto dest: body_state_done)
  next
    assume "\<not> \<not> got < len"
    then have lt: "got < len" by simp
    define to where "to = min (len - got) RECV_BUF_SIZE"
    have to: "0 < to" "to \<le> RECV_BUF_SIZE" "got + to \<le> len" using lt by (auto simp: to_def srv_consts)
    let ?I = "\<lambda>d k t. recvd t = R @ d \<and> sent t = S \<and>
        recv_buf_have k = 0 \<and> recv_buf_curr k = 0"
    let ?p = "\<lambda>b d. req' = AppendBody b req \<and> got = int (length b) \<and> P @ d = b"
    let ?m = "io_bind (recv_from_curr_conn to 0 CLIENT_OP_TIMEOUT False) (\<lambda>count.
         if count \<noteq> to then ret (Inr None)
         else io_bind (curr_view 0 count) (\<lambda>chunk.
           io_then cond_swap_to_main_ctx (ret (Inl (got + count, AppendBody chunk req')))))"
    have step: "co c J (?I d) ?m ?B" if p: "?p b d" for b d
    proof (rule co_bind [OF co_recv_fresh], goal_cases)
      case (3 count)
      let ?D = "\<lambda>k t. traffic (R @ d) S k t \<and> count \<le> to \<and>
        (0 \<le> count \<longrightarrow> (\<exists>e. mem_view (recv_mem k) 0 (nat count) = e \<and>
           int (length e) = count \<and> recvd t = (R @ d) @ e \<and> sent t = S \<and>
           recv_buf_have k = 0 \<and> recv_buf_curr k = 0))"
      show ?case
      proof (rule co_if)
        show "co c J ?D (ret (Inr None)) ?B"
          by (rule co_ret) (auto simp: body_result_def traffic_def)
      next
        assume "\<not> count \<noteq> to"
        then have count: "count = to" by simp
        let ?N = "\<lambda>chunk k t. body_state P R S req len (got + count, AppendBody chunk req') k t"
        have view: "co c J ?D (curr_view 0 count) ?N"
        proof (rule co_curr_view)
          fix k t assume k: "layout_ok k" and D: "?D k t"
          show "0 \<le> (0::int) \<and> 0 \<le> count \<and> 0 + count \<le> recv_buf_size k"
            using k count to by (simp add: layout_ok_def)
          from D count to obtain e where e: "mem_view (recv_mem k) 0 (nat count) = e"
            "int (length e) = count" "recvd t = (R @ d) @ e" "sent t = S"
            "recv_buf_have k = 0" "recv_buf_curr k = 0" by auto
          then have "nat count = length e" by simp
          with e body_state_chunk [of P d b got k e t R S len req] p to count
          show "?N (mem_view (recv_mem k) (nat 0) (nat count)) k t" by auto
        qed
        show "co c J ?D (io_bind (curr_view 0 count) (\<lambda>chunk.
           io_then cond_swap_to_main_ctx (ret (Inl (got + count, AppendBody chunk req'))))) ?B"
        proof (rule co_bind [OF view])
          fix chunk
          show "co c J (?N chunk) (io_then cond_swap_to_main_ctx
              (ret (Inl (got + count, AppendBody chunk req')))) ?B"
            by (rule co_then [OF co_cond_swap [where B = "\<lambda>_. ?N chunk"] co_ret])
              (auto intro: body_state_yield)
        qed
      qed
    qed (use to in auto)
    have "co c J (\<lambda>k t. \<exists>b d. ?I d k t \<and> ?p b d) ?m ?B"
      by (intro co_ex co_pure step)
    then have "co c J (body_state P R S req len (got, req')) ?m ?B"
      by (rule co_pre) (use lt in \<open>auto simp: body_state_def stream_def mem_view_def\<close>)
    then show "co c J (body_state P R S req len (got, req'))
      (let to_recv = min (len - got) RECV_BUF_SIZE in
         io_bind (recv_from_curr_conn to_recv 0 CLIENT_OP_TIMEOUT False) (\<lambda>count.
         if count \<noteq> to_recv then ret (Inr None)
         else io_bind (curr_view 0 count) (\<lambda>chunk.
           io_then cond_swap_to_main_ctx (ret (Inl (got + count, AppendBody chunk req')))))) ?B"
      by (simp add: Let_def to_def)
  qed
qed

lemma co_recv_http_body:
  assumes ok: "IsOk (request_of_header hdr)" "MethodHasBody (get_method_token hdr)"
  shows "co c J (stream P R S) (recv_http_body (request_of_header hdr))
    (body_result P R S (request_of_header hdr) (int (declared_length (request_of_header hdr))))"
    (is "co c J _ (recv_http_body ?r) ?B")
  unfolding recv_http_body_def declared_header(1) [OF ok]
proof (rule co_positions, rule co_pre)
  fix size h u
  let ?len = "int (declared_length ?r)"
  let ?got = "min (h - u) ?len"
  let ?chunk = "take (nat ?got) P"
  let ?A = "\<lambda>k t. mem_view (recv_mem k) (nat u) (nat (h - u)) = P \<and> recvd t = R \<and> sent t = S \<and>
      recv_buf_have k = h \<and> recv_buf_curr k = u"
  let ?p = "size = RECV_BUF_SIZE \<and> 0 \<le> u \<and> u \<le> h \<and> h \<le> RECV_BUF_SIZE \<and> int (length P) = h - u"
  let ?M = "\<lambda>l. body_state P R S ?r ?len l"
  show "co c J (\<lambda>k t. ?A k t \<and> ?p) (io_bind (lift_fault (Inr (declared_length ?r))) (\<lambda>len.
       let body_len = int len; got_len = min (h - u) body_len in
       io_bind (curr_view u got_len) (\<lambda>chunk.
       io_then (if u + got_len = h then set_recv_pos 0 0 else set_recv_pos h (u + got_len))
         (io_loop (body_loop size body_len) (got_len, AppendBody chunk ?r))))) ?B"
  proof (rule co_pure)
    assume p: ?p
    have got: "0 \<le> ?got" "?got \<le> ?len" "?got \<le> h - u" using p by auto
    have view: "co c J ?A (curr_view u ?got) (\<lambda>chunk k t. ?A k t \<and> chunk = ?chunk)"
      by (rule co_curr_view)
        (use p got mem_view_take [of "nat ?got" "nat (h - u)" _ "nat u"] in \<open>auto simp: layout_ok_def\<close>)
    have pos: "co c J ?A (if u + ?got = h then set_recv_pos 0 0 else set_recv_pos h (u + ?got))
        (\<lambda>_. ?M (?got, AppendBody ?chunk ?r))"
    proof (rule co_if)
      assume all: "u + ?got = h"
      then have P: "?chunk = P" and l: "?got = int (length P)" using p by auto
      show "co c J ?A (set_recv_pos 0 0) (\<lambda>_. ?M (?got, AppendBody ?chunk ?r))"
        by (rule co_set_recv_pos)
          (use p got l in \<open>auto simp: layout_ok_def body_state_def stream_def P mem_view_def
             intro!: exI [of _ P] exI [of _ "[]"]\<close>)
    next
      assume part: "u + ?got \<noteq> h"
      then have l: "?got = ?len" "?got < h - u" using got by auto
      show "co c J ?A (set_recv_pos h (u + ?got)) (\<lambda>_. ?M (?got, AppendBody ?chunk ?r))"
      proof (rule co_set_recv_pos)
        fix k t assume k: "layout_ok k" and A: "?A k t"
        have "nat (u + ?got) = nat u + nat ?got" "nat (h - (u + ?got)) = nat (h - u) - nat ?got"
          using p got by (simp_all add: nat_add_distrib nat_diff_distrib del: min_def)
        then have "stream (drop (nat ?got) P) R S (k\<lparr>recv_buf_have := h, recv_buf_curr := u + ?got\<rparr>) t"
          using A mem_view_drop [of "recv_mem k" "nat u" "nat ?got" "nat (h - u)"]
          by (simp add: stream_def)
        moreover have "nat ?got \<le> length P" "?len = int (nat ?got)" "int (nat ?got) = ?got"
          using p got l by auto
        ultimately have "?M (?got, AppendBody ?chunk ?r) (k\<lparr>recv_buf_have := h, recv_buf_curr := u + ?got\<rparr>) t"
          using body_state_cut [of "nat ?got" P R S _ t ?len ?r] by (simp only:)
        then show "0 \<le> u + ?got \<and> u + ?got \<le> h \<and> h \<le> recv_buf_size k \<and>
            ?M (?got, AppendBody ?chunk ?r) (k\<lparr>recv_buf_have := h, recv_buf_curr := u + ?got\<rparr>) t"
          using p got k by (auto simp: layout_ok_def)
      qed
    qed
    have loop: "co c J (?M l) (io_loop (body_loop size ?len) l) ?B" for l
      using co_loop [where I = ?M, OF co_body_loop] p by simp
    have "co c J ?A (io_bind (curr_view u ?got) (\<lambda>chunk.
       io_then (if u + ?got = h then set_recv_pos 0 0 else set_recv_pos h (u + ?got))
         (io_loop (body_loop size ?len) (?got, AppendBody chunk ?r)))) ?B"
    proof (rule co_bind [OF view], rule co_pure)
      fix chunk assume "chunk = ?chunk"
      then show "co c J ?A (io_then (if u + ?got = h then set_recv_pos 0 0 else set_recv_pos h (u + ?got))
         (io_loop (body_loop size ?len) (?got, AppendBody chunk ?r))) ?B"
        using co_then [OF pos loop] by simp
    qed
    then show "co c J ?A (io_bind (lift_fault (Inr (declared_length ?r))) (\<lambda>len.
       let body_len = int len; got_len = min (h - u) body_len in
       io_bind (curr_view u got_len) (\<lambda>chunk.
       io_then (if u + got_len = h then set_recv_pos 0 0 else set_recv_pos h (u + got_len))
         (io_loop (body_loop size body_len) (got_len, AppendBody chunk ?r))))) ?B"
      by (simp only: lift_fault_bind Let_def)
  qed
qed (auto simp: stream_def layout_ok_def)

end

text \<open>One request, or none.\<close>

definition msg_result :: "bytes \<Rightarrow> bytes \<Rightarrow> bytes \<Rightarrow> http_request option \<Rightarrow> conn_t \<Rightarrow> event list \<Rightarrow> bool" where
  "msg_result P R S r k t =
     (case r of None \<Rightarrow> traffic R S k t
      | Some req \<Rightarrow> \<exists>bs d P'. P @ d = bs @ P' \<and> request_in bs req \<and> stream P' (R @ d) S k t)"

lemma msg_resultI:
  assumes h: "P @ d = hdr @ P1" "find_http_headers_end (P @ d) = length hdr" "hdr \<noteq> []"
    and b: "P1 @ e = b @ P'" "length b = declared_length (request_of_header hdr)"
    and s: "stream P' ((R @ d) @ e) S k t"
  shows "msg_result P R S (Some (AppendBody b (request_of_header hdr))) k t"
proof -
  have "P @ d @ e = hdr @ b @ P'" using h(1) b(1) by (metis append.assoc)
  moreover have "find_http_headers_end (P @ d @ e) = length hdr"
    using headers_end_append [of "P @ d" e] h(2,3) by simp
  ultimately have "request_in (hdr @ b) (AppendBody b (request_of_header hdr))"
    using h(3) b(2) by (intro request_inI) auto
  moreover have "stream P' (R @ d @ e) S k t" using s by simp
  moreover have "P @ d @ e = (hdr @ b) @ P'" using \<open>P @ d @ e = _\<close> by simp
  ultimately show ?thesis unfolding msg_result_def option.case by blast
qed

context coroutine_state
begin

lemma co_recv_http_msg: "co c J (stream P R S) recv_http_msg (msg_result P R S)"
  unfolding recv_http_msg_def
proof (rule co_bind [OF co_recv_http_hdr], rule co_if)
  fix hdr
  let ?r = "request_of_header hdr"
  show "co c J (hdr_result P R S hdr) (ret None) (msg_result P R S)" if "hdr = []"
    by (rule co_ret) (use that in \<open>simp add: hdr_result_def msg_result_def\<close>)
  assume ne: "hdr \<noteq> []"
  let ?H = "\<lambda>d P1 k t. stream P1 (R @ d) S k t"
  let ?p = "\<lambda>d P1. P @ d = hdr @ P1 \<and> find_http_headers_end (P @ d) = length hdr"
  have step: "co c J (?H d P1) (if IsOk ?r \<and> MethodHasBody (get_method_token hdr)
      then recv_http_body ?r else ret (Some ?r)) (msg_result P R S)" if p: "?p d P1" for d P1
  proof (rule co_if)
    assume ok: "IsOk ?r \<and> MethodHasBody (get_method_token hdr)"
    show "co c J (?H d P1) (recv_http_body ?r) (msg_result P R S)"
    proof (rule co_conseq [OF co_recv_http_body])
      fix a k t assume b: "body_result P1 (R @ d) S ?r (int (declared_length ?r)) a k t"
      show "msg_result P R S a k t"
      proof (cases a)
        case None
        with b show ?thesis by (auto simp: body_result_def msg_result_def traffic_def)
      next
        case (Some req)
        with b obtain x e P' where x: "req = AppendBody x ?r" "declared_length ?r = length x"
          "P1 @ e = x @ P'" "stream P' ((R @ d) @ e) S k t"
          unfolding body_result_def by auto
        from p have "P @ d = hdr @ P1" "find_http_headers_end (P @ d) = length hdr" by blast+
        from msg_resultI [OF this ne x(3) x(2) [symmetric] x(4)] show ?thesis
          unfolding Some x(1) .
      qed
    qed (use ok in auto)
  next
    assume no: "\<not> (IsOk ?r \<and> MethodHasBody (get_method_token hdr))"
    then have "declared_length ?r = 0"
      using request_of_header_valid [of hdr] by (auto simp: declared_length_def)
    then have z: "length [] = declared_length ?r" by simp
    from p have c: "P @ d = hdr @ P1" "find_http_headers_end (P @ d) = length hdr" by blast+
    have "msg_result P R S (Some ?r) k t" if "?H d P1 k t" for k t
      using msg_resultI [OF c ne _ z, of "[]" P1 R S k t] that by simp
    then show "co c J (?H d P1) (ret (Some ?r)) (msg_result P R S)" by (intro co_ret)
  qed
  have "co c J (\<lambda>k t. \<exists>d P1. ?H d P1 k t \<and> ?p d P1) (if IsOk ?r \<and> MethodHasBody (get_method_token hdr)
      then recv_http_body ?r else ret (Some ?r)) (msg_result P R S)"
    by (intro co_ex co_pure step)
  then have "co c J (hdr_result P R S hdr) (if IsOk ?r \<and> MethodHasBody (get_method_token hdr)
      then recv_http_body ?r else ret (Some ?r)) (msg_result P R S)"
    by (rule co_pre) (use ne in \<open>auto simp: hdr_result_def\<close>)
  then show "co c J (hdr_result P R S hdr) (let req = ?r in
      if IsOk req \<and> MethodHasBody (get_method_token hdr) then recv_http_body req else ret (Some req))
      (msg_result P R S)" by (simp only: Let_def)
qed

end

section \<open>Sending the response\<close>

definition send_msg_inv ::
  "(nat \<Rightarrow> char) \<Rightarrow> int \<Rightarrow> int \<Rightarrow> bytes \<Rightarrow> bytes \<Rightarrow> bytes \<Rightarrow> int \<Rightarrow> conn_t \<Rightarrow> event list \<Rightarrow> bool" where
  "send_msg_inv m h u R S msg n k t \<longleftrightarrow>
     co_view m h u R (S @ take (nat n) msg) k t \<and> 0 \<le> n \<and> n \<le> int (length msg)"

definition sent_result :: "bytes \<Rightarrow> bytes \<Rightarrow> bytes \<Rightarrow> bytes \<Rightarrow> int \<Rightarrow> conn_t \<Rightarrow> event list \<Rightarrow> bool" where
  "sent_result P R S msg r k t \<longleftrightarrow>
     (if 0 < r then stream P R (S @ msg) k t
      else recvd t = R \<and> (\<exists>n. sent t = S @ take n msg))"

lemma send_msg_inv_yield: "send_msg_inv m h u R S msg n k t \<Longrightarrow> send_msg_inv m h u R S msg n k (t @ [Ev_yield x])"
  by (simp add: send_msg_inv_def)

lemma send_result_partial:
  assumes "send_result m h u R (S @ take (nat n) msg) (drop (nat n) msg) to r k t" and "0 \<le> n"
  shows "\<exists>j. co_view m h u R (S @ take j msg) k t \<and> (0 \<le> r \<longrightarrow> j = nat (n + r)) \<and> r \<le> max 0 to"
proof -
  from assms(1) obtain i where i: "co_view m h u R ((S @ take (nat n) msg) @ take (nat i) (drop (nat n) msg)) k t"
    "0 \<le> i" "i \<le> to" "0 \<le> r \<longrightarrow> i = r" "r \<le> i"
    by (auto simp: send_result_def send_state_def)
  have "take (nat n) msg @ take (nat i) (drop (nat n) msg) = take (nat (n + i)) msg"
    using assms(2) i(2) by (simp add: take_add nat_add_distrib)
  with i have "co_view m h u R (S @ take (nat (n + i)) msg) k t \<and> (0 \<le> r \<longrightarrow> nat (n + i) = nat (n + r)) \<and>
      r \<le> max 0 to" by auto
  then show ?thesis by blast
qed

context coroutine_state
begin

lemma co_send_msg_loop:
  assumes P: "mem_view m (nat u) (nat (h - u)) = P"
  shows "co c J (send_msg_inv m h u R S msg n) (send_msg_loop msg n)
    (\<lambda>r k t. case r of Inl n' \<Rightarrow> send_msg_inv m h u R S msg n' k t | Inr a \<Rightarrow> sent_result P R S msg a k t)"
    (is "co c J ?A _ ?B")
proof -
  define to where "to = min SEND_PACKET_SIZE (int (length msg) - n)"
  have body: "co c J (\<lambda>k t. co_view m h u R (S @ take (nat n) msg) k t \<and> (0 \<le> n \<and> n < int (length msg)))
      (io_bind (send_to_curr_conn (drop (nat n) msg) to CLIENT_OP_TIMEOUT) (\<lambda>count.
        if count \<noteq> to then ret (Inr 0) else io_then cond_swap_to_main_ctx (ret (Inl (n + to))))) ?B"
  proof (rule co_pure)
    assume n: "0 \<le> n \<and> n < int (length msg)"
    then have to: "0 < to" "to \<le> int (length (drop (nat n) msg))" by (auto simp: to_def srv_consts)
    let ?D = "\<lambda>r. send_result m h u R (S @ take (nat n) msg) (drop (nat n) msg) to r"
    let ?N = "\<lambda>k t. send_msg_inv m h u R S msg (n + to) k t"
    show "co c J (co_view m h u R (S @ take (nat n) msg))
      (io_bind (send_to_curr_conn (drop (nat n) msg) to CLIENT_OP_TIMEOUT) (\<lambda>count.
        if count \<noteq> to then ret (Inr 0) else io_then cond_swap_to_main_ctx (ret (Inl (n + to))))) ?B"
    proof (rule co_bind [OF co_send_to], goal_cases)
      case (3 count)
      show ?case
      proof (rule co_if)
        show "co c J (?D count) (ret (Inr 0)) ?B"
          by (rule co_ret) (use n send_result_partial in \<open>fastforce simp: sent_result_def co_view_def\<close>)
        assume "\<not> count \<noteq> to"
        then have "?N k t" if "?D count k t" for k t
          using send_result_partial [OF that] n to by (auto simp: send_msg_inv_def to_def)
        then show "co c J (?D count) (io_then cond_swap_to_main_ctx (ret (Inl (n + to)))) ?B"
          by (intro co_pre [OF co_then [OF co_cond_swap [where A = ?N and B = "\<lambda>_. ?N"] co_ret]])
            (auto intro: send_msg_inv_yield)
      qed
    qed (use to in auto)
  qed
  have fin: "co c J ?A (ret (Inr (int (length msg)))) ?B" if "\<not> n < int (length msg)"
  proof (rule co_ret)
    fix k t assume "?A k t"
    then have "sent_result P R S msg (int (length msg)) k t"
      using that P by (cases "msg = []") (auto simp: send_msg_inv_def sent_result_def stream_def co_view_def)
    then show "?B (Inr (int (length msg))) k t" by simp
  qed
  show ?thesis
    unfolding send_msg_loop_def Let_def to_def [symmetric]
    by (rule co_if, rule fin, assumption, rule co_pre [OF body]) (auto simp: send_msg_inv_def)
qed

lemma co_send_http_msg:
  "co c J (stream P R S) (send_http_msg hash_order resp)
    (sent_result P R S (Serialize_response hash_order resp))"
proof (rule co_pre)
  let ?msg = "Serialize_response hash_order resp"
  show "co c J (\<lambda>k t. \<exists>m h u. co_view m h u R S k t \<and> mem_view m (nat u) (nat (h - u)) = P)
      (send_http_msg hash_order resp) (sent_result P R S ?msg)"
    unfolding send_http_msg_def
    by (intro co_ex co_pure, rule co_pre [OF co_loop [where I = "send_msg_inv _ _ _ R S ?msg", OF co_send_msg_loop]])
      (auto simp: send_msg_inv_def)
qed (auto simp: stream_def co_view_def)

lemma co_format_date: "co c J A format_date_hdr (\<lambda>date k t. A k t \<and> date_ok date)"
  unfolding format_date_hdr_def
  by (rule co_answer_bind) (auto intro: co_ret co_stop simp: stop_with_def split: resp.split)

text \<open>
  One call of \<open>handle_one_client_request\<close>. Going on means one whole exchange; otherwise the
  response sent, if any, is a prefix of the answer to the next request.
\<close>

end

definition handled ::
  "(header_map \<Rightarrow> header_map) \<Rightarrow> bytes \<Rightarrow> bytes \<Rightarrow> bytes \<Rightarrow> bool \<Rightarrow> conn_t \<Rightarrow> event list \<Rightarrow> bool" where
  "handled hash_order P R S go k t \<longleftrightarrow>
     (if go
      then \<exists>bs out d P'. P @ d = bs @ P' \<and> exchange hash_order bs out True \<and> stream P' (R @ d) (S @ out) k t
      else \<exists>d. recvd t = R @ d \<and>
        (sent t = S \<or> (\<exists>bs out keep P' n. P @ d = bs @ P' \<and> exchange hash_order bs out keep \<and>
           sent t = S @ take n out)))"

lemma exchangeI:
  assumes r: "request_in bs req" and resp: "MakeResponse date req = Inr resp" "date_ok date"
  shows "\<exists>keep. WantKeepAlive req = Inr keep \<and> exchange hash_order bs (Serialize_response hash_order resp) keep"
proof -
  obtain keep where "WantKeepAlive req = Inr keep"
    using WantKeepAlive_total request_in_sound [OF r] by blast
  with assms show ?thesis by (auto simp: exchange_def answer_to_def)
qed

context coroutine_state
begin

lemma co_handle_one_client_request:
  "co c J (stream P R S) (handle_one_client_request hash_order) (handled hash_order P R S)"
  unfolding handle_one_client_request_def
proof (rule co_bind [OF co_recv_http_msg])
  fix r
  let ?B = "handled hash_order P R S"
  let ?k = "\<lambda>req. io_bind format_date_hdr (\<lambda>date. io_bind (lift_fault (MakeResponse date req)) (\<lambda>resp.
         io_bind (send_http_msg hash_order resp) (\<lambda>count.
         if count \<le> 0 then ret False
         else io_bind (lift_fault (WantKeepAlive req)) (\<lambda>keep.
           if \<not> keep then ret False else io_then cond_swap_to_main_ctx (ret True)))))"
  show "co c J (msg_result P R S r) (case r of None \<Rightarrow> ret False | Some req \<Rightarrow> ?k req) ?B"
  proof (cases r)
    case None
    have "co c J (msg_result P R S None) (ret False) ?B"
      by (rule co_ret) (auto simp: msg_result_def traffic_def handled_def)
    with None show ?thesis by simp
  next
    case (Some req)
    have "co c J (stream P' (R @ d) S) (?k req) ?B" if p: "P @ d = bs @ P' \<and> request_in bs req" for bs d P'
    proof (rule co_bind [OF co_format_date], rule co_pure)
      fix date assume date: "date_ok date"
      show "co c J (stream P' (R @ d) S) (io_bind (lift_fault (MakeResponse date req)) (\<lambda>resp.
         io_bind (send_http_msg hash_order resp) (\<lambda>count.
         if count \<le> 0 then ret False
         else io_bind (lift_fault (WantKeepAlive req)) (\<lambda>keep.
           if \<not> keep then ret False else io_then cond_swap_to_main_ctx (ret True))))) ?B"
      proof (rule co_bind [OF co_lift_fault [where B = "\<lambda>resp k t. stream P' (R @ d) S k t \<and>
              MakeResponse date req = Inr resp"]], goal_cases)
        case (1 f k t)
        with MakeResponse_faults [OF request_in_sound date, of bs req f] p show ?case
          by (auto simp: co_faults_def)
      next
        case (3 resp)
        show ?case
        proof (rule co_pure)
          assume resp: "MakeResponse date req = Inr resp"
          let ?out = "Serialize_response hash_order resp"
          obtain keep where keep: "WantKeepAlive req = Inr keep" and ex: "exchange hash_order bs ?out keep"
            using exchangeI [of bs req date resp hash_order] p resp date by blast
          let ?D = "\<lambda>count. sent_result P' (R @ d) S ?out count"
          have halt: "?B False k t" if s: "?D n k t" for n k t
          proof -
            have "recvd t = R @ d" "\<exists>n. sent t = S @ take n ?out"
              using s by (auto simp: sent_result_def stream_def split: if_splits intro!: exI [of _ "length ?out"])
            with p ex show ?thesis unfolding handled_def if_False by blast
          qed
          have go: "?B True k t" if s: "?D n k t" "0 < n" keep for n k t
            using s p ex unfolding handled_def sent_result_def by auto
          show "co c J (stream P' (R @ d) S) (io_bind (send_http_msg hash_order resp) (\<lambda>count.
             if count \<le> 0 then ret False
             else io_bind (lift_fault (WantKeepAlive req)) (\<lambda>keep.
               if \<not> keep then ret False else io_then cond_swap_to_main_ctx (ret True)))) ?B"
            unfolding keep lift_fault_bind
          proof (rule co_bind [OF co_send_http_msg], intro co_if)
            fix count :: int
            assume c: "\<not> count \<le> 0" and k: "\<not> \<not> keep"
            then have "co c J (?D count) cond_swap_to_main_ctx (\<lambda>_. ?B True)"
              by (intro co_cond_swap) (auto dest!: go simp: handled_def)
            then show "co c J (?D count) (io_then cond_swap_to_main_ctx (ret True)) ?B"
              by (rule co_then) (rule co_ret)
          qed (auto intro!: co_ret halt)
        qed
      qed auto
    qed
    then have "co c J (\<lambda>k t. \<exists>bs d P'. stream P' (R @ d) S k t \<and> (P @ d = bs @ P' \<and> request_in bs req)) (?k req) ?B"
      by (intro co_ex co_pure)
    then have "co c J (msg_result P R S (Some req)) (?k req) ?B"
      by (rule co_pre) (auto simp: msg_result_def)
    with Some show ?thesis by simp
  qed
qed

end

end
