(* ===== verification/Sock.thy ===== *)
theory Sock
  imports Conn_Ctxt
begin

unbundle bit_operations_syntax

text \<open>
  \<open>srv_async/srv_sock.c\<close>: the two functions that prepare a socket for the event loop, and the
  creation of the listening socket. A call is recorded with its arguments before its result is
  asked for.
\<close>

section \<open>Constants of the system headers\<close>

definition O_NONBLOCK :: int where "O_NONBLOCK = 2048"
definition O_ASYNC :: int where "O_ASYNC = 8192"
definition SIGIO :: int where "SIGIO = 29"
definition SOL_SOCKET :: int where "SOL_SOCKET = 1"
definition SO_REUSEADDR :: int where "SO_REUSEADDR = 2"
definition SO_REUSEPORT :: int where "SO_REUSEPORT = 15"
definition INADDR_ANY :: "32 word" where "INADDR_ANY = 0"

section \<open>Sockets of connections\<close>

definition fcntl :: "int \<Rightarrow> fcntl_cmd \<Rightarrow> (resp, 's, event, int) io" where
  "fcntl sock cmd =
     io_then (emit (Ev_fcntl sock cmd))
       (io_bind (answer Wait) (\<lambda>r. case r of R_fcntl n \<Rightarrow> ret n | _ \<Rightarrow> stop_with Mismatch))"

definition gettid :: "(resp, 's, event, int) io" where
  "gettid = io_bind (answer Wait) (\<lambda>r. case r of R_gettid n \<Rightarrow> ret n | _ \<Rightarrow> stop_with Mismatch)"

text \<open>The error branch the calls share: close the socket and report failure.\<close>

definition close_failed :: "int \<Rightarrow> ('r, 's, event, int) io" where
  "close_failed sock = io_then (emit (Ev_close sock)) (ret (-1))"

definition set_nonblock :: "int \<Rightarrow> (resp, 's, event, int) io" where
  "set_nonblock sock =
     io_bind (fcntl sock F_GETFL) (\<lambda>fl.
     io_bind (fcntl sock (F_SETFL (fl OR O_NONBLOCK))) (\<lambda>r.
     if r \<noteq> 0 then close_failed sock
     else io_bind (fcntl sock (F_SETSIG SIGIO)) (\<lambda>r.
     if r \<noteq> 0 then close_failed sock
     else io_bind gettid (\<lambda>tid.
     io_bind (fcntl sock (F_SETOWN tid)) (\<lambda>r.
     if r \<noteq> 0 then close_failed sock else ret 0)))))"

definition set_async :: "int \<Rightarrow> (resp, 's, event, int) io" where
  "set_async sock =
     io_bind (fcntl sock F_GETFL) (\<lambda>fl.
     io_bind (fcntl sock (F_SETFL (fl OR O_ASYNC))) (\<lambda>r.
     if r \<noteq> 0 then close_failed sock else ret 0))"

section \<open>The listening socket\<close>

text \<open>The calls of \<open>create_listening_socket\<close>; \<open>htons\<close> keeps the low 16 bits of the port.\<close>

datatype sock_call =
    Sc_socket
  | Sc_setsockopt int int int int     \<comment> \<open>socket, level, option, value\<close>
  | Sc_bind int "32 word" "16 word"   \<comment> \<open>socket, address, port\<close>

text \<open>\<open>sock_op\<close> makes a call in the world of the program: it is recorded there, and its result comes from there.\<close>

definition create_listening_socket :: "(sock_call \<Rightarrow> ('r, 's, 'e, int) io) \<Rightarrow> int \<Rightarrow> ('r, 's, 'e, int) io" where
  "create_listening_socket sock_op srv_port =
     io_bind (sock_op Sc_socket) (\<lambda>srv_sock.
     if srv_sock = -1 then ret (-1)
     else io_bind (sock_op (Sc_setsockopt srv_sock SOL_SOCKET (SO_REUSEADDR OR SO_REUSEPORT) 1)) (\<lambda>r.
     if r \<noteq> 0 then ret (-1)
     else io_bind (sock_op (Sc_bind srv_sock INADDR_ANY (word_of_int srv_port))) (\<lambda>r.
     if r \<noteq> 0 then ret (-1) else ret srv_sock)))"

lemma reuse_option: "SO_REUSEADDR OR SO_REUSEPORT = SO_REUSEPORT"
  by (simp add: SO_REUSEADDR_def SO_REUSEPORT_def)

text \<open>The calls of a creation that succeeds.\<close>

definition listening_calls :: "int \<Rightarrow> int \<Rightarrow> sock_call list" where
  "listening_calls sock srv_port =
     [Sc_socket, Sc_setsockopt sock SOL_SOCKET SO_REUSEPORT 1, Sc_bind sock INADDR_ANY (word_of_int srv_port)]"

end
