(* ===== verification/Routines.thy ===== *)
theory Routines
  imports Http_Exchange Sock
begin

text \<open>
  The coroutine of a connection, \<open>handle_one_connection\<close> of \<open>srv_async/srv_routines.c\<close>: prepare
  the socket, serve requests until one asks to stop, count, close, switch out for the last time.
\<close>

section \<open>The coroutine\<close>

definition serve_requests :: "(header_map \<Rightarrow> header_map) \<Rightarrow> (resp, srv_state, event, unit) io" where
  "serve_requests hash_order =
     io_loop (\<lambda>_. io_bind (handle_one_client_request hash_order) (\<lambda>go.
       ret (if go then Inl () else Inr ()))) ()"

definition handle_one_connection :: "(header_map \<Rightarrow> header_map) \<Rightarrow> (resp, srv_state, event, unit) io" where
  "handle_one_connection hash_order =
     io_bind curr_conn_sock (\<lambda>sock.
     io_bind (set_nonblock sock) (\<lambda>r.
     if r \<noteq> 0 then stop_with (Exit EXIT_FAILURE)
     else io_bind curr_conn_sock (\<lambda>sock.
     io_bind (set_async sock) (\<lambda>r.
     if r \<noteq> 0 then stop_with (Exit EXIT_FAILURE)
     else io_then (serve_requests hash_order)
       (io_then (modify_st (\<lambda>s. s\<lparr>n_conn := n_conn s + 1\<rparr>))
       (io_then curr_conn_close swap_to_main_ctx))))))"

section \<open>The whole conversation\<close>

text \<open>
  \<open>conversation\<close>: the bytes used so far are whole requests, each answered, in order, by the
  bytes sent so far.
\<close>

definition conversation ::
  "(header_map \<Rightarrow> header_map) \<Rightarrow> bytes \<Rightarrow> bytes \<Rightarrow> bytes list \<Rightarrow> bytes list \<Rightarrow> bool" where
  "conversation hash_order used out bss outs \<longleftrightarrow>
     list_all2 (\<lambda>bs out. exchange hash_order bs out True) bss outs \<and> used = concat bss \<and> out = concat outs"

definition conv_state ::
  "(header_map \<Rightarrow> header_map) \<Rightarrow> bytes \<Rightarrow> bytes \<Rightarrow> bytes \<Rightarrow> conn_t \<Rightarrow> event list \<Rightarrow> bool" where
  "conv_state hash_order P R S k t \<longleftrightarrow>
     (\<exists>bss outs d P'. P @ d = concat bss @ P' \<and> list_all2 (\<lambda>bs out. exchange hash_order bs out True) bss outs \<and>
        stream P' (R @ d) (S @ concat outs) k t)"

definition conv_result ::
  "(header_map \<Rightarrow> header_map) \<Rightarrow> bytes \<Rightarrow> bytes \<Rightarrow> bytes \<Rightarrow> conn_t \<Rightarrow> event list \<Rightarrow> bool" where
  "conv_result hash_order P R S k t \<longleftrightarrow>
     (\<exists>bss outs d rest. P @ d = concat bss @ rest \<and>
        list_all2 (\<lambda>bs out. exchange hash_order bs out True) bss outs \<and> recvd t = R @ d \<and>
        (sent t = S @ concat outs \<or>
         (\<exists>bs out keep P' n. rest = bs @ P' \<and> exchange hash_order bs out keep \<and>
            sent t = S @ concat outs @ take n out)))"

lemma conv_state_start: "stream P R S k t \<Longrightarrow> conv_state hash_order P R S k t"
  unfolding conv_state_def by (rule exI [of _ "[]"], rule exI [of _ "[]"], rule exI [of _ "[]"], rule exI [of _ P]) simp

lemma conv_state_step:
  assumes c: "P @ d = concat bss @ P'" "list_all2 (\<lambda>bs out. exchange hash_order bs out True) bss outs"
    and h: "handled hash_order P' (R @ d) (S @ concat outs) go k t"
  shows "if go then conv_state hash_order P R S k t else conv_result hash_order P R S k t"
proof (cases go)
  case True
  with h obtain bs out e P'' where e: "P' @ e = bs @ P''" "exchange hash_order bs out True"
    "stream P'' ((R @ d) @ e) ((S @ concat outs) @ out) k t" unfolding handled_def by auto
  have "P @ d @ e = concat (bss @ [bs]) @ P''" using c(1) e(1) by (metis append.assoc concat_append
        concat.simps append_Nil2)
  moreover have "list_all2 (\<lambda>bs out. exchange hash_order bs out True) (bss @ [bs]) (outs @ [out])"
    using c(2) e(2) by (simp add: list_all2_appendI)
  moreover have "stream P'' (R @ d @ e) (S @ concat (outs @ [out])) k t" using e(3) by simp
  ultimately have "conv_state hash_order P R S k t" unfolding conv_state_def by blast
  with True show ?thesis by simp
next
  case False
  with h obtain e where e: "recvd t = (R @ d) @ e" and s: "sent t = S @ concat outs \<or>
      (\<exists>bs out keep P'' n. P' @ e = bs @ P'' \<and> exchange hash_order bs out keep \<and>
         sent t = (S @ concat outs) @ take n out)"
    unfolding handled_def by auto
  have "P @ d @ e = concat bss @ P' @ e" using c(1) by (metis append.assoc)
  moreover have "recvd t = R @ d @ e" using e by simp
  moreover have "sent t = S @ concat outs \<or>
      (\<exists>bs out keep P'' n. P' @ e = bs @ P'' \<and> exchange hash_order bs out keep \<and>
         sent t = S @ concat outs @ take n out)" using s by (metis append.assoc)
  ultimately have "conv_result hash_order P R S k t" using c(2) unfolding conv_result_def by blast
  with False show ?thesis by simp
qed

context coroutine_state
begin

lemma co_serve_requests: "co c J (stream P R S) (serve_requests hash_order) (\<lambda>_. conv_result hash_order P R S)"
  unfolding serve_requests_def
proof (rule co_pre, rule co_loop [where I = "\<lambda>_. conv_state hash_order P R S"])
  fix l :: unit
  let ?p = "\<lambda>bss outs d P'. P @ d = concat bss @ P' \<and>
      list_all2 (\<lambda>bs out. exchange hash_order bs out True) bss outs"
  let ?B = "\<lambda>r k t. case r of Inl (l' :: unit) \<Rightarrow> conv_state hash_order P R S k t
      | Inr (a :: unit) \<Rightarrow> conv_result hash_order P R S k t"
  let ?m = "io_bind (handle_one_client_request hash_order) (\<lambda>go. ret (if go then Inl () else Inr ()))"
  have "co c J (stream P' (R @ d) (S @ concat outs)) ?m ?B" if p: "?p bss outs d P'" for bss outs d P'
  proof (rule co_bind [OF co_handle_one_client_request], rule co_ret)
    fix go k t assume "handled hash_order P' (R @ d) (S @ concat outs) go k t"
    with conv_state_step p show "?B (if go then Inl () else Inr ()) k t" by (cases go) fastforce+
  qed
  then have "co c J (\<lambda>k t. \<exists>bss outs d P'. stream P' (R @ d) (S @ concat outs) k t \<and> ?p bss outs d P') ?m ?B"
    by (intro co_ex co_pure)
  then show "co c J (conv_state hash_order P R S) ?m ?B"
    by (rule co_pre) (auto simp: conv_state_def)
qed (rule conv_state_start)

lemma co_fcntl: "(\<And>k t. A k t \<Longrightarrow> A k (t @ [Ev_fcntl sock cmd])) \<Longrightarrow> co c J A (fcntl sock cmd) (\<lambda>_. A)"
  unfolding fcntl_def
  by (rule co_then [OF co_emit [where B = "\<lambda>_. A"] co_answer_bind])
    (auto intro: co_ret co_stop simp: stop_with_def split: resp.split)

lemma co_gettid: "co c J A gettid (\<lambda>_. A)"
  unfolding gettid_def
  by (rule co_answer_bind) (auto intro: co_ret co_stop simp: stop_with_def split: resp.split)

lemma co_close_failed: "co c J A (close_failed sock) (\<lambda>r k t. r \<noteq> 0)"
  unfolding close_failed_def by (rule co_then [OF co_emit [where B = "\<lambda>_ _ _. True"] co_ret]) auto

lemma co_set_nonblock:
  assumes "\<And>k t cmd. A k t \<Longrightarrow> A k (t @ [Ev_fcntl sock cmd])"
  shows "co c J A (set_nonblock sock) (\<lambda>r k t. r = 0 \<longrightarrow> A k t)"
  unfolding set_nonblock_def
  by (intro co_bind [OF co_fcntl] co_bind [OF co_gettid] co_if co_ret co_conseq [OF co_close_failed])
    (auto intro: assms)

lemma co_set_async:
  assumes "\<And>k t cmd. A k t \<Longrightarrow> A k (t @ [Ev_fcntl sock cmd])"
  shows "co c J A (set_async sock) (\<lambda>r k t. r = 0 \<longrightarrow> A k t)"
  unfolding set_async_def
  by (intro co_bind [OF co_fcntl] co_if co_ret co_conseq [OF co_close_failed]) (auto intro: assms)

lemma co_handle_one_connection:
  "co c J (stream P R S) (handle_one_connection hash_order)
     (\<lambda>_ k t. is_completed k \<and> conv_result hash_order P R S k t)"
proof -
  let ?B = "\<lambda>k t. conv_result hash_order P R S k t"
  have fin: "co c J ?B (io_then (modify_st (\<lambda>s. s\<lparr>n_conn := n_conn s + 1\<rparr>))
      (io_then curr_conn_close swap_to_main_ctx)) (\<lambda>_ k t. is_completed k \<and> ?B k t)"
    by (rule co_then [OF co_modify [where B = "\<lambda>_. ?B"]
          co_then [OF co_close [where B = "\<lambda>_ k t. is_completed k \<and> ?B k t"] co_swap_to_main]])
      (auto simp: own_ok_def conv_result_def intro: J_served)
  have sock: "co c J A curr_conn_sock (\<lambda>_. A)" for A
    by (rule co_conseq [OF co_sock]) auto
  have st: "stream P R S k t \<Longrightarrow> stream P R S k (t @ [Ev_fcntl s cmd])" for k t s cmd
    by (simp add: stream_def)
  have nb: "co c J (stream P R S) (set_nonblock s) (\<lambda>r k t. r = 0 \<longrightarrow> stream P R S k t)" for s
    by (rule co_set_nonblock, rule st)
  have as: "co c J (stream P R S) (set_async s) (\<lambda>r k t. r = 0 \<longrightarrow> stream P R S k t)" for s
    by (rule co_set_async, rule st)
  show ?thesis
    unfolding handle_one_connection_def
  proof (rule co_bind [OF sock], rule co_bind [OF nb], rule co_if)
    fix r :: int assume "\<not> r \<noteq> 0"
    then show "co c J (\<lambda>k t. r = 0 \<longrightarrow> stream P R S k t)
      (io_bind curr_conn_sock (\<lambda>sock. io_bind (set_async sock) (\<lambda>r.
       if r \<noteq> 0 then stop_with (Exit EXIT_FAILURE)
       else io_then (serve_requests hash_order)
         (io_then (modify_st (\<lambda>s. s\<lparr>n_conn := n_conn s + 1\<rparr>))
         (io_then curr_conn_close swap_to_main_ctx)))))
      (\<lambda>_ k t. is_completed k \<and> ?B k t)"
      by (intro co_pre [OF co_bind [OF sock co_bind [OF as]]] co_if co_stop
          co_then [OF co_pre [OF co_serve_requests] fin]) auto
  qed (auto intro: co_stop)
qed

end

end
