(* ===== verification/Framing.thy ===== *)
theory Framing
  imports Routines
begin

text \<open>
  How the code of a coroutine meets its script: it only looks at the answers one after the
  other, so a longer script is a longer run; it never loops without a call; and where it has
  switched out, a resumption that keeps the contract is accepted and takes it to its next call.
\<close>

section \<open>Longer scripts\<close>

definition more_script :: "'r list \<Rightarrow> ('r, 's, 'e) world \<Rightarrow> ('r, 's, 'e) world" where
  "more_script e w = w\<lparr>script := script w @ e\<rparr>"

lemma more_script_simps [simp]:
  "script (more_script e w) = script w @ e" "st (more_script e w) = st w"
  "trace (more_script e w) = trace w"
  by (simp_all add: more_script_def)

definition accepts :: "(srv_state \<Rightarrow> srv_state) \<Rightarrow> (resp, srv_state, event) world \<Rightarrow> bool" where
  "accepts f w \<longleftrightarrow> (\<exists>c. curr_conn (st w) = Some c \<and> conns (f (st w)) c = conns (st w) c \<and>
     curr_conn (f (st w)) = Some c)"

text \<open>
  Suspended, it makes the rest of its run with the rest of the script: what it did so far stays what it did
  first, and a resumption alone takes it straight to its next call.
\<close>

definition resumable :: "(resp, srv_state, event, 'a) io \<Rightarrow> (resp, srv_state, event) world \<Rightarrow>
    (resp, srv_state, event) world \<Rightarrow> bool" where
  "resumable m w v \<longleftrightarrow> script v = [] \<and>
     (\<forall>e. prefix (trace v) (trace (snd (m (more_script e w))))) \<and>
     (\<forall>f. accepts f v \<longrightarrow> m (more_script [R_resume f] w) = (Inl Wait, v\<lparr>st := f (st v)\<rparr>))"

definition framed :: "(resp, srv_state, event, 'a) io \<Rightarrow> bool" where
  "framed m \<longleftrightarrow> keeps trace_grows m \<and> (\<forall>w r v. m w = (r, v) \<longrightarrow>
     (case r of
        Inr a \<Rightarrow> \<forall>e. m (more_script e w) = (Inr a, more_script e v)
      | Inl s \<Rightarrow> s = Suspended \<longrightarrow> resumable m w v))"

lemma framedI:
  assumes "keeps trace_grows m"
    and "\<And>w a v e. m w = (Inr a, v) \<Longrightarrow> m (more_script e w) = (Inr a, more_script e v)"
    and "\<And>w v. m w = (Inl Suspended, v) \<Longrightarrow> resumable m w v"
  shows "framed m"
  unfolding framed_def using assms by (auto split: sum.split)

lemma framed_grows: "framed m \<Longrightarrow> keeps trace_grows m"
  by (simp add: framed_def)

lemma framed_returns: "framed m \<Longrightarrow> m w = (Inr a, v) \<Longrightarrow> m (more_script e w) = (Inr a, more_script e v)"
  by (fastforce simp: framed_def)

lemma framed_suspended: "framed m \<Longrightarrow> m w = (Inl Suspended, v) \<Longrightarrow> resumable m w v"
  by (fastforce simp: framed_def)

lemma framed_ret: "framed (ret a)"
  by (rule framedI [OF grow.keeps_ret]) (auto simp: ret_def)

lemma framed_stop: "s \<noteq> Suspended \<Longrightarrow> framed (stop_with s)"
  by (rule framedI [OF grow.keeps_stop]) (auto simp: stop_with_def)

lemma framed_gets: "framed (gets_st f)"
  by (rule framedI [OF grow.keeps_gets]) (auto simp: gets_st_def)

lemma framed_modify: "framed (modify_st f)"
  by (rule framedI [OF grow_modify]) (auto simp: modify_st_def more_script_def)

lemma framed_emit: "framed (emit e)"
  by (rule framedI [OF grow_emit]) (auto simp: emit_def more_script_def)

lemma framed_answer: "framed (answer Wait)"
  by (rule framedI [OF grow_answer]) (auto simp: answer_def more_script_def split: list.splits)

lemma bind_grows:
  assumes "\<And>a. framed (f a)"
  shows "prefix (trace (snd (m w))) (trace (snd (io_bind m f w)))"
proof (cases "m w")
  case (Pair r u)
  show ?thesis
  proof (cases r)
    case (Inr a)
    have "trace_grows u (snd (f a u))" using framed_grows [OF assms] unfolding keeps_def by blast
    with Pair Inr show ?thesis by (simp add: io_bind_def trace_grows_def)
  qed (use Pair in \<open>simp add: io_bind_def\<close>)
qed

lemma framed_bind:
  assumes m: "framed m" and f: "\<And>a. framed (f a)"
  shows "framed (io_bind m f)"
proof (rule framedI)
  show "keeps trace_grows (io_bind m f)" by (intro grow.keeps_bind framed_grows m f)
next
  fix w a v e assume "io_bind m f w = (Inr a, v)"
  then obtain b u where b: "m w = (Inr b, u)" "f b u = (Inr a, v)" by (auto simp: io_bind_returns)
  then show "io_bind m f (more_script e w) = (Inr a, more_script e v)"
    using framed_returns [OF m b(1), of e] framed_returns [OF f b(2), of e] by (simp add: io_bind_Inr)
next
  fix w v assume r: "io_bind m f w = (Inl Suspended, v)"
  have "(m w = (Inl Suspended, v)) \<or> (\<exists>b u. m w = (Inr b, u) \<and> f b u = (Inl Suspended, v))"
    using r by (cases "m w"; cases "fst (m w)") (auto simp: io_bind_def)
  then show "resumable (io_bind m f) w v"
  proof (elim disjE exE conjE)
    assume "m w = (Inl Suspended, v)"
    note s = framed_suspended [OF m this, unfolded resumable_def]
    then have "prefix (trace v) (trace (snd (io_bind m f (more_script e w))))" for e
      using bind_grows [where m = m and f = f, OF f, of "more_script e w"] prefix_order.trans by blast
    with s show ?thesis by (auto simp: resumable_def io_bind_def)
  next
    fix b u assume b: "m w = (Inr b, u)" "f b u = (Inl Suspended, v)"
    have "io_bind m f (more_script e w) = f b (more_script e u)" for e
      using framed_returns [OF m b(1), of e] by (simp add: io_bind_Inr)
    with framed_suspended [OF f b(2)] show ?thesis by (simp add: resumable_def)
  qed
qed

lemma framed_then: "framed m \<Longrightarrow> framed k \<Longrightarrow> framed (io_then m k)"
  unfolding io_then_def by (rule framed_bind)

lemma framed_when: "framed m \<Longrightarrow> framed (io_when b m)"
  by (simp add: io_when_def framed_ret)

lemma framed_if: "framed m \<Longrightarrow> framed k \<Longrightarrow> framed (if b then m else k)"
  by simp

lemma loop_grows:
  assumes "\<And>l. framed (bd l)"
  shows "prefix (trace (snd (bd l w))) (trace (snd (io_loop bd l w)))"
proof -
  have "trace_grows v (snd (io_loop bd l' v))" for l' v
    using grow.keeps_loop [of bd l'] framed_grows [OF assms] unfolding keeps_def by blast
  then show ?thesis
    by (cases "bd l w") (auto simp: io_loop.simps [of bd l w] trace_grows_def split: sum.splits)
qed

lemma framed_loop:
  assumes b: "\<And>l. framed (bd l)"
  shows "framed (io_loop bd l)"
proof -
  have main: "(\<forall>a v. io_loop bd l w = (Inr a, v) \<longrightarrow>
        (\<forall>e. io_loop bd l (more_script e w) = (Inr a, more_script e v))) \<and>
      (\<forall>v. io_loop bd l w = (Inl Suspended, v) \<longrightarrow> resumable (io_loop bd l) w v)" for w
    using b
  proof (induction bd l w rule: io_loop.induct)
    case (1 bd l w)
    obtain q u where q: "bd l w = (q, u)" by fastforce
    show ?case
    proof (cases q)
      case (Inl s)
      with q have run: "io_loop bd l w = (Inl s, u)" by (simp add: io_loop_stop)
      show ?thesis
      proof (cases "s = Suspended")
        case True
        with q Inl have "bd l w = (Inl Suspended, u)" by simp
        note sus = framed_suspended [OF "1.prems" this, unfolded resumable_def]
        then have "prefix (trace u) (trace (snd (io_loop bd l (more_script e w))))" for e
          using loop_grows [of bd l "more_script e w", OF "1.prems"] prefix_order.trans by blast
        with sus show ?thesis using run True by (auto simp: resumable_def dest!: io_loop_stop)
      qed (simp add: run)
    next
      case (Inr r)
      with q have bw: "bd l w = (Inr r, u)" by simp
      note fr = framed_returns [OF "1.prems" bw]
      show ?thesis
      proof (cases r)
        case i: (Inl l')
        show ?thesis
        proof (cases "length (script u) < length (script w)")
          case True
          have a: "io_loop bd l (more_script e w) = io_loop bd l' (more_script e u)" for e
            using io_loop_continue [of bd l "more_script e w" l' "more_script e u"] fr i True by simp
          have b: "io_loop bd l w = io_loop bd l' u"
            using io_loop_continue [of bd l w l' u] bw i True by simp
          show ?thesis
            using "1.IH" [OF q [symmetric] Inr i True "1.prems"] by (simp add: a b resumable_def)
        next
          case False
          with bw i have "io_loop bd l w = (Inl Diverge, u)" by (simp add: io_loop.simps [of bd l w])
          then show ?thesis by simp
        qed
      next
        case i: (Inr a)
        have "io_loop bd l w = (Inr a, u)" using io_loop_done [of bd l w a u] bw i by simp
        moreover have "io_loop bd l (more_script e w) = (Inr a, more_script e u)" for e
          using io_loop_done [of bd l "more_script e w" a "more_script e u"] fr i by simp
        ultimately show ?thesis by simp
      qed
    qed
  qed
  show ?thesis
    by (rule framedI [OF grow.keeps_loop [OF framed_grows [OF b]]]) (use main in blast)+
qed

lemma framed_prod: "(\<And>a b. framed (f a b)) \<Longrightarrow> framed (case p of (a, b) \<Rightarrow> f a b)"
  by (cases p) simp

lemma framed_sum: "(\<And>a. framed (f a)) \<Longrightarrow> (\<And>b. framed (g b)) \<Longrightarrow> framed (case s of Inl a \<Rightarrow> f a | Inr b \<Rightarrow> g b)"
  by (cases s) simp_all

lemma framed_option: "framed n \<Longrightarrow> (\<And>b. framed (g b)) \<Longrightarrow> framed (case s of None \<Rightarrow> n | Some b \<Rightarrow> g b)"
  by (cases s) simp_all

lemmas framed_intros = framed_ret framed_stop framed_gets framed_modify framed_emit framed_answer
  framed_bind framed_then framed_when framed_if framed_prod framed_sum framed_option

section \<open>The coroutine code is framed\<close>

lemma framed_curr_time: "framed curr_time"
  unfolding curr_time_def by (intro framed_bind framed_answer) (auto intro: framed_intros split: resp.split)

lemma framed_with_curr: "(\<And>c. framed (f c)) \<Longrightarrow> framed (with_curr f)"
  unfolding with_curr_def by (intro framed_intros) auto

lemma framed_curr_field: "framed (curr_field f)"
  unfolding curr_field_def by (intro framed_with_curr framed_intros)

lemma framed_lift_fault: "framed (lift_fault r)"
  unfolding lift_fault_def by (intro framed_intros) auto

lemmas framed_small = framed_intros framed_curr_time framed_with_curr framed_curr_field framed_lift_fault

definition after_swap :: "(resp, srv_state, event, unit) io" where
  "after_swap = io_bind curr_time (\<lambda>now. modify_st (\<lambda>s. s\<lparr>last_ctx_swap := now\<rparr>))"

lemma swap_resumed:
  assumes "curr_conn (st w) = Some c" and "script w = R_resume f # rs"
  shows "swap_to_main_ctx w =
    (let v = w\<lparr>trace := trace w @ [Ev_yield c], script := rs\<rparr> in
     if conns (f (st w)) c = conns (st w) c \<and> curr_conn (f (st w)) = Some c
     then after_swap (v\<lparr>st := f (st w)\<rparr>) else (Inl Mismatch, v))"
  using assms unfolding swap_to_main_ctx_def same_record_def after_swap_def [symmetric]
  by (simp add: with_curr_def io_exec Let_def)

lemma after_swap_framed: "framed after_swap"
  unfolding after_swap_def by (intro framed_small)

lemma after_swap_not_suspended: "after_swap w \<noteq> (Inl Suspended, v)"
  by (auto simp: after_swap_def curr_time_def io_bind_def answer_def ret_def stop_with_def modify_st_def
      split: list.splits resp.splits)

lemma swap_no_resume:
  assumes "swap_to_main_ctx w = (Inr a, v)"
  shows "\<exists>c f rs. curr_conn (st w) = Some c \<and> script w = R_resume f # rs"
proof -
  obtain c where c: "curr_conn (st w) = Some c"
    using assms by (cases "curr_conn (st w)") (auto simp: swap_to_main_ctx_def with_curr_def io_exec)
  obtain x rs where s: "script w = x # rs"
    using assms c by (cases "script w") (auto simp: swap_to_main_ctx_def with_curr_def io_exec)
  have "is_resume x" using assms c s by (cases x) (auto simp: swap_to_main_ctx_def with_curr_def io_exec)
  then obtain f where "x = R_resume f" by (cases x) auto
  with c s show ?thesis by blast
qed

lemma swap_suspended:
  assumes r: "swap_to_main_ctx w = (Inl Suspended, v)"
  shows "\<exists>c. curr_conn (st w) = Some c \<and> script w = [] \<and> v = w\<lparr>trace := trace w @ [Ev_yield c]\<rparr>"
proof (cases "curr_conn (st w)")
  case None
  with r show ?thesis by (simp add: swap_to_main_ctx_def with_curr_def io_exec)
next
  case (Some c)
  show ?thesis
  proof (cases "script w")
    case Nil
    with r Some show ?thesis by (auto simp: swap_to_main_ctx_def with_curr_def io_exec)
  next
    case (Cons x rs)
    show ?thesis
    proof (cases "is_resume x")
      case True
      then obtain f where "x = R_resume f" by (cases x) auto
      with r swap_resumed [OF Some, of f rs] Cons after_swap_not_suspended show ?thesis
        by (auto simp: Let_def split: if_splits)
    next
      case False
      with r Some Cons show ?thesis by (cases x) (auto simp: swap_to_main_ctx_def with_curr_def io_exec)
    qed
  qed
qed

lemma grow_swap_to_main: "keeps trace_grows swap_to_main_ctx"
proof (rule keepsI)
  fix w r v assume r: "swap_to_main_ctx w = (r, v)"
  have "keeps trace_grows after_swap" by (rule framed_grows [OF after_swap_framed])
  then have "keeps trace_grows (with_curr (\<lambda>conn. io_then (emit (Ev_yield conn))
     (io_bind (answer Suspended) (\<lambda>r. case r of
        R_swapcontext_err \<Rightarrow> stop_with (Exit EXIT_FAILURE)
      | R_resume f \<Rightarrow>
          io_bind (gets_st (\<lambda>s. same_record (conns (f s) conn) (conns s conn) \<and> curr_conn (f s) = Some conn))
          (\<lambda>ok. if ok then io_then (modify_st f) after_swap else stop_with Mismatch)
      | _ \<Rightarrow> stop_with Mismatch))))"
    unfolding with_curr_def
    by (intro grow.keeps_bind grow.keeps_gets)
      (auto intro!: grow.keeps_then grow.keeps_bind grow_emit grow_answer grow.keeps_gets grow.keeps_if grow_modify
        grow.keeps_stop split: option.splits resp.splits)
  from keepsD [OF this [folded swap_to_main_ctx_def [folded after_swap_def]] r] show "trace_grows w v" .
qed

lemma framed_swap_to_main: "framed swap_to_main_ctx"
proof (rule framedI [OF grow_swap_to_main])
  fix w a v e assume r: "swap_to_main_ctx w = (Inr a, v)"
  from swap_no_resume [OF r] obtain c f rs where c: "curr_conn (st w) = Some c"
    and s: "script w = R_resume f # rs" by blast
  let ?u = "w\<lparr>trace := trace w @ [Ev_yield c], script := rs, st := f (st w)\<rparr>"
  from r swap_resumed [OF c s] have ok: "conns (f (st w)) c = conns (st w) c \<and> curr_conn (f (st w)) = Some c"
    and u: "after_swap ?u = (Inr a, v)"
    by (auto simp: Let_def split: if_splits)
  have "more_script e ?u = (more_script e w)\<lparr>trace := trace w @ [Ev_yield c], script := rs @ e, st := f (st w)\<rparr>"
    by (simp add: more_script_def)
  with framed_returns [OF after_swap_framed u, of e] ok
    swap_resumed [of "more_script e w" c f "rs @ e"] c s
  show "swap_to_main_ctx (more_script e w) = (Inr a, more_script e v)" by (simp add: Let_def)
next
  fix w v assume r: "swap_to_main_ctx w = (Inl Suspended, v)"
  from swap_suspended [OF r] obtain c where c: "curr_conn (st w) = Some c" "script w = []"
    "v = w\<lparr>trace := trace w @ [Ev_yield c]\<rparr>" by blast
  have yields: "prefix (trace v) (trace (snd (swap_to_main_ctx (more_script e w))))" for e
  proof -
    have "trace_grows x (snd (after_swap x))" for x
      using framed_grows [OF after_swap_framed] unfolding keeps_def by blast
    then have g: "trace x = t \<Longrightarrow> prefix t (trace (snd (after_swap x)))" for x t
      by (auto simp: trace_grows_def)
    show ?thesis
      using c unfolding swap_to_main_ctx_def after_swap_def [symmetric]
      by (cases e) (auto simp: with_curr_def io_exec io_bind_def io_then_def stop_with_def modify_st_def
          intro!: g split: resp.splits)
  qed
  have "swap_to_main_ctx (more_script [R_resume f] w) = (Inl Wait, v\<lparr>st := f (st v)\<rparr>)" if "accepts f v" for f
    using that c swap_resumed [of "more_script [R_resume f] w" c f "[]"]
    by (simp add: accepts_def Let_def after_swap_def curr_time_def io_bind_def answer_def more_script_def)
  with yields c show "resumable swap_to_main_ctx w v" by (simp add: resumable_def)
qed

lemmas framed_co = framed_small framed_swap_to_main

lemma framed_update_active: "framed curr_conn_update_active"
  unfolding curr_conn_update_active_def by (intro framed_small)

lemma framed_start_op: "framed curr_conn_start_op"
  unfolding curr_conn_start_op_def by (intro framed_small)

lemma framed_set_inactive: "framed curr_conn_set_inactive"
  unfolding curr_conn_set_inactive_def by (intro framed_small)

lemma framed_close: "framed curr_conn_close"
  unfolding curr_conn_close_def by (intro framed_small)

lemma framed_cond_swap: "framed cond_swap_to_main_ctx"
  unfolding cond_swap_to_main_ctx_def need_ctx_swap_def by (intro framed_co)

lemma framed_would_block: "framed would_block"
  unfolding would_block_def curr_conn_active_timeout_def by (intro framed_co framed_set_inactive)

lemma framed_sys_read: "framed (sys_read sock off n)"
  unfolding sys_read_def
  by (intro framed_bind framed_answer) (auto simp: Let_def intro!: framed_co split: resp.split)

lemma framed_sys_write: "framed (sys_write sock buf off n)"
  unfolding sys_write_def
  by (intro framed_bind framed_answer) (auto simp: Let_def intro!: framed_co split: resp.split)

lemma framed_sock_error: "framed (sock_error l e)"
  unfolding sock_error_def by (intro framed_co framed_would_block framed_close)

lemma framed_check_timeout: "framed (check_timeout timeout b)"
  unfolding check_timeout_def curr_conn_op_timeout_def by (intro framed_co)

lemma framed_check_end: "framed (check_end terminator b prev n)"
  unfolding check_end_def by (intro framed_co)

lemma framed_sock: "framed curr_conn_sock"
  unfolding curr_conn_sock_def by (intro framed_co)

lemma framed_recv_from: "framed (recv_from_curr_conn to_recv n_recv timeout terminator)"
  unfolding recv_from_curr_conn_def recv_body_def recv_got_def
  by (intro framed_co framed_loop framed_update_active framed_start_op framed_sock framed_sys_read
      framed_sock_error framed_check_timeout framed_check_end)

lemma framed_send_to: "framed (send_to_curr_conn buf to_send timeout)"
  unfolding send_to_curr_conn_def send_body_def send_got_def
  by (intro framed_co framed_loop framed_update_active framed_start_op framed_sock framed_sys_write
      framed_sock_error framed_check_timeout)

lemma framed_curr_view: "framed (curr_view off n)"
  unfolding curr_view_def by (intro framed_co)

lemma framed_set_recv_pos: "framed (set_recv_pos h u)"
  unfolding set_recv_pos_def by (intro framed_co)

lemma framed_recv_http_hdr: "framed recv_http_hdr"
  unfolding recv_http_hdr_def hdr_finish_def buf_move_def
  by (intro framed_co framed_recv_from framed_curr_view framed_set_recv_pos)

lemma framed_recv_http_msg: "framed recv_http_msg"
  unfolding recv_http_msg_def recv_http_body_def body_loop_def Let_def
  by (intro framed_co framed_loop framed_recv_http_hdr framed_recv_from framed_curr_view
      framed_set_recv_pos framed_cond_swap)

lemma framed_format_date: "framed format_date_hdr"
  unfolding format_date_hdr_def
  by (intro framed_bind framed_answer) (auto intro: framed_co split: resp.split)

lemma framed_handle_request: "framed (handle_one_client_request hash_order)"
  unfolding handle_one_client_request_def send_http_msg_def send_msg_loop_def Let_def
  by (intro framed_co framed_loop framed_recv_http_msg framed_format_date framed_send_to framed_cond_swap)

lemma framed_fcntl: "framed (fcntl sock cmd)"
  unfolding fcntl_def
  by (intro framed_then framed_emit framed_bind framed_answer) (auto intro: framed_co split: resp.split)

lemma framed_gettid: "framed gettid"
  unfolding gettid_def
  by (intro framed_bind framed_answer) (auto intro: framed_co split: resp.split)

lemma framed_sock_setup: "framed (set_nonblock sock)" "framed (set_async sock)"
  unfolding set_nonblock_def set_async_def close_failed_def
  by (intro framed_co framed_fcntl framed_gettid)+

lemma framed_handle_one_connection: "framed (handle_one_connection hash_order)"
  unfolding handle_one_connection_def serve_requests_def
  by (intro framed_co framed_loop framed_sock framed_sock_setup framed_handle_request framed_close) simp_all

end
