(* ===== verification/Scheduler.thy ===== *)
theory Scheduler
  imports Framing
begin

text \<open>
  \<open>swap_to_conn_ctx\<close> of \<open>srv_conn_ctxt.c\<close> and \<open>handle_connections_routine\<close> of
  \<open>srv_routines.c\<close>: the event loop that gives every queued connection its turn.

  A coroutine's suspended context is what it has done so far: the answers it got since it was
  started, \<open>co_hist\<close>, with a resumption in front of the answers of each turn. One turn replays
  them on \<open>co_main\<close> and goes on with the answers of this turn, up to the next switch. The
  replay is exact because the first resumption carries the state the coroutine was started in
  and each later one the state it was resumed in; that it ends where the last turn ended is
  part of the invariant.
\<close>

section \<open>State and turns\<close>

record sched_state = srv_state +
  co_hist :: "nat \<Rightarrow> resp list"
  co_trace :: "nat \<Rightarrow> event list"
  prev_n_conn :: "64 word"

definition wait_start :: "(resp, srv_state, event, unit) io" where
  "wait_start = io_bind (answer Suspended) (\<lambda>r. case r of
     R_resume f \<Rightarrow> modify_st f | _ \<Rightarrow> stop_with Mismatch)"

definition co_main :: "(header_map \<Rightarrow> header_map) \<Rightarrow> (resp, srv_state, event, unit) io" where
  "co_main hash_order = io_then wait_start (handle_one_connection hash_order)"

definition started :: "nat \<Rightarrow> 'a srv_state_scheme \<Rightarrow> bool" where
  "started c s \<longleftrightarrow> uc_func (conn_ctx (conns s c)) = None"

text \<open>The context a coroutine is entered with: a context fresh from \<open>makecontext\<close> is used up.\<close>

definition enter_ctx :: "nat \<Rightarrow> sched_state \<Rightarrow> srv_state" where
  "enter_ctx c s = set_conn c (\<lambda>k. k\<lparr>conn_ctx := (conn_ctx k)\<lparr>uc_func := None\<rparr>\<rparr>) (srv_state.truncate s)"

definition past_of :: "nat \<Rightarrow> sched_state \<Rightarrow> resp list" where
  "past_of c s = (if started c s then co_hist s c else [])"

definition past_trace :: "nat \<Rightarrow> sched_state \<Rightarrow> event list" where
  "past_trace c s = (if started c s then co_trace s c else [])"

definition put_back :: "nat \<Rightarrow> resp list \<Rightarrow> event list \<Rightarrow> srv_state \<Rightarrow> sched_state \<Rightarrow> sched_state" where
  "put_back c h t s' s =
     srv_state.extend s' (sched_state.fields ((co_hist s)(c := h)) ((co_trace s)(c := t)) (prev_n_conn s))"

text \<open>A switch, or the end of the coroutine (\<open>uc_link\<close>), is a return to the main context.\<close>

fun slice_outcome :: "stop + unit \<Rightarrow> stop + unit" where
  "slice_outcome (Inl s) = (if s = Suspended then Inr () else Inl s)"
| "slice_outcome (Inr u) = Inr ()"

definition run_slice :: "(header_map \<Rightarrow> header_map) \<Rightarrow> nat \<Rightarrow> resp list \<Rightarrow>
    (resp, sched_state, event, unit) io" where
  "run_slice hash_order c rs w =
     (if filter is_resume rs \<noteq> [] then (Inl Mismatch, w)
      else
        let s0 = enter_ctx c (st w);
            h = past_of c (st w) @ R_resume (\<lambda>_. s0) # rs in
        (case co_main hash_order \<lparr>script = h, st = s0, trace = []\<rparr> of
           (r, v) \<Rightarrow>
             let w' = w\<lparr>st := put_back c h (trace v) (st v) (st w),
                        trace := trace w @ drop (length (past_trace c (st w))) (trace v)\<rparr> in
             if script v \<noteq> [] then (Inl Mismatch, w) else (slice_outcome r, w')))"

definition swap_to_conn_ctx :: "(header_map \<Rightarrow> header_map) \<Rightarrow> nat \<Rightarrow> (resp, sched_state, event, unit) io" where
  "swap_to_conn_ctx hash_order conn =
     io_then (modify_st (\<lambda>s. s\<lparr>curr_conn := Some conn\<rparr>))
     (io_then (emit (Ev_enter conn))
     (io_bind (answer Wait) (\<lambda>r. case r of
        R_swapcontext_err \<Rightarrow> stop_with (Exit EXIT_FAILURE)
      | R_slice rs \<Rightarrow>
          io_then (run_slice hash_order conn rs)
            (io_bind curr_time (\<lambda>now. modify_st (\<lambda>s. s\<lparr>last_ctx_swap := now\<rparr>)))
      | _ \<Rightarrow> stop_with Mismatch)))"

section \<open>The event loop\<close>

definition syscall :: "(resp, 's, 'e, errno + int) io" where
  "syscall = io_bind (answer Wait) (\<lambda>r. case r of
     R_syscall n \<Rightarrow> if 0 \<le> n then ret (Inr n) else stop_with Mismatch
   | R_syscall_err e \<Rightarrow> ret (Inl e)
   | _ \<Rightarrow> stop_with Mismatch)"

text \<open>The body of \<open>qlist_foreach_entry_safe\<close>: one turn of a connection.\<close>

definition turn :: "(header_map \<Rightarrow> header_map) \<Rightarrow> node \<Rightarrow> (resp, sched_state, event, unit) io" where
  "turn hash_order n =
     (case n of
        ConnNode conn \<Rightarrow>
          io_then (swap_to_conn_ctx hash_order conn)
            (io_bind (gets_st (\<lambda>s. is_completed (conns s conn))) (\<lambda>b.
              io_when b (io_then (remove_conn_from_queue conn) (free_closed_conn conn))))
      | _ \<Rightarrow> stop_with (Fault Null_deref))"

definition handle_all :: "(header_map \<Rightarrow> header_map) \<Rightarrow> (resp, sched_state, event, unit) io" where
  "handle_all hash_order = qlist_foreach_safe links QueueHead (turn hash_order)"

definition accept_new :: "(resp, sched_state, event, unit) io" where
  "accept_new =
     io_bind syscall (\<lambda>r. case r of
       Inr sock \<Rightarrow>
         io_bind (create_new_conn sock) (\<lambda>ret_val.
           io_when (ret_val \<noteq> 0) (stop_with (Exit EXIT_FAILURE)))
     | Inl e \<Rightarrow> ret ())"

definition wait_clients :: "(resp, sched_state, event, unit) io" where
  "wait_clients =
     io_bind (gets_st active_conn_cnt) (\<lambda>n.
     io_then (emit (Ev_epoll (if n \<noteq> 0 then 0 else -1)))
     (io_bind syscall (\<lambda>r. case r of
        Inr ret_val \<Rightarrow> if ret_val > 0 then accept_new else ret ()
      | Inl e \<Rightarrow> if e \<noteq> EINTR then stop_with (Exit EXIT_FAILURE) else ret ())))"

text \<open>\<open>time(NULL)\<close>, and the printed rate once a second.\<close>

definition wall_time :: "(resp, 's, 'e, int) io" where
  "wall_time = io_bind syscall (\<lambda>r. case r of Inr t \<Rightarrow> ret t | Inl e \<Rightarrow> ret (-1))"

definition round_body :: "(header_map \<Rightarrow> header_map) \<Rightarrow> int \<Rightarrow> (resp, sched_state, event, int + unit) io" where
  "round_body hash_order all_start =
     io_then wait_clients
     (io_then (handle_all hash_order)
     (io_bind wall_time (\<lambda>all_end.
       if all_end - all_start \<ge> 1
       then io_bind (gets_st (\<lambda>s. sint (n_conn s - prev_n_conn s))) (\<lambda>n.
         io_then (emit (Ev_rate n))
         (io_then (modify_st (\<lambda>s. s\<lparr>prev_n_conn := n_conn s\<rparr>)) (ret (Inl all_end))))
       else ret (Inl all_start))))"

definition exit_on_error :: "errno + int \<Rightarrow> ('r, 's, 'e, unit) io" where
  "exit_on_error r = (case r of Inl e \<Rightarrow> stop_with (Exit EXIT_FAILURE) | Inr n \<Rightarrow> ret ())"

text \<open>
  The start of the routine, up to \<open>all_start\<close>. The signal set-up (\<open>sigprocmask\<close>, \<open>signal\<close>)
  changes nothing the model keeps.
\<close>

definition routine_setup :: "int \<Rightarrow> (resp, sched_state, event, int) io" where
  "routine_setup srv_sock =
     io_then (modify_st init_conn_queue)
     (io_then init_conn_ctx_cache
     (io_bind (set_nonblock srv_sock) (\<lambda>r.
     if r \<noteq> 0 then stop_with (Exit EXIT_FAILURE)
     else io_then (io_bind syscall exit_on_error)
       (io_then (io_bind syscall exit_on_error)
       (io_then (io_bind syscall exit_on_error) wall_time)))))"

definition handle_connections_routine :: "(header_map \<Rightarrow> header_map) \<Rightarrow> int \<Rightarrow>
    (resp, sched_state, event, unit) io" where
  "handle_connections_routine hash_order srv_sock =
     io_bind (routine_setup srv_sock) (\<lambda>all_start. io_loop (round_body hash_order) all_start)"

section \<open>The coroutine's changes keep the invariant\<close>

lemma length_filter_flip:
  assumes "distinct q" and "c \<in> set q" and "\<not> P c" and "P' c" and "\<And>x. x \<noteq> c \<Longrightarrow> P' x = P x"
  shows "length (filter P' q) = length (filter P q) + 1"
proof -
  from assms(2) obtain as bs where q: "q = as @ c # bs" by (meson split_list)
  have "filter P' as = filter P as" "filter P' bs = filter P bs"
    by (rule filter_cong [OF refl], rule assms(5), use assms(1) q in auto)+
  with q assms(3,4) show ?thesis by simp
qed

lemma memory_inv_cong:
  assumes "memory_inv s" and "live_conns s' = live_conns s" "regions s' = regions s"
    and "\<And>x. ctx_buf_p (conns s' x) = ctx_buf_p (conns s x)"
    and "\<And>x. layout_ok (conns s x) \<Longrightarrow> layout_ok (conns s' x)"
  shows "memory_inv s'"
  using assms by (simp add: memory_inv_def)

lemma ctxt_inv_update_active:
  assumes inv: "ctxt_inv q k d s" and c: "c \<in> set q"
  shows "ctxt_inv q k d (update_active c now s)"
proof -
  let ?s = "set_conn c (\<lambda>k. k\<lparr>last_active := now\<rparr>) s"
  have s: "ctxt_inv q k d ?s"
    by (rule ctxt_inv_set_conn [OF inv]) simp_all
  show ?thesis
  proof (cases "is_active (conns s c)")
    case True
    with s show ?thesis by (simp add: update_active_def Let_def)
  next
    case False
    let ?t = "update_active c now s"
    have t: "?t = (set_conn c (\<lambda>k. k\<lparr>is_active := True\<rparr>) ?s)
        \<lparr>active_conn_cnt := active_conn_cnt s + 1, inactive_conn_cnt := inactive_conn_cnt s - 1\<rparr>"
      using False by (simp add: update_active_def Let_def)
    have d: "distinct q" using inv by (auto simp: ctxt_inv_defs)
    have "length (filter (\<lambda>x. is_active (conns ?t x)) q) = length (filter (\<lambda>x. is_active (conns s x)) q) + 1"
      by (rule length_filter_flip [OF d c]) (use False in \<open>auto simp: t\<close>)
    moreover have "length (filter (\<lambda>x. \<not> is_active (conns s x)) q) =
        length (filter (\<lambda>x. \<not> is_active (conns ?t x)) q) + 1"
      by (rule length_filter_flip [OF d c]) (use False in \<open>auto simp: t\<close>)
    ultimately have "counts_inv q k ?t" using inv by (auto simp: ctxt_inv_def counts_inv_def t)
    moreover have "memory_inv ?t"
      by (rule memory_inv_cong [of ?s]) (use s in \<open>auto simp: ctxt_inv_def t split: if_splits\<close>)
    ultimately show ?thesis using inv by (simp add: ctxt_inv_def t)
  qed
qed

lemma ctxt_inv_set_inactive:
  assumes inv: "ctxt_inv q k d s" and c: "c \<in> set q"
  shows "ctxt_inv q k d (set_inactive c s)"
proof (cases "is_active (conns s c)")
  case True
  let ?t = "set_inactive c s"
  have t: "?t = (set_conn c (\<lambda>k. k\<lparr>is_active := False\<rparr>) s)
      \<lparr>active_conn_cnt := active_conn_cnt s - 1, inactive_conn_cnt := inactive_conn_cnt s + 1\<rparr>"
    using True by (simp add: set_inactive_def)
  have d: "distinct q" using inv by (auto simp: ctxt_inv_defs)
  have "length (filter (\<lambda>x. is_active (conns s x)) q) = length (filter (\<lambda>x. is_active (conns ?t x)) q) + 1"
    by (rule length_filter_flip [OF d c]) (use True in \<open>auto simp: t\<close>)
  moreover have "length (filter (\<lambda>x. \<not> is_active (conns ?t x)) q) =
      length (filter (\<lambda>x. \<not> is_active (conns s x)) q) + 1"
    by (rule length_filter_flip [OF d c]) (use True in \<open>auto simp: t\<close>)
  ultimately have "counts_inv q k ?t" using inv by (auto simp: ctxt_inv_def counts_inv_def t)
  moreover have "memory_inv ?t"
    by (rule memory_inv_cong [of s]) (use inv in \<open>auto simp: ctxt_inv_def t split: if_splits\<close>)
  ultimately show ?thesis using inv by (simp add: ctxt_inv_def t)
qed (use inv in \<open>simp add: set_inactive_def\<close>)

text \<open>
  What holds of the state while the coroutine of \<open>c\<close> runs, having been entered in \<open>s0\<close>: the
  queue and the cache are as they were, and no other connection's record has changed.
\<close>

definition coroutine_inv :: "nat list \<Rightarrow> nat list \<Rightarrow> nat \<Rightarrow> srv_state \<Rightarrow> srv_state \<Rightarrow> bool" where
  "coroutine_inv q k c s0 s \<longleftrightarrow>
     ctxt_inv q k [] s \<and> c \<in> set q \<and> started c s \<and> (\<forall>x. x \<noteq> c \<longrightarrow> conns s x = conns s0 x)"

lemma update_active_other: "x \<noteq> c \<Longrightarrow> conns (update_active c now s) x = conns s x"
  by (simp add: update_active_def Let_def)

lemma update_active_ctx: "conn_ctx (conns (update_active c now s) x) = conn_ctx (conns s x)"
  by (simp add: update_active_def Let_def)

lemma set_inactive_other: "x \<noteq> c \<Longrightarrow> conns (set_inactive c s) x = conns s x"
  by (simp add: set_inactive_def)

lemma set_inactive_ctx: "conn_ctx (conns (set_inactive c s) x) = conn_ctx (conns s x)"
  by (simp add: set_inactive_def)

text \<open>A connection's own behaviour depends on nothing else: it is proved with no global invariant.\<close>

interpretation solo: coroutine_state c "\<lambda>_. True" for c
  by unfold_locales simp_all

lemma co_inv_solo [simp]: "co_inv c (\<lambda>_. True) w \<longleftrightarrow> own_ok c (st w)"
proof -
  have "is_resume (List.last (filter is_resume xs))" if "filter is_resume xs \<noteq> []" for xs
    using last_in_set [OF that] by simp
  then have "resume_inv (\<lambda>_. True) w"
    unfolding resume_inv_def by (metis is_resume.elims(2))
  then show ?thesis by (simp add: co_inv_def)
qed

interpretation co_run: coroutine_state c "coroutine_inv q k c s0" for q k c s0
proof
  fix s f assume "own_ok c s" and "coroutine_inv q k c s0 s" and "same_footprint (conns s c) (f (conns s c))"
  then show "coroutine_inv q k c s0 (set_conn c f s)"
    by (auto simp: coroutine_inv_def same_footprint_def started_def intro: ctxt_inv_set_conn)
qed (auto simp: coroutine_inv_def ctxt_inv_update_active ctxt_inv_set_inactive ctxt_inv_frame started_def
    update_active_other update_active_ctx set_inactive_other set_inactive_ctx)

end
