(* ===== verification/Event_Loop.thy ===== *)
theory Event_Loop
  imports Scheduler
begin

text \<open>
  The invariant of the event loop: the queue, the cache, the counters and the memory agree, every
  queued connection is open and its suspended coroutine can be resumed where it stopped. This
  theory shows what running one slice of a coroutine does to it; \<open>Worker\<close> goes on to turns, new
  clients and rounds.
\<close>

section \<open>States with the coroutines' past\<close>

lemma truncate_simps [simp]:
  "links (srv_state.truncate s) = links s" "conns (srv_state.truncate s) = conns s"
  "live_conns (srv_state.truncate s) = live_conns s" "regions (srv_state.truncate s) = regions s"
  "curr_conn (srv_state.truncate s) = curr_conn s"
  "active_conn_cnt (srv_state.truncate s) = active_conn_cnt s"
  "inactive_conn_cnt (srv_state.truncate s) = inactive_conn_cnt s"
  "last_ctx_swap (srv_state.truncate s) = last_ctx_swap s"
  "cache_cnt (srv_state.truncate s) = cache_cnt s" "n_conn (srv_state.truncate s) = n_conn s"
  by (simp_all add: srv_state.truncate_def)

lemma put_back_simps [simp]:
  "links (put_back c h t s' s) = links s'" "conns (put_back c h t s' s) = conns s'"
  "live_conns (put_back c h t s' s) = live_conns s'" "regions (put_back c h t s' s) = regions s'"
  "curr_conn (put_back c h t s' s) = curr_conn s'"
  "active_conn_cnt (put_back c h t s' s) = active_conn_cnt s'"
  "inactive_conn_cnt (put_back c h t s' s) = inactive_conn_cnt s'"
  "cache_cnt (put_back c h t s' s) = cache_cnt s'" "n_conn (put_back c h t s' s) = n_conn s'"
  "co_hist (put_back c h t s' s) = (co_hist s)(c := h)"
  "co_trace (put_back c h t s' s) = (co_trace s)(c := t)"
  "prev_n_conn (put_back c h t s' s) = prev_n_conn s"
  by (simp_all add: put_back_def srv_state.extend_def sched_state.fields_def)

lemma ctxt_inv_agree:
  assumes "links s' = links s" "conns s' = conns s" "live_conns s' = live_conns s"
    "regions s' = regions s" "active_conn_cnt s' = active_conn_cnt s"
    "inactive_conn_cnt s' = inactive_conn_cnt s" "cache_cnt s' = cache_cnt s"
  shows "ctxt_inv q k d s' = ctxt_inv q k d s"
  using assms by (simp add: ctxt_inv_defs)

lemma ctxt_inv_truncate [simp]: "ctxt_inv q k d (srv_state.truncate s) = ctxt_inv q k d s"
  by (rule ctxt_inv_agree) simp_all

lemma ctxt_inv_put_back [simp]: "ctxt_inv q k d (put_back c h t s' s) = ctxt_inv q k d s'"
  by (rule ctxt_inv_agree) simp_all

text \<open>
  A suspended coroutine: replayed from the state it was started in, with the answers of its
  past, it stops at a switch with the connection's record as it is now.
\<close>

definition paused :: "(header_map \<Rightarrow> header_map) \<Rightarrow> nat \<Rightarrow> sched_state \<Rightarrow> bool" where
  "paused hash_order c s \<longleftrightarrow> (started c s \<longrightarrow>
     (\<exists>s1 h v. co_hist s c = R_resume (\<lambda>_. s1) # h \<and> own_ok c s1 \<and>
        handle_one_connection hash_order \<lparr>script = h, st = s1, trace = []\<rparr> = (Inl Suspended, v) \<and>
        curr_conn (st v) = Some c \<and> conns (st v) c = conns s c \<and> trace v = co_trace s c))"

definition sched_inv :: "(header_map \<Rightarrow> header_map) \<Rightarrow> nat list \<Rightarrow> nat list \<Rightarrow> sched_state \<Rightarrow> bool" where
  "sched_inv hash_order q k s \<longleftrightarrow>
     ctxt_inv q k [] s \<and> (\<forall>c \<in> set q. paused hash_order c s \<and> \<not> is_completed (conns s c))"

definition same_conn :: "nat \<Rightarrow> sched_state \<Rightarrow> sched_state \<Rightarrow> bool" where
  "same_conn x s s' \<longleftrightarrow>
     conns s' x = conns s x \<and> co_hist s' x = co_hist s x \<and> co_trace s' x = co_trace s x"

lemma paused_same: "same_conn x s s' \<Longrightarrow> paused hash_order x s \<Longrightarrow> paused hash_order x s'"
  by (simp add: paused_def same_conn_def started_def)

lemma same_conn_trans: "same_conn x s s' \<Longrightarrow> same_conn x s' s'' \<Longrightarrow> same_conn x s s''"
  by (simp add: same_conn_def)

lemma co_main_start:
  "co_main hash_order \<lparr>script = R_resume (\<lambda>_. s1) # h, st = s, trace = t\<rparr> =
    handle_one_connection hash_order \<lparr>script = h, st = s1, trace = t\<rparr>"
  by (simp add: co_main_def wait_start_def io_exec)

section \<open>One turn\<close>

text \<open>Where the coroutine is entered, in terms of its own code.\<close>

lemma enter_ctx_simps [simp]:
  "curr_conn (enter_ctx c s) = curr_conn s" "started c (enter_ctx c s)"
  "layout_ok (conns (enter_ctx c s) c) = layout_ok (conns s c)"
  "x \<noteq> c \<Longrightarrow> conns (enter_ctx c s) x = conns s x"
  by (simp_all add: enter_ctx_def started_def layout_ok_def)

lemma ctxt_inv_enter: "ctxt_inv q k d s \<Longrightarrow> ctxt_inv q k d (enter_ctx c s)"
  unfolding enter_ctx_def by (rule ctxt_inv_set_conn) (simp_all add: layout_ok_def)

lemma slice_entry:
  assumes inv: "ctxt_inv q k [] s" "c \<in> set q" "curr_conn s = Some c" and p: "paused hash_order c s"
    and rs: "filter is_resume rs = []"
  shows "\<exists>s1 h. past_of c s @ R_resume (\<lambda>_. enter_ctx c s) # rs = R_resume (\<lambda>_. s1) # h \<and> own_ok c s1 \<and>
    co_inv c (coroutine_inv q k c (enter_ctx c s)) \<lparr>script = h, st = s1, trace = []\<rparr>"
proof -
  let ?s0 = "enter_ctx c s"
  have own: "own_ok c ?s0" using inv ctxt_inv_layout [OF inv(1), of c] by (simp add: own_ok_def)
  have J: "coroutine_inv q k c ?s0 ?s0" using inv by (simp add: coroutine_inv_def ctxt_inv_enter)
  show ?thesis
  proof (cases "started c s")
    case False
    then have "past_of c s @ R_resume (\<lambda>_. ?s0) # rs = R_resume (\<lambda>_. ?s0) # rs" by (simp add: past_of_def)
    moreover have "co_inv c (coroutine_inv q k c ?s0) \<lparr>script = rs, st = ?s0, trace = []\<rparr>"
      using own J rs by (simp add: co_inv_def resume_inv_def)
    ultimately show ?thesis using own by blast
  next
    case True
    with p obtain s1 h where h: "co_hist s c = R_resume (\<lambda>_. s1) # h" "own_ok c s1"
      by (auto simp: paused_def)
    let ?h = "h @ R_resume (\<lambda>_. ?s0) # rs"
    have "filter is_resume ?h = filter is_resume h @ [R_resume (\<lambda>_. ?s0)]" using rs by simp
    then have "co_inv c (coroutine_inv q k c ?s0) \<lparr>script = ?h, st = s1, trace = []\<rparr>"
      using h(2) J by (simp add: co_inv_def resume_inv_def)
    moreover have "past_of c s @ R_resume (\<lambda>_. ?s0) # rs = R_resume (\<lambda>_. s1) # ?h"
      using True h(1) by (simp add: past_of_def)
    ultimately show ?thesis using h(2) by blast
  qed
qed

lemma run_slice_result:
  assumes inv: "ctxt_inv q k [] (st w)" "c \<in> set q" "curr_conn (st w) = Some c"
    and p: "paused hash_order c (st w)" and run: "run_slice hash_order c rs w = (r, v)"
  shows "case r of
      Inl s \<Rightarrow> s \<noteq> Mismatch \<longrightarrow> stop_ok s
    | Inr u \<Rightarrow> ctxt_inv q k [] (st v) \<and> started c (st v) \<and>
        (is_completed (conns (st v) c) \<or> paused hash_order c (st v)) \<and>
        (\<forall>x. x \<noteq> c \<longrightarrow> same_conn x (st w) (st v))"
proof (cases "filter is_resume rs = []")
  case False
  with run show ?thesis by (auto simp: run_slice_def)
next
  case rs: True
  let ?s0 = "enter_ctx c (st w)"
  let ?J = "coroutine_inv q k c ?s0"
  from slice_entry [OF inv p rs] obtain s1 h where
    h: "past_of c (st w) @ R_resume (\<lambda>_. ?s0) # rs = R_resume (\<lambda>_. s1) # h" "own_ok c s1" and co: "co_inv c ?J \<lparr>script = h, st = s1, trace = []\<rparr>" by blast
  let ?w1 = "\<lparr>script = h, st = s1, trace = []\<rparr>"
  obtain r' u where ru: "handle_one_connection hash_order ?w1 = (r', u)" by fastforce
  let ?st' = "put_back c (R_resume (\<lambda>_. s1) # h) (trace u) (st u) (st w)"
  let ?w' = "w\<lparr>st := ?st', trace := trace w @ drop (length (past_trace c (st w))) (trace u)\<rparr>"
  have result: "run_slice hash_order c rs w = (if script u \<noteq> [] then (Inl Mismatch, w)
      else (slice_outcome r', ?w'))"
    using rs ru by (simp add: run_slice_def Let_def h(1) co_main_start)
  let ?P = "mem_view (recv_mem (conns s1 c)) (nat (recv_buf_curr (conns s1 c)))
      (nat (recv_buf_have (conns s1 c) - recv_buf_curr (conns s1 c)))"
  have "co_post c ?J (\<lambda>_ k t. is_completed k \<and> conv_result hash_order ?P [] [] k t) r' u"
    by (rule coD [OF co_run.co_handle_one_connection co _ ru]) (simp add: stream_def)
  then have post: "case r' of Inl s \<Rightarrow> s \<noteq> Mismatch \<longrightarrow> co_inv c ?J u \<and> stop_ok s
      | Inr a \<Rightarrow> co_inv c ?J u \<and> is_completed (conns (st u) c)"
    by (simp add: co_post_def split: sum.splits)
  have kept: "ctxt_inv q k [] ?st' \<and> started c ?st' \<and> (\<forall>x. x \<noteq> c \<longrightarrow> same_conn x (st w) ?st')"
    if "co_inv c ?J u" "script u = []"
    using that by (auto simp: co_inv_def resume_inv_def coroutine_inv_def same_conn_def started_def)
  have susp: "paused hash_order c ?st'" if "r' = Inl Suspended" "co_inv c ?J u"
    using that h(2) ru by (auto simp: paused_def co_inv_def own_ok_def)
  show ?thesis
  proof (cases "script u = []")
    case False
    with result run show ?thesis by simp
  next
    case True
    show ?thesis
    proof (cases r')
      case (Inr a)
      with result run True have "r = Inr ()" "v = ?w'" by auto
      with post Inr kept True show ?thesis by simp
    next
      case (Inl s)
      show ?thesis
      proof (cases "s = Suspended")
        case sus: True
        with Inl result run True have "r = Inr ()" "v = ?w'" by auto
        with post Inl kept susp sus True show ?thesis by simp
      next
        case False
        with Inl result run True have "r = Inl s" by simp
        with post Inl show ?thesis by simp
      qed
    qed
  qed
qed

section \<open>Reasoning about the worker\<close>

definition worker :: "((resp, sched_state, event) world \<Rightarrow> bool) \<Rightarrow> (resp, sched_state, event, 'a) io \<Rightarrow>
    ('a \<Rightarrow> (resp, sched_state, event) world \<Rightarrow> bool) \<Rightarrow> bool" where
  "worker P m Q \<longleftrightarrow> triple P m (\<lambda>r v. case r of Inl s \<Rightarrow> stop_ok s | Inr a \<Rightarrow> Q a v)"

lemma workerI:
  "(\<And>w r v. P w \<Longrightarrow> m w = (r, v) \<Longrightarrow> case r of Inl s \<Rightarrow> stop_ok s | Inr a \<Rightarrow> Q a v) \<Longrightarrow> worker P m Q"
  unfolding worker_def by (rule tripleI)

lemma workerD: "worker P m Q \<Longrightarrow> P w \<Longrightarrow> m w = (r, v) \<Longrightarrow> case r of Inl s \<Rightarrow> stop_ok s | Inr a \<Rightarrow> Q a v"
  unfolding worker_def by (rule tripleD)

lemma worker_hoare: "hoare P m Q \<Longrightarrow> worker P m Q"
proof (rule workerI)
  fix w r v assume h: "hoare P m Q" "P w" "m w = (r, v)"
  show "case r of Inl s \<Rightarrow> stop_ok s | Inr a \<Rightarrow> Q a v"
  proof (cases r)
    case (Inl s)
    with hoare_no_fault [OF h(1,2), of s v] h(3) show ?thesis by (cases s) auto
  next
    case (Inr a)
    with hoare_returns [OF h(1,2), of a v] h(3) show ?thesis by simp
  qed
qed

lemma worker_conseq:
  "worker P' m Q' \<Longrightarrow> (\<And>w. P w \<Longrightarrow> P' w) \<Longrightarrow> (\<And>a w. Q' a w \<Longrightarrow> Q a w) \<Longrightarrow> worker P m Q"
  unfolding worker_def by (erule triple_conseq) (auto split: sum.splits)

lemma worker_bind: "worker P m M \<Longrightarrow> (\<And>a. worker (M a) (f a) Q) \<Longrightarrow> worker P (io_bind m f) Q"
  unfolding worker_def by (erule triple_bind) simp_all

lemma worker_then: "worker P m (\<lambda>_. M) \<Longrightarrow> worker M k Q \<Longrightarrow> worker P (io_then m k) Q"
  unfolding io_then_def by (erule worker_bind)

lemma worker_if: "(b \<Longrightarrow> worker P m Q) \<Longrightarrow> (\<not> b \<Longrightarrow> worker P k Q) \<Longrightarrow> worker P (if b then m else k) Q"
  by simp

lemma worker_ret: "(\<And>w. P w \<Longrightarrow> Q a w) \<Longrightarrow> worker P (ret a) Q"
  by (rule worker_hoare [OF hoare_ret])

lemma worker_stop: "stop_ok s \<Longrightarrow> worker P (stop_with s) Q"
  by (rule workerI) (auto simp: stop_with_def)

lemma worker_ex: "(\<And>x. worker (P x) m Q) \<Longrightarrow> worker (\<lambda>w. \<exists>x. P x w) m Q"
  by (rule workerI) (blast dest: workerD)

lemma worker_pure: "(p \<Longrightarrow> worker P m Q) \<Longrightarrow> worker (\<lambda>w. P w \<and> p) m Q"
  by (rule workerI) (blast dest: workerD)

lemma worker_loop:
  assumes "\<And>l. worker (I l) (bd l) (\<lambda>r v. case r of Inl l' \<Rightarrow> I l' v | Inr a \<Rightarrow> Q a v)"
  shows "worker (I l) (io_loop bd l) Q"
  unfolding worker_def
proof (rule triple_loop)
  fix l
  show "triple (I l) (bd l) (\<lambda>r v. case r of Inl s \<Rightarrow> (case Inl s of Inl s \<Rightarrow> stop_ok s | Inr a \<Rightarrow> Q a v)
    | Inr (Inl l') \<Rightarrow> I l' v | Inr (Inr a) \<Rightarrow> (case Inr a of Inl s \<Rightarrow> stop_ok s | Inr a \<Rightarrow> Q a v))"
    using assms [of l] unfolding worker_def
    by (rule triple_conseq) (auto split: sum.splits)
qed simp

end
