(* ===== verification/Worker.thy ===== *)
theory Worker
  imports Event_Loop
begin

text \<open>
  The event loop of \<open>srv_routines.c\<close> as a whole: every turn, every new client and every round keeps
  the invariant of \<open>Event_Loop\<close>, the loop over the queue gives each connection one turn in
  the order of the queue, a suspended coroutine can be resumed, and the worker never returns and
  has no fault but those of the coroutine code.
\<close>

section \<open>What the operations leave alone\<close>

text \<open>Freeing and unlinking change no connection's record; allocating changes none that is in use.\<close>

definition same_records :: "('r, 'a srv_state_scheme, 'e) world \<Rightarrow> ('r, 'a srv_state_scheme, 'e) world \<Rightarrow> bool" where
  "same_records w v \<longleftrightarrow> conns (st v) = conns (st w) \<and> srv_state.more (st v) = srv_state.more (st w)"

definition frozen :: "('r, 'a srv_state_scheme, 'e) world \<Rightarrow> ('r, 'a srv_state_scheme, 'e) world \<Rightarrow> bool" where
  "frozen w v \<longleftrightarrow> live_conns (st w) \<subseteq> live_conns (st v) \<and>
     (\<forall>x \<in> live_conns (st w). conns (st v) x = conns (st w) x) \<and> srv_state.more (st v) = srv_state.more (st w)"

interpretation sr: world_preorder same_records
  by unfold_locales (auto simp: same_records_def)

interpretation fz: world_preorder frozen
  by unfold_locales (auto simp: frozen_def)

lemma sr_modify:
  "(\<And>s. conns (f s) = conns s \<and> srv_state.more (f s) = srv_state.more s) \<Longrightarrow> keeps same_records (modify_st f)"
  by (rule keepsI) (auto simp: modify_st_def same_records_def)

lemma sr_lift_links: "keeps same_records (lift_links f)"
  unfolding lift_links_def
  by (intro sr.keeps_bind sr.keeps_gets) (auto intro: sr.keeps_stop sr_modify split: option.splits)

lemma sr_remove: "keeps same_records (remove_conn_from_queue c)"
  unfolding remove_conn_from_queue_def
  by (intro sr.keeps_then sr_lift_links sr_modify) simp

lemma sr_add: "keeps same_records (add_conn_to_queue c)"
  unfolding add_conn_to_queue_def
  by (intro sr.keeps_then sr_lift_links sr_modify) simp

lemma sr_free: "keeps same_records (free_closed_conn c)"
  unfolding free_closed_conn_def free_conn_ctx_def
  by (intro sr.keeps_bind sr.keeps_then sr.keeps_if sr.keeps_gets sr_lift_links sr_modify)
    (simp_all add: free_conn_ctx_mem_def)

lemma fz_modify:
  "(\<And>s. conns (f s) = conns s \<and> live_conns (f s) = live_conns s \<and> srv_state.more (f s) = srv_state.more s) \<Longrightarrow>
    keeps frozen (modify_st f)"
  by (rule keepsI) (auto simp: modify_st_def frozen_def)

lemma fz_answer: "keeps frozen (answer s)"
  by (rule keepsI) (auto simp: answer_def frozen_def split: list.splits)

lemma fz_lift_links: "keeps frozen (lift_links f)"
  unfolding lift_links_def
  by (intro fz.keeps_bind fz.keeps_gets) (auto intro: fz.keeps_stop fz_modify split: option.splits)

lemma fz_new_conn:
  "keeps frozen (io_bind (gets_st live_conns) (\<lambda>lv.
     if conn \<in> lv then stop_with Mismatch
     else io_then (modify_st (\<lambda>s. s\<lparr>live_conns := insert conn (live_conns s)\<rparr>))
       (io_then (modify_st (set_conn conn f)) (ret (Some conn)))))"
  by (rule keepsI) (auto simp: io_exec io_bind_def io_then_def frozen_def set_conn_def
      gets_st_def modify_st_def stop_with_def ret_def split: if_splits)

lemmas fz_rules = fz.keeps_bind fz.keeps_then fz.keeps_if fz.keeps_when fz.keeps_gets fz.keeps_ret fz.keeps_stop
  fz_answer fz_lift_links fz_modify fz_new_conn

lemma fz_alloc_mem: "keeps frozen alloc_conn_ctx_mem"
  unfolding alloc_conn_ctx_mem_def
  by (intro fz_rules) (auto intro!: fz_rules split: resp.splits option.splits)

lemma fz_fill: "keeps frozen fill_conn_ctx_cache"
  unfolding fill_conn_ctx_cache_def fill_loop_body_def
  by (intro fz_rules fz.keeps_loop fz_alloc_mem) (auto intro!: fz_rules split: option.splits)

lemma fz_take: "keeps frozen take_cached_ctx"
  unfolding take_cached_ctx_def
  by (intro fz_rules) (auto intro!: fz_rules split: option.splits node.splits)

lemma fz_alloc: "keeps frozen alloc_conn_ctx"
  unfolding alloc_conn_ctx_def by (intro fz_rules fz_fill fz_take)

section \<open>One turn keeps the invariant\<close>

lemma sched_more: "srv_state.more s = srv_state.more s' \<Longrightarrow> co_hist s = co_hist s' \<and> co_trace s = co_trace s'"
  by (cases s; cases s') simp

lemma same_records_conn: "same_records w v \<Longrightarrow> same_conn x (st w) (st v)"
  using sched_more [of "st v" "st w"] by (simp add: same_records_def same_conn_def)

lemma frozen_conn: "frozen w v \<Longrightarrow> x \<in> live_conns (st w) \<Longrightarrow> same_conn x (st w) (st v)"
  using sched_more [of "st v" "st w"] by (simp add: frozen_def same_conn_def)

text \<open>Between the switch back and the end of the turn the connection may be completed.\<close>

definition turned :: "(header_map \<Rightarrow> header_map) \<Rightarrow> nat list \<Rightarrow> nat list \<Rightarrow> nat \<Rightarrow> sched_state \<Rightarrow>
    sched_state \<Rightarrow> bool" where
  "turned hash_order q k c s0 s \<longleftrightarrow>
     ctxt_inv q k [] s \<and> (is_completed (conns s c) \<or> paused hash_order c s) \<and>
     (\<forall>x \<in> set q. x \<noteq> c \<longrightarrow> paused hash_order x s \<and> \<not> is_completed (conns s x)) \<and>
     (\<forall>x. x \<noteq> c \<longrightarrow> same_conn x s0 s)"

lemma same_conn_frame [simp]:
  "same_conn x s0 (s\<lparr>curr_conn := c\<rparr>) = same_conn x s0 s" "same_conn x s0 (s\<lparr>last_ctx_swap := t\<rparr>) = same_conn x s0 s"
  "same_conn x s s"
  by (simp_all add: same_conn_def)

lemma paused_frame [simp]:
  "paused hash_order x (s\<lparr>curr_conn := c\<rparr>) = paused hash_order x s"
  "paused hash_order x (s\<lparr>last_ctx_swap := t\<rparr>) = paused hash_order x s"
  by (simp_all add: paused_def started_def)

lemma turned_frame [simp]:
  "turned hash_order q k c s0 (s\<lparr>last_ctx_swap := t\<rparr>) = turned hash_order q k c s0 s"
  by (simp add: turned_def ctxt_inv_frame)

lemma worker_state_time:
  assumes "\<And>s t. A s \<Longrightarrow> A (s\<lparr>last_ctx_swap := t\<rparr>)"
  shows "worker (\<lambda>w. A (st w)) (io_bind curr_time (\<lambda>now. modify_st (\<lambda>s. s\<lparr>last_ctx_swap := now\<rparr>))) (\<lambda>_ w. A (st w))"
proof (rule worker_hoare, rule hoare_bind)
  show "hoare (\<lambda>w. A (st w)) curr_time (\<lambda>_ w. A (st w))"
    unfolding curr_time_def
    by (rule hoare_answer_bind) (auto intro!: hoare_if hoare_ret hoare_stop split: resp.splits)
  show "hoare (\<lambda>w. A (st w)) (modify_st (\<lambda>s. s\<lparr>last_ctx_swap := now\<rparr>)) (\<lambda>_ w. A (st w))" for now
    by (rule hoare_modify) (simp add: assms)
qed

text \<open>The states a turn of \<open>c\<close> starts in, once it is the current connection.\<close>

definition turning :: "(header_map \<Rightarrow> header_map) \<Rightarrow> nat list \<Rightarrow> nat list \<Rightarrow> nat \<Rightarrow> sched_state \<Rightarrow>
    sched_state \<Rightarrow> bool" where
  "turning hash_order q k c s0 s \<longleftrightarrow>
     sched_inv hash_order q k s \<and> c \<in> set q \<and> curr_conn s = Some c \<and> (\<forall>x. x \<noteq> c \<longrightarrow> same_conn x s0 s)"

lemma worker_slice:
  "worker (\<lambda>w. turning hash_order q k c s0 (st w)) (run_slice hash_order c rs)
     (\<lambda>_ w. turned hash_order q k c s0 (st w))"
proof (rule workerI)
  fix w r v
  assume P: "turning hash_order q k c s0 (st w)" and run: "run_slice hash_order c rs w = (r, v)"
  from P have inv: "ctxt_inv q k [] (st w)" "paused hash_order c (st w)" by (auto simp: turning_def sched_inv_def)
  note res = run_slice_result [OF inv(1) _ _ inv(2) run]
  show "case r of Inl s \<Rightarrow> stop_ok s | Inr a \<Rightarrow> turned hash_order q k c s0 (st v)"
  proof (cases r)
    case (Inl s)
    with res P show ?thesis by (cases s) (auto simp: turning_def)
  next
    case (Inr u)
    with res P have v: "ctxt_inv q k [] (st v)" "is_completed (conns (st v) c) \<or> paused hash_order c (st v)"
      "\<And>x. x \<noteq> c \<Longrightarrow> same_conn x (st w) (st v)" by (auto simp: turning_def)
    have "paused hash_order x (st v) \<and> \<not> is_completed (conns (st v) x)" if "x \<in> set q" "x \<noteq> c" for x
      using that P paused_same [OF v(3)] v(3) [OF that(2)] by (auto simp: turning_def sched_inv_def same_conn_def)
    moreover have "same_conn x s0 (st v)" if "x \<noteq> c" for x
      using P v(3) [OF that] that same_conn_trans by (auto simp: turning_def)
    ultimately show ?thesis using v Inr by (simp add: turned_def)
  qed
qed

lemma worker_swap:
  "worker (\<lambda>w. sched_inv hash_order q k (st w) \<and> c \<in> set q \<and> st w = s0) (swap_to_conn_ctx hash_order c)
     (\<lambda>_ w. turned hash_order q k c s0 (st w))"
  unfolding swap_to_conn_ctx_def
proof (intro worker_then)
  let ?P = "\<lambda>w. turning hash_order q k c s0 (st w)"
  show "worker (\<lambda>w. sched_inv hash_order q k (st w) \<and> c \<in> set q \<and> st w = s0)
      (modify_st (\<lambda>s. s\<lparr>curr_conn := Some c\<rparr>)) (\<lambda>_. ?P)"
    by (rule worker_hoare, rule hoare_modify) (auto simp: turning_def sched_inv_def ctxt_inv_frame)
  show "worker ?P (emit (Ev_enter c)) (\<lambda>_. ?P)"
    by (rule worker_hoare, rule hoare_emit) simp
  have slice: "worker ?P (io_then (run_slice hash_order c rs)
      (io_bind curr_time (\<lambda>now. modify_st (\<lambda>s. s\<lparr>last_ctx_swap := now\<rparr>))))
      (\<lambda>_ w. turned hash_order q k c s0 (st w))" for rs
    by (rule worker_then [OF worker_slice worker_state_time]) simp
  show "worker ?P (io_bind (answer Wait) (\<lambda>r. case r of
        R_swapcontext_err \<Rightarrow> stop_with (Exit EXIT_FAILURE)
      | R_slice rs \<Rightarrow>
          io_then (run_slice hash_order c rs)
            (io_bind curr_time (\<lambda>now. modify_st (\<lambda>s. s\<lparr>last_ctx_swap := now\<rparr>)))
      | _ \<Rightarrow> stop_with Mismatch)) (\<lambda>_ w. turned hash_order q k c s0 (st w))"
  proof (rule worker_bind)
    show "worker ?P (answer Wait) (\<lambda>_. ?P)" by (rule worker_hoare, rule hoare_answer) auto
  qed (auto intro: slice worker_stop split: resp.splits)
qed

text \<open>
  How a turn of \<open>c\<close> ends: it is open and suspended again, or it was completed and is gone from the
  queue, its context in the cache or freed. No other connection has changed.
\<close>

definition turn_over :: "(header_map \<Rightarrow> header_map) \<Rightarrow> nat list \<Rightarrow> nat \<Rightarrow> nat list \<Rightarrow> nat list \<Rightarrow> sched_state \<Rightarrow>
    sched_state \<Rightarrow> bool" where
  "turn_over hash_order as c bs k s0 s \<longleftrightarrow>
     (if is_completed (conns s c) then sched_inv hash_order (as @ bs) (given_up c k) s
      else sched_inv hash_order (as @ c # bs) k s) \<and>
     (\<forall>x. x \<noteq> c \<longrightarrow> same_conn x s0 s)"

text \<open>The end of a completed connection's turn.\<close>

lemma worker_bury:
  "worker (\<lambda>w. turned hash_order (as @ c # bs) k c s0 (st w) \<and> is_completed (conns (st w) c))
     (io_then (remove_conn_from_queue c) (free_closed_conn c))
     (\<lambda>_ w. is_completed (conns (st w) c) \<and> turn_over hash_order as c bs k s0 (st w))"
proof (rule workerI)
  fix w r v
  assume P: "turned hash_order (as @ c # bs) k c s0 (st w) \<and> is_completed (conns (st w) c)"
    and run: "io_then (remove_conn_from_queue c) (free_closed_conn c) w = (r, v)"
  have h: "hoare (\<lambda>w. ctxt_inv (as @ c # bs) k [] (st w)) (io_then (remove_conn_from_queue c) (free_closed_conn c))
      (\<lambda>_ w. ctxt_inv (as @ bs) (given_up c k) [] (st w))"
    unfolding free_closed_conn_def by (rule hoare_then [OF hoare_remove_conn hoare_free_conn_ctx])
  have "keeps same_records (io_then (remove_conn_from_queue c) (free_closed_conn c))"
    by (intro sr.keeps_then sr_remove sr_free)
  from keepsD [where m = "io_then (remove_conn_from_queue c) (free_closed_conn c)", OF this run]
  have same: "same_records w v" .
  from P have inv: "ctxt_inv (as @ c # bs) k [] (st w)" and d: "c \<notin> set (as @ bs)"
    by (auto simp: turned_def ctxt_inv_def rings_inv_def)
  show "case r of Inl s \<Rightarrow> stop_ok s
    | Inr a \<Rightarrow> is_completed (conns (st v) c) \<and> turn_over hash_order as c bs k s0 (st v)"
  proof (cases r)
    case (Inl s)
    with hoare_no_fault [OF h inv] run show ?thesis by (cases s) auto
  next
    case (Inr a)
    from hoare_returns [OF h inv run [unfolded Inr]] have k': "ctxt_inv (as @ bs) (given_up c k) [] (st v)" .
    have "paused hash_order x (st v) \<and> \<not> is_completed (conns (st v) x)" if "x \<in> set (as @ bs)" for x
    proof -
      have "x \<noteq> c" using that d by auto
      with that P have "paused hash_order x (st w) \<and> \<not> is_completed (conns (st w) x)" by (auto simp: turned_def)
      with same_records_conn [OF same, of x] paused_same show ?thesis by (auto simp: same_conn_def)
    qed
    moreover have "same_conn x s0 (st v)" if "x \<noteq> c" for x
      using P that same_records_conn [OF same, of x] same_conn_trans by (auto simp: turned_def)
    ultimately show ?thesis
      using k' Inr P same by (auto simp: sched_inv_def turn_over_def same_records_def)
  qed
qed

lemma worker_turn_over:
  "worker (\<lambda>w. sched_inv hash_order (as @ c # bs) k (st w) \<and> st w = s0) (turn hash_order (ConnNode c))
     (\<lambda>_ w. turn_over hash_order as c bs k s0 (st w))"
proof -
  let ?T = "\<lambda>w. turned hash_order (as @ c # bs) k c s0 (st w)"
  let ?Q = "\<lambda>w. turn_over hash_order as c bs k s0 (st w)"
  have fin: "worker (\<lambda>w. ?T w \<and> b = is_completed (conns (st w) c))
      (io_when b (io_then (remove_conn_from_queue c) (free_closed_conn c))) (\<lambda>_. ?Q)" for b
  proof (cases b)
    case True
    then show ?thesis
      by (simp add: io_when_True) (rule worker_conseq [OF worker_bury [of hash_order as c bs k s0]]; blast)
  next
    case False
    then show ?thesis
      by (simp add: io_when_False) (rule worker_ret, auto simp: turned_def turn_over_def sched_inv_def)
  qed
  show ?thesis
    unfolding turn_def node.case
  proof (rule worker_then)
    show "worker (\<lambda>w. sched_inv hash_order (as @ c # bs) k (st w) \<and> st w = s0) (swap_to_conn_ctx hash_order c) (\<lambda>_. ?T)"
      by (rule worker_conseq [OF worker_swap [of hash_order "as @ c # bs" k c s0]]) auto
    show "worker ?T (io_bind (gets_st (\<lambda>s. is_completed (conns s c)))
        (\<lambda>b. io_when b (io_then (remove_conn_from_queue c) (free_closed_conn c)))) (\<lambda>_. ?Q)"
      by (rule worker_bind [OF _ fin]) (rule worker_hoare, rule hoare_gets, simp)
  qed
qed

lemma worker_turn:
  "worker (\<lambda>w. sched_inv hash_order (as @ c # bs) k (st w)) (turn hash_order (ConnNode c))
     (\<lambda>_ w. \<exists>k'. sched_inv hash_order (as @ c # bs) k' (st w) \<or> sched_inv hash_order (as @ bs) k' (st w))"
proof (rule workerI)
  fix w r v assume "sched_inv hash_order (as @ c # bs) k (st w)" and "turn hash_order (ConnNode c) w = (r, v)"
  with workerD [OF worker_turn_over [of hash_order as c bs k "st w"], of w r v]
  show "case r of Inl s \<Rightarrow> stop_ok s
    | Inr a \<Rightarrow> \<exists>k'. sched_inv hash_order (as @ c # bs) k' (st v) \<or> sched_inv hash_order (as @ bs) k' (st v)"
    by (auto simp: turn_over_def split: sum.splits if_splits)
qed

section \<open>All turns\<close>

lemma shrink_slice: "keeps script_shrinks (run_slice hash_order c rs)"
  by (rule keepsI) (auto simp: run_slice_def script_shrinks_def Let_def split: if_splits prod.splits)

lemma shrink_time: "keeps script_shrinks curr_time"
  unfolding curr_time_def
  by (intro shrink.keeps_bind shrink_answer) (auto intro: shrink.keeps_ret shrink.keeps_stop split: resp.splits)

lemma consumes_swap: "consumes (swap_to_conn_ctx hash_order c)"
  unfolding swap_to_conn_ctx_def
  by (intro consumes_then2 consumes_bind1 consumes_answer shrink_modify shrink_emit)
    (auto intro!: shrink.keeps_then shrink.keeps_bind shrink_slice shrink_time shrink_modify shrink.keeps_stop
       split: resp.splits)

lemma shrink_lift_links: "keeps script_shrinks (lift_links f)"
  unfolding lift_links_def
  by (intro shrink.keeps_bind shrink.keeps_gets) (auto intro: shrink.keeps_stop shrink_modify split: option.splits)

lemma shrink_bury: "keeps script_shrinks (io_then (remove_conn_from_queue c) (free_closed_conn c))"
  unfolding remove_conn_from_queue_def free_closed_conn_def free_conn_ctx_def
  by (intro shrink.keeps_then shrink.keeps_bind shrink.keeps_if shrink.keeps_gets shrink_lift_links shrink_modify)

lemma turn_consumes: "turn hash_order n w = (Inr (), v) \<Longrightarrow> length (script v) < length (script w)"
proof (cases n)
  case (ConnNode c)
  have "consumes (turn hash_order n)"
    unfolding ConnNode turn_def node.case
    by (intro consumes_then1 consumes_swap shrink.keeps_bind shrink.keeps_gets shrink.keeps_when shrink_bury)
  then show "turn hash_order n w = (Inr (), v) \<Longrightarrow> ?thesis" unfolding consumes_def by blast
qed (simp_all add: turn_def stop_with_def)

text \<open>Where the loop over the queue stands: \<open>xs\<close> still have their turn.\<close>

definition turns_left :: "(header_map \<Rightarrow> header_map) \<Rightarrow> node list \<Rightarrow>
    (resp, sched_state, event) world \<Rightarrow> bool" where
  "turns_left hash_order xs w \<longleftrightarrow>
     (\<exists>q k ys. sched_inv hash_order q k (st w) \<and> map ConnNode q = ys @ xs)"

lemma turns_left_ring: "turns_left hash_order xs w \<Longrightarrow> \<exists>ys. qlist_rep (links (st w)) QueueHead (ys @ xs)"
  by (auto simp: turns_left_def sched_inv_def ctxt_inv_def rings_inv_def)

lemma worker_next_turn:
  "worker (turns_left hash_order (x # xs)) (turn hash_order x) (\<lambda>_. turns_left hash_order xs)"
proof (rule workerI)
  fix w r v assume J: "turns_left hash_order (x # xs) w" and run: "turn hash_order x w = (r, v)"
  from J obtain q k ys where q: "sched_inv hash_order q k (st w)" "map ConnNode q = ys @ x # xs"
    by (auto simp: turns_left_def)
  from q(2) obtain as c bs where m: "q = as @ c # bs" "map ConnNode as = ys" "x = ConnNode c" "map ConnNode bs = xs"
    by (auto simp: map_eq_append_conv map_eq_Cons_conv)
  have "turns_left hash_order xs v'" if "\<exists>k'. sched_inv hash_order (as @ c # bs) k' (st v') \<or> sched_inv hash_order (as @ bs) k' (st v')"
    for v'
  proof -
    have "map ConnNode (as @ c # bs) = (ys @ [x]) @ xs" "map ConnNode (as @ bs) = ys @ xs" using m by simp_all
    with that show ?thesis unfolding turns_left_def by blast
  qed
  with workerD [OF worker_turn [of hash_order as c bs k] q(1) [unfolded m(1)] run [unfolded m(3)]]
  show "case r of Inl s \<Rightarrow> stop_ok s | Inr a \<Rightarrow> turns_left hash_order xs v" by (auto split: sum.splits)
qed

lemma handle_all_list:
  assumes "sched_inv hash_order q k (st w)"
  shows "handle_all hash_order w = foreach_list (turn hash_order) (map ConnNode q) w"
  unfolding handle_all_def
proof (rule foreach_safe_list [where J = "turns_left hash_order"])
  show "turn hash_order x w = (Inr (), v) \<Longrightarrow> length (script v) < length (script w)" for x w v
    by (rule turn_consumes)
  show "turns_left hash_order xs w \<Longrightarrow> \<exists>ys. qlist_rep (links (st w)) QueueHead (ys @ xs)" for xs w
    by (rule turns_left_ring)
  show "turns_left hash_order xs v" if "turns_left hash_order (x # xs) w" "turn hash_order x w = (Inr (), v)"
    for x xs w v
    using workerD [OF worker_next_turn that] by simp
  show "qlist_rep (links (st w)) QueueHead (map ConnNode q)"
    using assms by (simp add: sched_inv_def ctxt_inv_def rings_inv_def)
  show "turns_left hash_order (map ConnNode q) w" using assms by (auto simp: turns_left_def)
qed

lemma worker_turns: "worker (turns_left hash_order xs) (foreach_list (turn hash_order) xs) (\<lambda>_. turns_left hash_order [])"
proof (induction xs)
  case Nil
  show ?case by (simp only: foreach_list.simps) (rule worker_ret)
next
  case (Cons x xs)
  then show ?case by (simp only: foreach_list.simps) (rule worker_then [OF worker_next_turn])
qed

definition worker_inv :: "(header_map \<Rightarrow> header_map) \<Rightarrow> sched_state \<Rightarrow> bool" where
  "worker_inv hash_order s \<longleftrightarrow> (\<exists>q k. sched_inv hash_order q k s)"

lemma worker_handle_all:
  "worker (\<lambda>w. worker_inv hash_order (st w)) (handle_all hash_order) (\<lambda>_ w. worker_inv hash_order (st w))"
proof (rule workerI)
  fix w r v assume "worker_inv hash_order (st w)" and run: "handle_all hash_order w = (r, v)"
  then obtain q k where q: "sched_inv hash_order q k (st w)" by (auto simp: worker_inv_def)
  have "turns_left hash_order (map ConnNode q) w" using q by (auto simp: turns_left_def)
  from workerD [OF worker_turns this run [unfolded handle_all_list [OF q]]]
  show "case r of Inl s \<Rightarrow> stop_ok s | Inr a \<Rightarrow> worker_inv hash_order (st v)"
    by (auto simp: turns_left_def worker_inv_def split: sum.splits)
qed

section \<open>New clients\<close>

lemma sched_inv_frozen:
  assumes inv: "sched_inv hash_order q k (st w)" and f: "frozen w u" and x: "x \<in> set q"
  shows "paused hash_order x (st u) \<and> \<not> is_completed (conns (st u) x)"
proof -
  have "x \<in> live_conns (st w)" using inv x by (auto simp: sched_inv_def ctxt_inv_def)
  from frozen_conn [OF f this] have same: "same_conn x (st w) (st u)" .
  from inv x have "paused hash_order x (st w) \<and> \<not> is_completed (conns (st w) x)" by (simp add: sched_inv_def)
  with paused_same [OF same] same show ?thesis by (simp add: same_conn_def)
qed

lemma init_new_conn_other [simp]: "x \<noteq> c \<Longrightarrow> same_conn x s (init_new_conn_ctx c sock s)"
  by (simp add: same_conn_def init_new_conn_ctx_def) (simp add: set_conn_def)

lemma init_new_conn_own:
  "\<not> started c (init_new_conn_ctx c sock s)" "\<not> is_completed (conns (init_new_conn_ctx c sock s) c)"
  by (simp_all add: started_def init_new_conn_ctx_def)

lemma worker_new_conn:
  "worker (\<lambda>w. sched_inv hash_order q k (st w)) (create_new_conn sock)
     (\<lambda>r w. \<exists>k'. if r = 0 then \<exists>c. sched_inv hash_order (c # q) k' (st w)
        else sched_inv hash_order q k' (st w))"
proof (rule workerI)
  fix w v :: "(resp, sched_state, event) world" and r
  assume inv: "sched_inv hash_order q k (st w)" and run: "create_new_conn sock w = (r, v)"
  then have ci: "ctxt_inv q k [] (st w)" by (simp add: sched_inv_def)
  show "case r of Inl s \<Rightarrow> stop_ok s
    | Inr a \<Rightarrow> \<exists>k'. if a = 0 then \<exists>c. sched_inv hash_order (c # q) k' (st v) else sched_inv hash_order q k' (st v)"
  proof (cases r)
    case (Inl s)
    with hoare_no_fault [OF hoare_create_new_conn ci run [unfolded Inl]] show ?thesis by (cases s) auto
  next
    case (Inr a)
    from run [unfolded Inr create_new_conn_def io_bind_returns] obtain res u where
      al: "alloc_conn_ctx w = (Inr res, u)" and
      tl: "(case res of None \<Rightarrow> ret (-1) | Some c \<Rightarrow> io_then (modify_st (init_new_conn_ctx c sock))
           (io_then (add_conn_to_queue c) (ret 0))) u = (Inr a, v)" by blast
    from keepsD [OF fz_alloc al] have fz: "frozen w u" .
    from hoare_returns [OF hoare_alloc_conn_ctx ci al] obtain k' where
      k': "case res of None \<Rightarrow> ctxt_inv q k' [] (st u) | Some c \<Rightarrow> ctxt_inv q k' [c] (st u)" by blast
    note old = sched_inv_frozen [OF inv fz]
    show ?thesis
    proof (cases res)
      case None
      with tl have "a = -1" "v = u" by (simp_all add: ret_def)
      with None k' old Inr show ?thesis by (auto simp: sched_inv_def)
    next
      case (Some c)
      let ?s1 = "init_new_conn_ctx c sock (st u)"
      from tl Some obtain u2 where ad: "add_conn_to_queue c (u\<lparr>st := ?s1\<rparr>) = (Inr (), u2)" and "a = 0" "v = u2"
        by (auto simp: io_then_returns modify_st_def ret_def)
      have c1: "ctxt_inv q k' [c] ?s1" using k' Some by (simp add: ctxt_inv_init_new)
      have c2: "ctxt_inv (c # q) k' [] (st u2)" by (rule hoare_returns [OF hoare_add_conn _ ad]) (simp add: c1)
      from keepsD [OF sr_add ad] have same: "same_conn x ?s1 (st u2)" for x
        using same_records_conn [of "u\<lparr>st := ?s1\<rparr>" u2 x] by simp
      have nc: "c \<notin> set q" using c1 by (auto simp: ctxt_inv_def rings_inv_def)
      have "paused hash_order x (st u2) \<and> \<not> is_completed (conns (st u2) x)" if "x \<in> set (c # q)" for x
      proof (cases "x = c")
        case True
        have "\<not> started c (st u2)" "\<not> is_completed (conns (st u2) c)"
          using same [of c] init_new_conn_own [of c sock "st u"] by (simp_all add: same_conn_def started_def)
        with True show ?thesis by (simp add: paused_def)
      next
        case False
        then have "same_conn x (st u) (st u2)" using same_conn_trans [OF init_new_conn_other same] by blast
        with old [of x] that False paused_same show ?thesis by (auto simp: same_conn_def)
      qed
      with c2 \<open>a = 0\<close> \<open>v = u2\<close> Inr show ?thesis by (auto simp: sched_inv_def)
    qed
  qed
qed

lemma worker_keep: "worker P m Q \<Longrightarrow> (\<And>a w. Q a w \<Longrightarrow> P w) \<Longrightarrow> worker P m (\<lambda>_. P)"
  by (rule worker_conseq)

abbreviation inv_io :: "(header_map \<Rightarrow> header_map) \<Rightarrow> (resp, sched_state, event, 'a) io \<Rightarrow> bool" where
  "inv_io hash_order m \<equiv>
     worker (\<lambda>w. worker_inv hash_order (st w)) m (\<lambda>_ w. worker_inv hash_order (st w))"

lemma inv_syscall: "inv_io hash_order syscall"
  unfolding syscall_def
  by (rule worker_hoare, rule hoare_answer_bind)
    (auto intro!: hoare_ret hoare_stop hoare_if split: resp.splits)

lemma inv_emit: "inv_io hash_order (emit e)"
  by (rule worker_hoare, rule hoare_emit) simp

lemma inv_gets: "inv_io hash_order (gets_st f)"
  by (rule worker_hoare, rule hoare_gets) simp

lemma inv_create: "inv_io hash_order (create_new_conn sock)"
proof (rule workerI)
  fix w v :: "(resp, sched_state, event) world" and r
  assume "worker_inv hash_order (st w)" and run: "create_new_conn sock w = (r, v)"
  then obtain q k where "sched_inv hash_order q k (st w)" by (auto simp: worker_inv_def)
  from workerD [OF worker_new_conn this run]
  show "case r of Inl s \<Rightarrow> stop_ok s | Inr a \<Rightarrow> worker_inv hash_order (st v)"
    by (auto simp: worker_inv_def split: sum.splits if_splits)
qed

lemma sched_inv_rate [simp]: "sched_inv hash_order q k (s\<lparr>prev_n_conn := n\<rparr>) = sched_inv hash_order q k s"
proof -
  have "ctxt_inv q k [] (s\<lparr>prev_n_conn := n\<rparr>) = ctxt_inv q k [] s" by (rule ctxt_inv_agree) simp_all
  then show ?thesis by (simp add: sched_inv_def paused_def started_def)
qed

lemma inv_rate: "inv_io hash_order (modify_st (\<lambda>s. s\<lparr>prev_n_conn := n_conn s\<rparr>))"
  by (rule worker_hoare, rule hoare_modify) (simp add: worker_inv_def)

lemma inv_ret: "inv_io hash_order (ret a)" by (rule worker_ret)
lemma inv_stop: "stop_ok s \<Longrightarrow> inv_io hash_order (stop_with s)" by (rule worker_stop)
lemma inv_bind: "inv_io hash_order m \<Longrightarrow> (\<And>a. inv_io hash_order (f a)) \<Longrightarrow> inv_io hash_order (io_bind m f)"
  by (rule worker_bind)
lemma inv_then: "inv_io hash_order m \<Longrightarrow> inv_io hash_order k \<Longrightarrow> inv_io hash_order (io_then m k)"
  by (rule worker_then)
lemma inv_if: "inv_io hash_order m \<Longrightarrow> inv_io hash_order k \<Longrightarrow> inv_io hash_order (if b then m else k)"
  by simp
lemma inv_when: "inv_io hash_order m \<Longrightarrow> inv_io hash_order (io_when b m)"
  by (simp add: io_when_def inv_ret)

lemmas inv_rules = inv_bind inv_then inv_if inv_when inv_ret inv_stop inv_emit inv_gets inv_syscall inv_create inv_rate
  worker_handle_all

lemma inv_wait_clients: "inv_io hash_order wait_clients"
  unfolding wait_clients_def accept_new_def
  by (intro inv_rules) (auto intro!: inv_rules split: sum.splits)

lemma inv_wall_time: "inv_io hash_order wall_time"
  unfolding wall_time_def by (intro inv_rules) (auto intro!: inv_rules split: sum.splits)

lemma inv_round: "inv_io hash_order (round_body hash_order t)"
  unfolding round_body_def by (intro inv_rules inv_wait_clients inv_wall_time)

section \<open>The life of a worker\<close>

lemma round_goes_on: "round_body hash_order t w = (Inr r, v) \<Longrightarrow> \<exists>t'. r = Inl t'"
  by (auto simp: round_body_def io_then_returns io_bind_returns ret_def split: if_splits)

lemma worker_rounds:
  "worker (\<lambda>w. worker_inv hash_order (st w)) (io_loop (round_body hash_order) t) (\<lambda>_ _. False)"
proof (rule worker_loop)
  fix t
  show "worker (\<lambda>w. worker_inv hash_order (st w)) (round_body hash_order t)
     (\<lambda>r v. case r of Inl l' \<Rightarrow> worker_inv hash_order (st v) | Inr a \<Rightarrow> False)"
  proof (rule workerI)
    fix w r v assume P: "worker_inv hash_order (st w)" and run: "round_body hash_order t w = (r, v)"
    from workerD [OF inv_round P run] round_goes_on [of hash_order t w _ v] run
    show "case r of Inl s \<Rightarrow> stop_ok s
      | Inr a \<Rightarrow> (case a of Inl l' \<Rightarrow> worker_inv hash_order (st v) | Inr a \<Rightarrow> False)"
      by (cases r) fastforce+
  qed
qed

lemma inv_fcntl: "inv_io hash_order (fcntl sock cmd)"
  unfolding fcntl_def
  by (rule inv_then [OF inv_emit], rule worker_hoare, rule hoare_answer_bind)
    (auto intro!: hoare_ret hoare_stop split: resp.splits)

lemma inv_gettid: "inv_io hash_order gettid"
  unfolding gettid_def
  by (rule worker_hoare, rule hoare_answer_bind) (auto intro!: hoare_ret hoare_stop split: resp.splits)

lemma inv_nonblock: "inv_io hash_order (set_nonblock sock)"
  unfolding set_nonblock_def close_failed_def by (intro inv_rules inv_fcntl inv_gettid)

lemma ctxt_inv_start:
  assumes "live_conns s = {}" and "regions s = {}"
  shows "ctxt_inv [] [] [] ((init_conn_queue s)\<lparr>links := qlist_head_init CacheHead (links (init_conn_queue s)), cache_cnt := 0\<rparr>)"
    (is "ctxt_inv _ _ _ ?s")
proof -
  let ?h = "qlist_head_init QueueHead (links s)"
  have "same_links (set [QueueHead]) ?h (qlist_head_init CacheHead ?h)"
    by (simp add: same_links_def qlist_head_init_def set_qnext_def set_qprev_def)
  then have "qlist_rep (qlist_head_init CacheHead ?h) QueueHead []" by (rule rep_frame [OF rep_init])
  moreover have "qlist_rep (qlist_head_init CacheHead ?h) CacheHead []" by (rule rep_init)
  ultimately have "rings_inv [] [] [] (links ?s)" by (simp add: rings_inv_def init_conn_queue_def)
  moreover have "memory_inv ?s" "counts_inv [] [] ?s"
    using assms by (simp_all add: memory_inv_def counts_inv_def init_conn_queue_def srv_consts)
  moreover have "live_conns ?s = {}" using assms by (simp add: init_conn_queue_def)
  ultimately show ?thesis by (simp add: ctxt_inv_def)
qed

lemma worker_setup:
  "worker (\<lambda>w. live_conns (st w) = {} \<and> regions (st w) = {}) (routine_setup sock)
     (\<lambda>_ w. worker_inv hash_order (st w))"
proof -
  let ?A = "\<lambda>w :: (resp, sched_state, event) world. \<exists>s. live_conns s = {} \<and> regions s = {} \<and> st w = init_conn_queue s"
  have q: "worker (\<lambda>w. live_conns (st w) = {} \<and> regions (st w) = {}) (modify_st init_conn_queue) (\<lambda>_. ?A)"
    by (rule worker_hoare, rule hoare_modify) auto
  let ?B = "\<lambda>w :: (resp, sched_state, event) world. ctxt_inv [] [] [] (st w) \<and> cache_cnt (st w) \<le> MIN_CONN_CTX_CACHE_CNT"
  have m: "hoare ?A (modify_st (\<lambda>s. s\<lparr>links := qlist_head_init CacheHead (links s), cache_cnt := 0\<rparr>)) (\<lambda>_. ?B)"
    by (rule hoare_modify) (use ctxt_inv_start in \<open>auto simp: srv_consts\<close>)
  have f: "hoare ?B fill_conn_ctx_cache (\<lambda>_ w. \<exists>k. ctxt_inv [] k [] (st w))"
    by (rule hoare_post [OF hoare_fill_cache]) blast
  from hoare_then [OF m f] have "hoare ?A init_conn_ctx_cache (\<lambda>_ w. \<exists>k. ctxt_inv [] k [] (st w))"
    unfolding init_conn_ctx_cache_def .
  then have c: "worker ?A init_conn_ctx_cache (\<lambda>_ w. worker_inv hash_order (st w))"
    by (intro worker_hoare) (erule hoare_post, auto simp: worker_inv_def sched_inv_def)
  have e: "inv_io hash_order (io_bind syscall exit_on_error)"
    unfolding exit_on_error_def by (intro inv_rules) (auto intro!: inv_rules split: sum.splits)
  have r: "inv_io hash_order (io_bind (set_nonblock sock) (\<lambda>r.
     if r \<noteq> 0 then stop_with (Exit EXIT_FAILURE)
     else io_then (io_bind syscall exit_on_error)
       (io_then (io_bind syscall exit_on_error)
       (io_then (io_bind syscall exit_on_error) wall_time))))"
    by (intro inv_bind [OF inv_nonblock] inv_if inv_stop inv_then e inv_wall_time) simp
  show ?thesis
    unfolding routine_setup_def by (rule worker_then [OF q worker_then [OF c r]])
qed

lemma worker_routine:
  "worker (\<lambda>w. live_conns (st w) = {} \<and> regions (st w) = {}) (handle_connections_routine hash_order sock) (\<lambda>_ _. False)"
  unfolding handle_connections_routine_def by (rule worker_bind [OF worker_setup worker_rounds])

text \<open>The states a worker is in between its rounds, and what holds in all of them.\<close>

inductive between_rounds :: "(header_map \<Rightarrow> header_map) \<Rightarrow> sched_state \<Rightarrow> bool" for hash_order where
  started_up: "live_conns (st w) = {} \<Longrightarrow> regions (st w) = {} \<Longrightarrow> routine_setup sock w = (Inr t, v) \<Longrightarrow>
     between_rounds hash_order (st v)"
| next_round: "between_rounds hash_order (st w) \<Longrightarrow> round_body hash_order t w = (Inr (Inl t'), v) \<Longrightarrow>
     between_rounds hash_order (st v)"

lemma between_rounds_inv: "between_rounds hash_order s \<Longrightarrow> worker_inv hash_order s"
proof (induction rule: between_rounds.induct)
  case (started_up w sock t v)
  from workerD [OF worker_setup _ started_up(3)] started_up(1,2) show ?case by simp
next
  case (next_round w t t' v)
  from workerD [OF inv_round next_round(3,2)] show ?case by simp
qed

section \<open>Waiting and resuming\<close>

lemma grow_lift_links: "keeps trace_grows (lift_links f)"
  unfolding lift_links_def
  by (intro grow.keeps_bind grow.keeps_gets) (auto intro: grow.keeps_stop grow_modify split: option.splits)

lemmas grow_rules = grow.keeps_bind grow.keeps_then grow.keeps_if grow.keeps_when grow.keeps_gets grow.keeps_ret
  grow.keeps_stop grow_answer grow_modify grow_emit grow_lift_links

lemma grow_alloc_mem: "keeps trace_grows alloc_conn_ctx_mem"
  unfolding alloc_conn_ctx_mem_def
  by (intro grow_rules) (auto intro!: grow_rules split: resp.splits option.splits)

lemma grow_fill: "keeps trace_grows fill_conn_ctx_cache"
  unfolding fill_conn_ctx_cache_def fill_loop_body_def
  by (intro grow_rules grow.keeps_loop grow_alloc_mem) (auto intro!: grow_rules split: option.splits)

lemma grow_alloc: "keeps trace_grows alloc_conn_ctx"
  unfolding alloc_conn_ctx_def take_cached_ctx_def
  by (intro grow_rules grow_fill) (auto intro!: grow_rules split: option.splits node.splits)

lemma grow_new_conn: "keeps trace_grows (create_new_conn sock)"
  unfolding create_new_conn_def add_conn_to_queue_def
  by (intro grow_rules grow_alloc) (auto intro!: grow_rules split: option.splits)

lemma grow_syscall: "keeps trace_grows syscall"
  unfolding syscall_def by (intro grow_rules) (auto intro!: grow_rules split: resp.splits)

lemma grow_accept: "keeps trace_grows accept_new"
  unfolding accept_new_def
  by (intro grow_rules grow_syscall) (auto intro!: grow_rules grow_new_conn split: sum.splits)

lemma wait_clients_polls:
  assumes "sched_inv hash_order q k (st w)"
  shows "\<exists>t. trace (snd (wait_clients w)) =
    trace w @ Ev_epoll (if \<exists>c \<in> set q. is_active (conns (st w) c) then 0 else -1) # t"
proof -
  let ?rest = "io_bind syscall (\<lambda>r. case r of
        Inr ret_val \<Rightarrow> if ret_val > 0 then accept_new else ret ()
      | Inl e \<Rightarrow> if e \<noteq> EINTR then stop_with (Exit EXIT_FAILURE) else ret ())"
  let ?n = "if \<exists>c \<in> set q. is_active (conns (st w) c) then 0 else -1 :: int"
  have "active_conn_cnt (st w) = int (length (filter (\<lambda>c. is_active (conns (st w) c)) q))"
    using assms by (simp add: sched_inv_def ctxt_inv_def counts_inv_def)
  then have "(if active_conn_cnt (st w) \<noteq> 0 then 0 else -1) = ?n"
    by (auto simp: filter_empty_conv)
  then have "wait_clients w = ?rest (w\<lparr>trace := trace w @ [Ev_epoll ?n]\<rparr>)"
    by (simp add: wait_clients_def io_bind_def io_then_def gets_st_def emit_def)
  moreover have "keeps trace_grows ?rest"
    by (intro grow_rules grow_syscall) (auto intro!: grow_rules grow_accept split: sum.splits)
  then have "trace_grows (w\<lparr>trace := trace w @ [Ev_epoll ?n]\<rparr>) (snd (?rest (w\<lparr>trace := trace w @ [Ev_epoll ?n]\<rparr>)))"
    unfolding keeps_def by blast
  ultimately show ?thesis by (auto simp: trace_grows_def prefix_def)
qed

text \<open>
  A suspended coroutine goes on where it stopped: what it does in a slice comes after what it did before,
  and with no answer it is at its next call, having done nothing and changed nothing.
\<close>

lemma paused_run:
  assumes p: "paused hash_order c (st w)" and c: "curr_conn (st w) = Some c" "started c (st w)"
  obtains s1 h v where "co_hist (st w) c = R_resume (\<lambda>_. s1) # h" "accepts (\<lambda>_. enter_ctx c (st w)) v"
    "resumable (handle_one_connection hash_order) \<lparr>script = h, st = s1, trace = []\<rparr> v" "trace v = co_trace (st w) c"
proof -
  from p c(2) obtain s1 h v where h: "co_hist (st w) c = R_resume (\<lambda>_. s1) # h"
    and run: "handle_one_connection hash_order \<lparr>script = h, st = s1, trace = []\<rparr> = (Inl Suspended, v)"
    and v: "curr_conn (st v) = Some c" "conns (st v) c = conns (st w) c" "trace v = co_trace (st w) c"
    unfolding paused_def by blast
  have "conns (enter_ctx c (st w)) c = conns (st w) c"
    using c(2) by (simp add: enter_ctx_def started_def)
  then have "accepts (\<lambda>_. enter_ctx c (st w)) v" using v c(1) by (auto simp: accepts_def)
  with that h framed_suspended [OF framed_handle_one_connection run] v(3) show ?thesis by blast
qed

lemma paused_past:
  assumes "co_hist s c = R_resume (\<lambda>_. s1) # h" and "started c s"
  shows "co_main hash_order \<lparr>script = past_of c s @ rs, st = s', trace = []\<rparr> =
    handle_one_connection hash_order (more_script rs \<lparr>script = h, st = s1, trace = []\<rparr>)"
  using assms by (simp add: past_of_def co_main_start more_script_def)

lemma paused_resumes:
  assumes p: "paused hash_order c (st w)" and c: "curr_conn (st w) = Some c" "started c (st w)"
  shows "\<exists>v. run_slice hash_order c [] w = (Inl Wait, v) \<and> trace v = trace w \<and>
    co_trace (st v) c = co_trace (st w) c \<and> conns (st v) c = conns (st w) c"
proof -
  obtain s1 h v where h: "co_hist (st w) c = R_resume (\<lambda>_. s1) # h" "accepts (\<lambda>_. enter_ctx c (st w)) v"
    "resumable (handle_one_connection hash_order) \<lparr>script = h, st = s1, trace = []\<rparr> v" "trace v = co_trace (st w) c"
    by (rule paused_run [OF p c])
  then have "co_main hash_order \<lparr>script = past_of c (st w) @ [R_resume (\<lambda>_. enter_ctx c (st w))],
      st = enter_ctx c (st w), trace = []\<rparr> = (Inl Wait, v\<lparr>st := enter_ctx c (st w)\<rparr>)" and "script v = []"
    unfolding paused_past [OF h(1) c(2)] by (simp_all add: resumable_def)
  moreover have "conns (enter_ctx c (st w)) c = conns (st w) c"
    using c(2) by (simp add: enter_ctx_def started_def)
  ultimately show ?thesis using h(4) c(2) by (simp add: run_slice_def Let_def past_trace_def)
qed

text \<open>
  One run from the start, through the switch it stopped at and on: \<open>h\<close> are the answers the coroutine has
  had, after which it is suspended in \<open>u\<close>; given \<open>rs\<close> after a resumption in the state \<open>s2\<close> the same run
  goes on to \<open>x\<close>, and \<open>t\<close> is what it does then.
\<close>

definition goes_on :: "(header_map \<Rightarrow> header_map) \<Rightarrow> nat \<Rightarrow> sched_state \<Rightarrow> srv_state \<Rightarrow> resp list \<Rightarrow> event list \<Rightarrow>
    (resp, srv_state, event) world \<Rightarrow> bool" where
  "goes_on hash_order c s s2 rs t x \<longleftrightarrow>
     (\<exists>s1 h u q. co_hist s c = R_resume (\<lambda>_. s1) # h \<and>
        handle_one_connection hash_order \<lparr>script = h, st = s1, trace = []\<rparr> = (Inl Suspended, u) \<and>
        trace u = co_trace s c \<and> conns (st u) c = conns s c \<and>
        handle_one_connection hash_order \<lparr>script = h @ R_resume (\<lambda>_. s2) # rs, st = s1, trace = []\<rparr> = (q, x) \<and>
        script x = [] \<and> trace x = trace u @ t)"

lemma goes_on_curr_conn [simp]: "goes_on hash_order c (s\<lparr>curr_conn := d\<rparr>) = goes_on hash_order c s"
  by (simp add: goes_on_def fun_eq_iff)

lemma paused_goes_on:
  assumes p: "paused hash_order c (st w)" and c: "curr_conn (st w) = Some c" "started c (st w)"
    and run: "run_slice hash_order c rs w = (r, u)" and r: "r \<noteq> Inl Mismatch"
  shows "\<exists>t x. goes_on hash_order c (st w) (enter_ctx c (st w)) rs t x \<and> co_trace (st u) c = trace x \<and>
    conns (st u) c = conns (st x) c \<and> trace u = trace w @ t"
proof -
  let ?rs = "R_resume (\<lambda>_. enter_ctx c (st w)) # rs"
  from p c(2) obtain s1 h v where h: "co_hist (st w) c = R_resume (\<lambda>_. s1) # h"
    and v: "handle_one_connection hash_order \<lparr>script = h, st = s1, trace = []\<rparr> = (Inl Suspended, v)"
      "conns (st v) c = conns (st w) c" "trace v = co_trace (st w) c"
    unfolding paused_def by blast
  obtain r' x where x: "co_main hash_order \<lparr>script = past_of c (st w) @ ?rs, st = enter_ctx c (st w), trace = []\<rparr> = (r', x)"
    by fastforce
  then have x': "handle_one_connection hash_order \<lparr>script = h @ ?rs, st = s1, trace = []\<rparr> = (r', x)"
    unfolding paused_past [OF h c(2)] by (simp add: more_script_def)
  have "resumable (handle_one_connection hash_order) \<lparr>script = h, st = s1, trace = []\<rparr> v"
    by (rule framed_suspended [OF framed_handle_one_connection v(1)])
  then have "prefix (trace v) (trace (snd (handle_one_connection hash_order (more_script ?rs \<lparr>script = h, st = s1, trace = []\<rparr>))))"
    unfolding resumable_def by blast
  with x' obtain t where t: "trace x = trace v @ t" by (auto simp: prefix_def more_script_def)
  have u: "script x = []" "u = w\<lparr>st := put_back c (past_of c (st w) @ ?rs) (trace x) (st x) (st w),
      trace := trace w @ drop (length (past_trace c (st w))) (trace x)\<rparr>"
    using run r x by (auto simp: run_slice_def Let_def split: if_splits)
  have "goes_on hash_order c (st w) (enter_ctx c (st w)) rs t x"
    unfolding goes_on_def using h v x' t u(1) by blast
  moreover have "trace u = trace w @ t" using u(2) t v(3) c(2) by (simp add: past_trace_def)
  moreover have "co_trace (st u) c = trace x \<and> conns (st u) c = conns (st x) c" using u(2) by simp
  ultimately show ?thesis by blast
qed

lemma swap_waits:
  assumes p: "paused hash_order c (st w)" "started c (st w)" and sc: "script w = R_slice [] # s"
  shows "fst (swap_to_conn_ctx hash_order c w) = Inl Wait"
proof -
  let ?w = "w\<lparr>st := (st w)\<lparr>curr_conn := Some c\<rparr>, trace := trace w @ [Ev_enter c], script := s\<rparr>"
  have "paused hash_order c (st ?w)" "curr_conn (st ?w) = Some c" "started c (st ?w)"
    using p by (simp_all add: started_def)
  from paused_resumes [OF this] obtain u where "run_slice hash_order c [] ?w = (Inl Wait, u)" by blast
  then show ?thesis
    by (simp add: swap_to_conn_ctx_def sc io_then_def io_bind_def modify_st_def emit_def answer_def)
qed

lemma swap_resumes:
  assumes p: "paused hash_order c (st w)" "started c (st w)" and sc: "script w = R_slice rs # s"
    and run: "swap_to_conn_ctx hash_order c w = (r, v)" and r: "r \<noteq> Inl Mismatch"
  shows "\<exists>t x. goes_on hash_order c (st w) (enter_ctx c ((st w)\<lparr>curr_conn := Some c\<rparr>)) rs t x \<and>
    co_trace (st v) c = trace x \<and> conns (st v) c = conns (st x) c \<and> trace v = trace w @ Ev_enter c # t \<and>
    (rs = [] \<longrightarrow> r = Inl Wait \<and> t = [] \<and> conns (st v) c = conns (st w) c)"
proof -
  let ?now = "io_bind curr_time (\<lambda>now. modify_st (\<lambda>s. s\<lparr>last_ctx_swap := now\<rparr>))"
  let ?w = "w\<lparr>st := (st w)\<lparr>curr_conn := Some c\<rparr>, trace := trace w @ [Ev_enter c], script := s\<rparr>"
  have sw: "swap_to_conn_ctx hash_order c w = io_then (run_slice hash_order c rs) ?now ?w"
    by (simp add: swap_to_conn_ctx_def sc io_then_def io_bind_def modify_st_def emit_def answer_def)
  obtain r1 u where u: "run_slice hash_order c rs ?w = (r1, u)" by fastforce
  have st: "paused hash_order c (st ?w)" "curr_conn (st ?w) = Some c" "started c (st ?w)"
    using p by (simp_all add: started_def)
  have r1: "r1 \<noteq> Inl Mismatch" using run r u sw by (auto simp: io_then_def io_bind_def)
  have now: "trace v = trace u \<and> co_trace (st v) c = co_trace (st u) c \<and> conns (st v) c = conns (st u) c"
    using run u sw
    by (auto simp: io_then_def io_bind_def curr_time_def answer_def ret_def stop_with_def modify_st_def
        split: sum.splits prod.splits list.splits resp.splits if_splits)
  from paused_goes_on [OF st u r1] obtain t x where
    x: "goes_on hash_order c (st w) (enter_ctx c ((st w)\<lparr>curr_conn := Some c\<rparr>)) rs t x"
      "co_trace (st u) c = trace x" "conns (st u) c = conns (st x) c" "trace u = trace w @ Ev_enter c # t"
    by auto
  have "r = Inl Wait \<and> t = [] \<and> conns (st v) c = conns (st w) c" if "rs = []"
  proof -
    from paused_resumes [OF st] u that have e: "r1 = Inl Wait" "trace u = trace ?w" "conns (st u) c = conns (st w) c" by auto
    with x run sw u now show ?thesis by (auto simp: io_then_def io_bind_def)
  qed
  with now x show ?thesis by auto
qed

end
