(* ===== verification/Liveness.thy ===== *)
theory Liveness
  imports Worker
begin

text \<open>
  No part of a worker goes round a loop without a call to the outside: \<open>Diverge\<close> is not an outcome.
  The loops of the send and receive functions, of a connection and of the event loop each consume an
  answer per round, and everything between two calls ends.
\<close>

section \<open>Code that ends between its calls\<close>

definition calm :: "('r, 's, 'e, 'a) io \<Rightarrow> bool" where
  "calm m \<longleftrightarrow> keeps script_shrinks m \<and> live m"

text \<open>The body of a loop that consumes an answer whenever it goes on.\<close>

definition paced :: "('r, 's, 'e, 'l + 'a) io \<Rightarrow> bool" where
  "paced m \<longleftrightarrow> (\<forall>w l v. m w = (Inr (Inl l), v) \<longrightarrow> length (script v) < length (script w))"

lemma calm_shrinks: "calm m \<Longrightarrow> keeps script_shrinks m"
  by (simp add: calm_def)

lemma calm_live: "calm m \<Longrightarrow> live m"
  by (simp add: calm_def)

lemma calm_ret: "calm (ret a)"
  by (simp add: calm_def shrink.keeps_ret live_ret)

lemma calm_stop: "s \<noteq> Diverge \<Longrightarrow> calm (stop_with s)"
  by (simp add: calm_def shrink.keeps_stop live_stop)

lemma calm_gets: "calm (gets_st f)"
  by (simp add: calm_def shrink.keeps_gets live_gets)

lemma calm_modify: "calm (modify_st f)"
  by (simp add: calm_def shrink_modify live_modify)

lemma calm_emit: "calm (emit e)"
  by (simp add: calm_def shrink_emit live_emit)

lemma calm_answer: "s \<noteq> Diverge \<Longrightarrow> calm (answer s)"
  by (simp add: calm_def shrink_answer live_answer)

lemma calm_bind: "calm m \<Longrightarrow> (\<And>a. calm (f a)) \<Longrightarrow> calm (io_bind m f)"
  by (simp add: calm_def shrink.keeps_bind live_bind)

lemma calm_then: "calm m \<Longrightarrow> calm k \<Longrightarrow> calm (io_then m k)"
  by (simp add: calm_def shrink.keeps_then live_then)

lemma calm_when: "calm m \<Longrightarrow> calm (io_when b m)"
  by (simp add: calm_def shrink.keeps_when live_when)

lemma calm_if: "calm m \<Longrightarrow> calm k \<Longrightarrow> calm (if b then m else k)"
  by simp

lemma calm_prod: "(\<And>a b. calm (f a b)) \<Longrightarrow> calm (case p of (a, b) \<Rightarrow> f a b)"
  by (cases p) simp

lemma calm_sum: "(\<And>a. calm (f a)) \<Longrightarrow> (\<And>b. calm (g b)) \<Longrightarrow> calm (case s of Inl a \<Rightarrow> f a | Inr b \<Rightarrow> g b)"
  by (cases s) simp_all

lemma calm_option: "calm n \<Longrightarrow> (\<And>b. calm (g b)) \<Longrightarrow> calm (case s of None \<Rightarrow> n | Some b \<Rightarrow> g b)"
  by (cases s) simp_all

lemma calm_loop: "(\<And>l. calm (bd l)) \<Longrightarrow> (\<And>l. paced (bd l)) \<Longrightarrow> calm (io_loop bd l)"
  unfolding calm_def paced_def by (intro conjI shrink.keeps_loop live_loop) blast+

lemma paced_done: "paced (ret (Inr a))"
  by (simp add: paced_def ret_def)

lemma paced_stop: "paced (stop_with s)"
  by (simp add: paced_def stop_with_def)

lemma paced_if: "paced m \<Longrightarrow> paced k \<Longrightarrow> paced (if b then m else k)"
  by simp

lemma paced_consumes: "consumes m \<Longrightarrow> paced m"
  by (auto simp: consumes_def paced_def)

lemma paced_bind1: "consumes m \<Longrightarrow> (\<And>a. calm (f a)) \<Longrightarrow> paced (io_bind m f)"
  by (rule paced_consumes, rule consumes_bind1) (simp_all add: calm_def)

lemma paced_bind2: "calm m \<Longrightarrow> (\<And>a. paced (f a)) \<Longrightarrow> paced (io_bind m f)"
  unfolding paced_def io_bind_returns by (fastforce dest: calm_shrinks shrink_length)

lemmas calm_intros = calm_ret calm_stop calm_gets calm_modify calm_emit calm_answer calm_bind calm_then calm_when
  calm_if calm_prod calm_sum calm_option

section \<open>The coroutine\<close>

lemma calm_curr_time: "calm curr_time"
  unfolding curr_time_def by (intro calm_bind calm_answer) (auto intro: calm_intros split: resp.split)

lemma calm_with_curr: "(\<And>c. calm (f c)) \<Longrightarrow> calm (with_curr f)"
  unfolding with_curr_def by (intro calm_intros) auto

lemma calm_curr_field: "calm (curr_field f)"
  unfolding curr_field_def by (intro calm_with_curr calm_intros)

lemma calm_lift_fault: "calm (lift_fault r)"
  unfolding lift_fault_def by (intro calm_intros) auto

lemmas calm_small = calm_intros calm_curr_time calm_with_curr calm_curr_field calm_lift_fault

lemma calm_swap_to_main: "calm swap_to_main_ctx"
  unfolding swap_to_main_ctx_def
  by (intro calm_small) (auto intro!: calm_small split: resp.split)

lemmas calm_co = calm_small calm_swap_to_main

lemma calm_update_active: "calm curr_conn_update_active"
  unfolding curr_conn_update_active_def by (intro calm_small)

lemma calm_start_op: "calm curr_conn_start_op"
  unfolding curr_conn_start_op_def by (intro calm_small)

lemma calm_set_inactive: "calm curr_conn_set_inactive"
  unfolding curr_conn_set_inactive_def by (intro calm_small)

lemma calm_close: "calm curr_conn_close"
  unfolding curr_conn_close_def by (intro calm_small)

lemma calm_cond_swap: "calm cond_swap_to_main_ctx"
  unfolding cond_swap_to_main_ctx_def need_ctx_swap_def by (intro calm_co)

lemma calm_would_block: "calm would_block"
  unfolding would_block_def curr_conn_active_timeout_def by (intro calm_co calm_set_inactive)

lemma calm_sys_read: "calm (sys_read sock off n)"
  unfolding sys_read_def Let_def
  by (intro calm_bind calm_answer) (auto intro!: calm_small split: resp.split)

lemma calm_sys_write: "calm (sys_write sock buf off n)"
  unfolding sys_write_def Let_def
  by (intro calm_bind calm_answer) (auto intro!: calm_small split: resp.split)

lemma calm_sock_error: "calm (sock_error l e)"
  unfolding sock_error_def by (intro calm_co calm_would_block calm_close)

lemma calm_check_timeout: "calm (check_timeout timeout b)"
  unfolding check_timeout_def curr_conn_op_timeout_def by (intro calm_small)

lemma calm_check_end: "calm (check_end terminator b prev n)"
  unfolding check_end_def by (intro calm_small)

lemma calm_sock: "calm curr_conn_sock"
  unfolding curr_conn_sock_def by (intro calm_small)

lemma consumes_sys_read: "consumes (sys_read sock off n)"
  unfolding sys_read_def Let_def
  by (intro consumes_bind1 consumes_answer) (auto intro!: calm_shrinks calm_small split: resp.split)

lemma consumes_sys_write: "consumes (sys_write sock buf off n)"
  unfolding sys_write_def Let_def
  by (intro consumes_bind1 consumes_answer) (auto intro!: calm_shrinks calm_small split: resp.split)

lemma consumes_time: "consumes curr_time"
  unfolding curr_time_def
  by (intro consumes_bind1 consumes_answer) (auto intro!: calm_shrinks calm_small split: resp.split)

lemma consumes_update_active: "consumes curr_conn_update_active"
  unfolding curr_conn_update_active_def
  by (intro consumes_bind1 consumes_time calm_shrinks) (intro calm_small)

lemma calm_recv_got: "calm (recv_got timeout terminator l cnt)"
  unfolding recv_got_def by (intro calm_small calm_update_active calm_check_end calm_check_timeout)

lemma calm_send_got: "calm (send_got timeout l cnt)"
  unfolding send_got_def by (intro calm_small calm_update_active calm_check_timeout)

lemma recv_body_rounds: "calm (recv_body prev timeout terminator l)" "paced (recv_body prev timeout terminator l)"
proof -
  have r: "calm (case r of Inl e \<Rightarrow> sock_error l e | Inr cnt \<Rightarrow> recv_got timeout terminator l cnt)" for r l
    by (intro calm_sum calm_sock_error calm_recv_got)
  show "calm (recv_body prev timeout terminator l)"
    unfolding recv_body_def by (intro calm_small calm_sock calm_sys_read r)
  have "paced (io_bind curr_conn_sock (\<lambda>sock. io_bind (sys_read sock off n)
      (\<lambda>r. case r of Inl e \<Rightarrow> sock_error l e | Inr cnt \<Rightarrow> recv_got timeout terminator l cnt)))" for off n l
    by (rule paced_bind2 [OF calm_sock paced_bind1 [OF consumes_sys_read r]])
  then show "paced (recv_body prev timeout terminator l)"
    unfolding recv_body_def by (cases l) (simp add: paced_done)
qed

lemma send_body_rounds: "calm (send_body buf timeout l)" "paced (send_body buf timeout l)"
proof -
  have r: "calm (case r of Inl e \<Rightarrow> sock_error l e | Inr cnt \<Rightarrow> send_got timeout l cnt)" for r l
    by (intro calm_sum calm_sock_error calm_send_got)
  show "calm (send_body buf timeout l)"
    unfolding send_body_def by (intro calm_small calm_sock calm_sys_write r)
  have "paced (io_bind curr_conn_sock (\<lambda>sock. io_bind (sys_write sock buf off n)
      (\<lambda>r. case r of Inl e \<Rightarrow> sock_error l e | Inr cnt \<Rightarrow> send_got timeout l cnt)))" for off n l
    by (rule paced_bind2 [OF calm_sock paced_bind1 [OF consumes_sys_write r]])
  then show "paced (send_body buf timeout l)"
    unfolding send_body_def by (cases l) (simp add: paced_done)
qed

lemma calm_recv_from: "calm (recv_from_curr_conn to_recv n_recv timeout terminator)"
  unfolding recv_from_curr_conn_def
  by (intro calm_then calm_update_active calm_start_op calm_loop recv_body_rounds)

lemma calm_send_to: "calm (send_to_curr_conn buf to_send timeout)"
  unfolding send_to_curr_conn_def
  by (intro calm_then calm_update_active calm_start_op calm_loop send_body_rounds)

lemma consumes_recv_from: "consumes (recv_from_curr_conn to_recv n_recv timeout terminator)"
  unfolding recv_from_curr_conn_def
  by (intro consumes_then1 consumes_update_active calm_shrinks calm_then calm_start_op calm_loop recv_body_rounds)

lemma consumes_send_to: "consumes (send_to_curr_conn buf to_send timeout)"
  unfolding send_to_curr_conn_def
  by (intro consumes_then1 consumes_update_active calm_shrinks calm_then calm_start_op calm_loop send_body_rounds)

lemma calm_curr_view: "calm (curr_view off n)"
  unfolding curr_view_def by (intro calm_small)

lemma calm_set_recv_pos: "calm (set_recv_pos h u)"
  unfolding set_recv_pos_def by (intro calm_small)

lemma calm_recv_http_hdr: "calm recv_http_hdr"
  unfolding recv_http_hdr_def hdr_finish_def buf_move_def
  by (intro calm_small calm_curr_view calm_set_recv_pos calm_recv_from)

lemma body_loop_rounds: "calm (body_loop buf_size body_len l)" "paced (body_loop buf_size body_len l)"
proof -
  have r: "calm (if count \<noteq> to_recv then ret (Inr None)
         else io_bind (curr_view 0 count) (\<lambda>chunk.
           io_then cond_swap_to_main_ctx (ret (Inl (got_len + count, AppendBody chunk req)))))"
    for count to_recv got_len req
    by (intro calm_small calm_curr_view calm_cond_swap)
  show "calm (body_loop buf_size body_len l)"
    unfolding body_loop_def Let_def by (intro calm_small calm_recv_from r)
  show "paced (body_loop buf_size body_len l)"
    unfolding body_loop_def Let_def
    by (cases l) (simp add: paced_done paced_bind1 [OF consumes_recv_from r])
qed

lemma calm_recv_http_msg: "calm recv_http_msg"
  unfolding recv_http_msg_def recv_http_body_def Let_def
  by (intro calm_small calm_recv_http_hdr calm_curr_view calm_set_recv_pos calm_loop body_loop_rounds)

lemma send_msg_rounds: "calm (send_msg_loop msg pos)" "paced (send_msg_loop msg pos)"
proof -
  have r: "calm (if count \<noteq> to_send then ret (Inr 0) else io_then cond_swap_to_main_ctx (ret (Inl (pos + to_send))))"
    for count to_send pos :: int
    by (intro calm_small calm_cond_swap)
  show "calm (send_msg_loop msg pos)"
    unfolding send_msg_loop_def Let_def by (intro calm_small calm_send_to r)
  show "paced (send_msg_loop msg pos)"
    unfolding send_msg_loop_def Let_def
    by (simp add: paced_done paced_bind1 [OF consumes_send_to r])
qed

lemma calm_format_date: "calm format_date_hdr"
  unfolding format_date_hdr_def by (intro calm_bind calm_answer) (auto intro!: calm_small split: resp.split)

lemma consumes_format_date: "consumes format_date_hdr"
  unfolding format_date_hdr_def
  by (intro consumes_bind1 consumes_answer) (auto intro!: calm_shrinks calm_small split: resp.split)

text \<open>What follows the reception of a request, and that a round of a connection consumes an answer.\<close>

lemma handle_request_rounds:
  "calm (handle_one_client_request hash_order)"
  "handle_one_client_request hash_order w = (Inr True, v) \<Longrightarrow> length (script v) < length (script w)"
proof -
  define reply where "reply req = io_bind format_date_hdr (\<lambda>date.
         io_bind (lift_fault (MakeResponse date req)) (\<lambda>resp.
         io_bind (send_http_msg hash_order resp) (\<lambda>count.
         if count \<le> 0 then ret False
         else io_bind (lift_fault (WantKeepAlive req)) (\<lambda>keep.
           if \<not> keep then ret False
           else io_then cond_swap_to_main_ctx (ret True)))))" for req
  have s: "calm (send_http_msg hash_order resp)" for resp
    unfolding send_http_msg_def by (intro calm_loop send_msg_rounds)
  have k: "consumes (reply req)" for req
    unfolding reply_def
    by (intro consumes_bind1 consumes_format_date calm_shrinks) (intro calm_small s calm_cond_swap)
  have c: "calm (reply req)" for req
    unfolding reply_def by (intro calm_small calm_format_date s calm_cond_swap)
  have h: "handle_one_client_request hash_order =
      io_bind recv_http_msg (\<lambda>r. case r of None \<Rightarrow> ret False | Some req \<Rightarrow> reply req)"
    unfolding handle_one_client_request_def reply_def ..
  show "calm (handle_one_client_request hash_order)"
    unfolding h by (intro calm_small calm_recv_http_msg c)
  assume "handle_one_client_request hash_order w = (Inr True, v)"
  then obtain req u where u: "recv_http_msg w = (Inr (Some req), u)" "reply req u = (Inr True, v)"
    unfolding h by (auto simp: io_bind_returns ret_def split: option.splits)
  from shrink_length [OF calm_shrinks [OF calm_recv_http_msg] u(1)] k [of req] u(2)
  show "length (script v) < length (script w)" unfolding consumes_def by fastforce
qed

lemma calm_serve_requests: "calm (serve_requests hash_order)"
proof -
  have "paced (io_bind (handle_one_client_request hash_order) (\<lambda>go. ret (if go then Inl () else Inr ())))"
    unfolding paced_def io_bind_returns
    by (auto simp: ret_def split: if_splits dest: handle_request_rounds(2))
  then show ?thesis
    unfolding serve_requests_def by (intro calm_loop calm_bind handle_request_rounds(1) calm_ret)
qed

lemma calm_fcntl: "calm (fcntl sock cmd)"
  unfolding fcntl_def by (intro calm_then calm_emit calm_bind calm_answer) (auto intro!: calm_small split: resp.split)

lemma calm_gettid: "calm gettid"
  unfolding gettid_def by (intro calm_bind calm_answer) (auto intro!: calm_small split: resp.split)

lemma calm_sock_setup: "calm (set_nonblock sock)" "calm (set_async sock)"
  unfolding set_nonblock_def set_async_def close_failed_def by (intro calm_small calm_fcntl calm_gettid)+

lemma calm_handle_one_connection: "calm (handle_one_connection hash_order)"
  unfolding handle_one_connection_def
  by (intro calm_co calm_sock calm_sock_setup calm_serve_requests calm_close) simp_all

section \<open>The worker\<close>

lemma calm_slice: "calm (run_slice hash_order c rs)"
proof -
  have m: "live (co_main hash_order)"
    unfolding co_main_def wait_start_def
    by (intro calm_live calm_then calm_bind calm_answer calm_handle_one_connection)
      (auto intro!: calm_small split: resp.split)
  have "fst (run_slice hash_order c rs w) \<noteq> Inl Diverge" for w
  proof -
    let ?w = "\<lparr>script = past_of c (st w) @ R_resume (\<lambda>_. enter_ctx c (st w)) # rs, st = enter_ctx c (st w), trace = []\<rparr>"
    obtain r v where r: "co_main hash_order ?w = (r, v)" by fastforce
    with m have "r \<noteq> Inl Diverge" unfolding live_def by (metis fst_conv)
    then have "slice_outcome r \<noteq> Inl Diverge" by (cases r) auto
    then show ?thesis by (auto simp: run_slice_def Let_def r)
  qed
  then show ?thesis unfolding calm_def live_def by (simp add: shrink_slice)
qed

lemma calm_swap_to_conn: "calm (swap_to_conn_ctx hash_order c)"
  unfolding swap_to_conn_ctx_def
  by (intro calm_intros) (auto intro!: calm_small calm_slice split: resp.split)

lemma calm_lift_links: "calm (lift_links f)"
  unfolding lift_links_def by (intro calm_small) simp

lemma calm_turn: "calm (turn hash_order n)"
proof (cases n)
  case (ConnNode c)
  show ?thesis
    unfolding ConnNode turn_def node.case remove_conn_from_queue_def free_closed_conn_def free_conn_ctx_def
    by (intro calm_small calm_swap_to_conn calm_lift_links)
qed (simp_all add: turn_def calm_stop)

lemma live_turns: "live (foreach_list (turn hash_order) xs)"
proof (induction xs)
  case (Cons x xs)
  then show ?case by (simp only: foreach_list.simps) (rule live_then [OF calm_live [OF calm_turn]])
qed (simp add: live_ret)

lemma calm_handle_all: "calm (handle_all hash_order)"
proof -
  have "paced (foreach_safe_body links QueueHead (turn hash_order) l)" for l
  proof -
    have "consumes (turn hash_order n)" for n unfolding consumes_def by (auto dest: turn_consumes)
    then show ?thesis
      unfolding foreach_safe_body_def io_then_def
      by (auto intro!: paced_stop paced_if paced_done paced_bind1 calm_option calm_stop calm_bind calm_gets calm_ret
          split: prod.split option.split)
  qed
  moreover have "calm (foreach_safe_body links QueueHead (turn hash_order) l)" for l
    unfolding foreach_safe_body_def
    by (auto intro!: calm_small calm_turn split: prod.split option.split)
  ultimately show ?thesis
    unfolding handle_all_def qlist_foreach_safe_def
    by (intro calm_small calm_loop) simp_all
qed

lemma calm_alloc_mem: "calm alloc_conn_ctx_mem"
  unfolding alloc_conn_ctx_mem_def
  by (intro calm_small) (auto intro!: calm_small split: resp.splits option.splits)

lemma consumes_alloc_mem: "consumes alloc_conn_ctx_mem"
  unfolding alloc_conn_ctx_mem_def
  by (intro consumes_bind1 consumes_answer calm_shrinks)
    (auto intro!: calm_small split: resp.splits option.splits)

lemma calm_fill: "calm fill_conn_ctx_cache"
proof -
  have "calm (fill_loop_body n)" for n
    unfolding fill_loop_body_def by (intro calm_small calm_alloc_mem calm_lift_links)
  moreover have "paced (fill_loop_body n)" for n
    unfolding fill_loop_body_def
    by (intro paced_if paced_done paced_bind1 consumes_alloc_mem calm_option) (intro calm_small calm_lift_links)+
  ultimately show ?thesis unfolding fill_conn_ctx_cache_def by (intro calm_small calm_loop)
qed

lemma calm_create: "calm (create_new_conn sock)"
  unfolding create_new_conn_def alloc_conn_ctx_def take_cached_ctx_def add_conn_to_queue_def
  by (intro calm_small calm_fill calm_lift_links) (auto intro!: calm_small calm_lift_links split: option.split node.split)

lemma calm_syscall: "calm syscall"
  unfolding syscall_def by (intro calm_bind calm_answer) (auto intro!: calm_small split: resp.split)

lemma calm_wall_time: "calm wall_time"
  unfolding wall_time_def by (intro calm_small calm_syscall)

lemma calm_wait_clients: "calm wait_clients"
  unfolding wait_clients_def accept_new_def by (intro calm_small calm_syscall calm_create) simp_all

lemma round_body_rounds: "calm (round_body hash_order t)" "paced (round_body hash_order t)"
proof -
  have w: "consumes wall_time"
    unfolding wall_time_def syscall_def
    by (intro consumes_bind1 consumes_answer calm_shrinks) (auto intro!: calm_small split: resp.split)
  have r: "calm (if all_end - t \<ge> 1
       then io_bind (gets_st (\<lambda>s. sint (n_conn s - prev_n_conn s))) (\<lambda>n.
         io_then (emit (Ev_rate n))
         (io_then (modify_st (\<lambda>s. s\<lparr>prev_n_conn := n_conn s\<rparr>)) (ret (Inl all_end))))
       else ret (Inl t))" for all_end
    by (intro calm_small)
  show "calm (round_body hash_order t)"
    unfolding round_body_def by (intro calm_then calm_bind calm_wait_clients calm_handle_all calm_wall_time r)
  show "paced (round_body hash_order t)"
    unfolding round_body_def io_then_def
    by (intro paced_bind2 calm_wait_clients calm_handle_all paced_bind1 w r [unfolded io_then_def])
qed

lemma calm_routine: "calm (handle_connections_routine hash_order sock)"
proof -
  have e: "calm (io_bind syscall exit_on_error)"
    unfolding exit_on_error_def by (intro calm_small calm_syscall) simp
  have "calm (routine_setup sock)"
    unfolding routine_setup_def init_conn_ctx_cache_def
    by (intro calm_small calm_fill calm_sock_setup e calm_wall_time) simp_all
  then show ?thesis
    unfolding handle_connections_routine_def by (intro calm_bind calm_loop round_body_rounds)
qed

end
