(* ===== verification/Dialogue.thy ===== *)
theory Dialogue
  imports Liveness
begin

text \<open>
  What a client has been sent at any moment, and not only when its connection ends: wherever a
  coroutine stops (waiting for a call, switched out, at an exit or a fault), the bytes it sent are
  the answers to the requests in the bytes it received, up to a part of the last answer. For a
  worker this holds of every connection in its queue, whatever the other connections do.
\<close>

section \<open>Silent code\<close>

definition quiet :: "('e \<Rightarrow> bool) \<Rightarrow> ('r, 's, 'e) world \<Rightarrow> ('r, 's, 'e) world \<Rightarrow> bool" where
  "quiet p w v \<longleftrightarrow> (\<exists>t. trace v = trace w @ t \<and> (\<forall>e \<in> set t. p e))"

lemma quiet_refl: "quiet p w w"
  by (simp add: quiet_def)

lemma quiet_trans: "quiet p u v \<Longrightarrow> quiet p v w \<Longrightarrow> quiet p u w"
  unfolding quiet_def by (metis Un_iff append.assoc set_append)

interpretation qu: world_preorder "quiet p" for p
  by unfold_locales (auto intro: quiet_refl quiet_trans)

lemma qu_modify: "keeps (quiet p) (modify_st f)"
  by (rule keepsI) (auto simp: modify_st_def quiet_def)

lemma qu_emit: "p e \<Longrightarrow> keeps (quiet p) (emit e)"
  by (rule keepsI) (auto simp: emit_def quiet_def)

lemma qu_answer: "keeps (quiet p) (answer s)"
  by (rule keepsI) (auto simp: answer_def quiet_def split: list.splits)

lemma qu_option:
  "keeps (quiet p) n \<Longrightarrow> (\<And>b. keeps (quiet p) (g b)) \<Longrightarrow> keeps (quiet p) (case s of None \<Rightarrow> n | Some b \<Rightarrow> g b)"
  by (simp split: option.split)

lemma qu_sum:
  "(\<And>a. keeps (quiet p) (f a)) \<Longrightarrow> (\<And>b. keeps (quiet p) (g b)) \<Longrightarrow>
    keeps (quiet p) (case s of Inl a \<Rightarrow> f a | Inr b \<Rightarrow> g b)"
  by (simp split: sum.split)

lemma qu_prod: "(\<And>a b. keeps (quiet p) (f a b)) \<Longrightarrow> keeps (quiet p) (case x of (a, b) \<Rightarrow> f a b)"
  by (simp split: prod.split)

lemmas qu_intros = qu.keeps_ret qu.keeps_stop qu.keeps_gets qu.keeps_bind qu.keeps_then qu.keeps_when qu.keeps_if
  qu_modify qu_answer qu_option qu_sum qu_prod

text \<open>The code around the transfers only switches and closes.\<close>

locale transfer_events =
  fixes p :: "event \<Rightarrow> bool"
  assumes p_yield: "p (Ev_yield n)" and p_close: "p (Ev_close sock)" and p_fcntl: "p (Ev_fcntl sock cmd)"
begin

lemma qu_curr_time: "keeps (quiet p) curr_time"
  unfolding curr_time_def by (intro qu.keeps_bind qu_answer) (auto intro: qu_intros split: resp.split)

lemma qu_with_curr: "(\<And>c. keeps (quiet p) (f c)) \<Longrightarrow> keeps (quiet p) (with_curr f)"
  unfolding with_curr_def by (intro qu_intros) auto

lemma qu_curr_field: "keeps (quiet p) (curr_field f)"
  unfolding curr_field_def by (intro qu_with_curr qu_intros)

lemma qu_lift_fault: "keeps (quiet p) (lift_fault r)"
  unfolding lift_fault_def by (intro qu_intros)

lemmas qu_small = qu_intros qu_curr_time qu_with_curr qu_curr_field qu_lift_fault

lemma qu_swap_to_main: "keeps (quiet p) swap_to_main_ctx"
  unfolding swap_to_main_ctx_def
  by (intro qu_small qu_emit p_yield) (auto intro!: qu_small split: resp.split)

lemma qu_update_active: "keeps (quiet p) curr_conn_update_active"
  unfolding curr_conn_update_active_def by (intro qu_small)

lemma qu_start_op: "keeps (quiet p) curr_conn_start_op"
  unfolding curr_conn_start_op_def by (intro qu_small)

lemma qu_close: "keeps (quiet p) curr_conn_close"
  unfolding curr_conn_close_def by (intro qu_small qu_emit p_close)

lemma qu_cond_swap: "keeps (quiet p) cond_swap_to_main_ctx"
  unfolding cond_swap_to_main_ctx_def need_ctx_swap_def by (intro qu_small qu_swap_to_main)

lemma qu_would_block: "keeps (quiet p) would_block"
  unfolding would_block_def curr_conn_active_timeout_def curr_conn_set_inactive_def
  by (intro qu_small qu_swap_to_main)

lemma qu_sock_error: "keeps (quiet p) (sock_error l e)"
  unfolding sock_error_def by (intro qu_small qu_swap_to_main qu_would_block qu_close)

lemma qu_check_timeout: "keeps (quiet p) (check_timeout timeout b)"
  unfolding check_timeout_def curr_conn_op_timeout_def by (intro qu_small)

lemma qu_check_end: "keeps (quiet p) (check_end terminator b prev n)"
  unfolding check_end_def by (intro qu_small)

lemma qu_sock: "keeps (quiet p) curr_conn_sock"
  unfolding curr_conn_sock_def by (intro qu_small)

lemma qu_send_got: "keeps (quiet p) (send_got timeout l cnt)"
  unfolding send_got_def by (intro qu_small qu_update_active qu_check_timeout)

lemma qu_curr_view: "keeps (quiet p) (curr_view off n)"
  unfolding curr_view_def by (intro qu_small)

lemma qu_set_recv_pos: "keeps (quiet p) (set_recv_pos h u)"
  unfolding set_recv_pos_def by (intro qu_small)

lemma qu_format_date: "keeps (quiet p) format_date_hdr"
  unfolding format_date_hdr_def by (intro qu.keeps_bind qu_answer) (auto intro!: qu_small split: resp.split)

lemma qu_fcntl: "keeps (quiet p) (fcntl sock cmd)"
  unfolding fcntl_def by (intro qu.keeps_then qu_emit p_fcntl qu.keeps_bind qu_answer) (auto intro!: qu_small split: resp.split)

lemma qu_gettid: "keeps (quiet p) gettid"
  unfolding gettid_def by (intro qu.keeps_bind qu_answer) (auto intro!: qu_small split: resp.split)

lemma qu_sock_setup: "keeps (quiet p) (set_nonblock sock)" "keeps (quiet p) (set_async sock)"
  unfolding set_nonblock_def set_async_def close_failed_def by (intro qu_small qu_fcntl qu_gettid qu_emit p_close)+

end

definition no_output :: "event \<Rightarrow> bool" where "no_output e \<longleftrightarrow> ev_out e = []"
definition no_input :: "event \<Rightarrow> bool" where "no_input e \<longleftrightarrow> ev_in e = []"

interpretation no_out: transfer_events no_output
  by unfold_locales (simp_all add: no_output_def)

interpretation no_in: transfer_events no_input
  by unfold_locales (simp_all add: no_input_def)

lemma quiet_sent: "quiet no_output w v \<Longrightarrow> sent (trace v) = sent (trace w)"
  by (auto simp: quiet_def no_output_def sent_def)

lemma quiet_recvd: "quiet no_input w v \<Longrightarrow> recvd (trace v) = recvd (trace w)"
  by (auto simp: quiet_def no_input_def recvd_def)

section \<open>Receiving sends nothing\<close>

lemma out_sys_read: "keeps (quiet no_output) (sys_read sock off n)"
proof -
  have "no_output (Ev_recv sock d)" for d by (simp add: no_output_def)
  then show ?thesis
    unfolding sys_read_def Let_def
    by (intro qu.keeps_bind qu_answer) (auto intro!: no_out.qu_small qu_emit split: resp.split)
qed

lemma out_recv_got: "keeps (quiet no_output) (recv_got timeout terminator l cnt)"
  unfolding recv_got_def
  by (intro no_out.qu_small no_out.qu_update_active no_out.qu_check_end no_out.qu_check_timeout)

lemma out_recv_from: "keeps (quiet no_output) (recv_from_curr_conn to_recv n_recv timeout terminator)"
  unfolding recv_from_curr_conn_def recv_body_def
  by (intro qu.keeps_loop no_out.qu_small no_out.qu_update_active no_out.qu_start_op no_out.qu_sock
      out_sys_read no_out.qu_sock_error out_recv_got)

lemma out_recv_http_msg: "keeps (quiet no_output) recv_http_msg"
  unfolding recv_http_msg_def recv_http_hdr_def hdr_finish_def buf_move_def recv_http_body_def body_loop_def Let_def
  by (intro qu.keeps_loop no_out.qu_small no_out.qu_curr_view no_out.qu_set_recv_pos out_recv_from no_out.qu_cond_swap)

section \<open>Sending receives nothing, and sends a part of its buffer\<close>

lemma in_sys_write: "keeps (quiet no_input) (sys_write sock buf off n)"
proof -
  have "no_input (Ev_send sock d)" for d by (simp add: no_input_def)
  then show ?thesis
    unfolding sys_write_def Let_def
    by (intro qu.keeps_bind qu_answer) (auto intro!: no_in.qu_small qu_emit split: resp.split)
qed

lemma in_send_http_msg: "keeps (quiet no_input) (send_http_msg hash_order resp)"
  unfolding send_http_msg_def send_msg_loop_def send_to_curr_conn_def send_body_def Let_def
  by (intro qu.keeps_loop no_in.qu_small no_in.qu_update_active no_in.qu_start_op no_in.qu_sock
      in_sys_write no_in.qu_sock_error no_in.qu_send_got no_in.qu_cond_swap)

text \<open>How a sequence stops or returns.\<close>

lemma io_bind_cases:
  assumes "io_bind m f w = (r, v)"
  obtains s where "m w = (Inl s, v)" "r = Inl s" | a u where "m w = (Inr a, u)" "f a u = (r, v)"
  using assms by (cases "m w") (auto simp: io_bind_def split: sum.splits)

text \<open>\<open>outs S m Q\<close>: entered with the bytes \<open>S\<close> sent, \<open>m\<close> leaves \<open>Q r\<close> of the bytes sent.\<close>

definition outs :: "bytes \<Rightarrow> (resp, srv_state, event, 'a) io \<Rightarrow> (stop + 'a \<Rightarrow> bytes \<Rightarrow> bool) \<Rightarrow> bool" where
  "outs S m Q \<longleftrightarrow> triple (\<lambda>w. sent (trace w) = S) m (\<lambda>r v. Q r (sent (trace v)))"

lemma outs_quiet:
  assumes "keeps (quiet no_output) m" and "\<And>w r v. m w = (r, v) \<Longrightarrow> Q r S"
  shows "outs S m Q"
  unfolding outs_def by (rule tripleI) (use assms quiet_sent in \<open>fastforce dest: keepsD\<close>)

lemma outs_bind:
  assumes m: "outs S m M" and f: "\<And>a S'. M (Inr a) S' \<Longrightarrow> outs S' (f a) Q" and s: "\<And>s S'. M (Inl s) S' \<Longrightarrow> Q (Inl s) S'"
  shows "outs S (io_bind m f) Q"
  unfolding outs_def
proof (rule triple_bind [OF m [unfolded outs_def]])
  show "triple (\<lambda>v. M (Inr a) (sent (trace v))) (f a) (\<lambda>r v. Q r (sent (trace v)))" for a
    by (rule tripleI) (use f in \<open>fastforce simp: outs_def dest: tripleD\<close>)
qed (rule s)

lemma outs_then:
  "keeps (quiet no_output) m \<Longrightarrow> (\<And>s. Q (Inl s) S) \<Longrightarrow> outs S k Q \<Longrightarrow> outs S (io_then m k) Q"
  unfolding io_then_def by (rule outs_bind [OF outs_quiet [where Q = "\<lambda>_ S'. S' = S"]]) auto

lemma outs_ret: "Q (Inr a) S \<Longrightarrow> outs S (ret a) Q"
  by (simp add: outs_def triple_def ret_def)

lemma outs_loop:
  assumes "\<And>l S. I l S \<Longrightarrow> outs S (bd l) (\<lambda>r S'. case r of Inl s \<Rightarrow> Q (Inl s) S' | Inr (Inl l') \<Rightarrow> I l' S' | Inr (Inr a) \<Rightarrow> Q (Inr a) S')"
    and "\<And>l S. I l S \<Longrightarrow> Q (Inl Diverge) S" and "I l S"
  shows "outs S (io_loop bd l) Q"
proof -
  have "triple (\<lambda>w. I l (sent (trace w))) (io_loop bd l) (\<lambda>r v. Q r (sent (trace v)))"
  proof (rule triple_loop)
    fix l
    show "triple (\<lambda>w. I l (sent (trace w))) (bd l) (\<lambda>r v. case r of Inl s \<Rightarrow> Q (Inl s) (sent (trace v))
        | Inr (Inl l') \<Rightarrow> I l' (sent (trace v)) | Inr (Inr a) \<Rightarrow> Q (Inr a) (sent (trace v)))"
      by (rule tripleI) (use assms(1) in \<open>fastforce simp: outs_def dest: tripleD split: sum.splits\<close>)
  qed (use assms(2) in auto)
  then show ?thesis
    unfolding outs_def by (rule triple_conseq) (use assms(3) in auto)
qed

text \<open>One \<open>write\<close>.\<close>

lemma outs_sys_write:
  "outs S (sys_write sock buf off n) (\<lambda>r S'. case r of
     Inr (Inr cnt) \<Rightarrow> 0 \<le> cnt \<and> cnt \<le> n \<and> S' = S @ take (nat cnt) (drop (nat off) buf) | _ \<Rightarrow> S' = S)"
  unfolding sys_write_def
proof (rule outs_bind [OF outs_quiet [OF qu_answer, where Q = "\<lambda>_ S'. S' = S"]])
  fix a S' assume "S' = S"
  then show "outs S' (case a of
       R_write_err e \<Rightarrow> if e = EPIPE then stop_with (Fault Sigpipe) else ret (Inl e)
     | R_write_cnt k \<Rightarrow>
         if off < 0 \<or> n < 0 \<or> off + n > int (length buf) then stop_with (Fault (Out_of_bounds off))
         else (let d = take (min k (nat n)) (drop (nat off) buf) in
           io_then (emit (Ev_send sock d)) (ret (Inr (int (length d)))))
     | _ \<Rightarrow> stop_with Mismatch) (\<lambda>r S'. case r of
     Inr (Inr cnt) \<Rightarrow> 0 \<le> cnt \<and> cnt \<le> n \<and> S' = S @ take (nat cnt) (drop (nat off) buf) | _ \<Rightarrow> S' = S)"
    by (cases a) (auto simp: outs_def triple_def io_exec Let_def)
qed simp_all

text \<open>\<open>send_to_curr_conn\<close>, wherever it stops.\<close>

definition part_sent :: "bytes \<Rightarrow> bytes \<Rightarrow> int \<Rightarrow> stop + int \<Rightarrow> bytes \<Rightarrow> bool" where
  "part_sent S buf tot r S' \<longleftrightarrow> (\<exists>n. 0 \<le> n \<and> n \<le> tot \<and> S' = S @ take (nat n) buf \<and> (\<forall>a. r = Inr a \<longrightarrow> a = n \<or> a = -1))"

lemma sock_error_returns: "sock_error l e w = (Inr r, v) \<Longrightarrow> r = Inl l \<or> r = Inr (-1)"
  by (auto simp: sock_error_def io_then_returns ret_def split: if_splits)

lemma send_got_returns:
  assumes "send_got timeout (to_send, n_send, e, x) cnt w = (Inr r, v)" and "0 \<le> cnt"
  shows "\<exists>e' x'. r = Inl (to_send - cnt, n_send + cnt, e', x')"
  using assms by (auto simp: send_got_def io_then_returns io_bind_returns ret_def split: if_splits)

lemma outs_send_to:
  assumes "0 \<le> tot"
  shows "outs S (send_to_curr_conn buf tot timeout) (part_sent S buf tot)"
proof -
  let ?I = "\<lambda>(l :: io_local) S'. case l of (to_send, n, e, x) \<Rightarrow>
    0 \<le> n \<and> n \<le> tot \<and> to_send = tot - n \<and> S' = S @ take (nat n) buf"
  let ?Q = "\<lambda>r S'. case r of Inl s \<Rightarrow> part_sent S buf tot (Inl s) S' | Inr (Inl l') \<Rightarrow> ?I l' S'
    | Inr (Inr a) \<Rightarrow> part_sent S buf tot (Inr a) S'"
  have body: "outs S' (send_body buf timeout l) ?Q" if "?I l S'" for l S'
  proof (cases l)
    case (fields to_send n e x)
    with that have n: "0 \<le> n" "n \<le> tot" "to_send = tot - n" "S' = S @ take (nat n) buf" by auto
    then have stop: "part_sent S buf tot (Inl s) S'" for s by (auto simp: part_sent_def)
    have err: "outs S' (sock_error l e') ?Q" for e'
      by (rule outs_quiet [OF no_out.qu_sock_error])
        (use n stop fields in \<open>auto dest!: sock_error_returns simp: part_sent_def split: sum.split\<close>)
    have got: "outs (S' @ take (nat cnt) (drop (nat n) buf)) (send_got timeout l cnt) ?Q"
      if "0 \<le> cnt" "cnt \<le> to_send" for cnt
    proof (rule outs_quiet [OF no_out.qu_send_got])
      fix w r v assume run: "send_got timeout l cnt w = (r, v)"
      have "S' @ take (nat cnt) (drop (nat n) buf) = S @ take (nat (n + cnt)) buf"
        using n that by (simp add: nat_add_distrib take_add)
      with run n that show "?Q r (S' @ take (nat cnt) (drop (nat n) buf))"
        unfolding fields
        by (cases r) (auto simp: part_sent_def intro!: exI [of _ "n + cnt"] dest!: send_got_returns)
    qed
    have "outs S' (io_bind curr_conn_sock (\<lambda>sock. io_bind (sys_write sock buf n to_send) (\<lambda>r. case r of
        Inl errno \<Rightarrow> sock_error l errno | Inr cnt \<Rightarrow> send_got timeout l cnt))) ?Q"
    proof (rule outs_bind [OF outs_quiet [OF no_out.qu_sock, where Q = "\<lambda>_ X. X = S'"]])
      fix sock X assume X: "X = S'"
      show "outs X (io_bind (sys_write sock buf n to_send) (\<lambda>r. case r of
        Inl errno \<Rightarrow> sock_error l errno | Inr cnt \<Rightarrow> send_got timeout l cnt)) ?Q"
        unfolding X
      proof (rule outs_bind [OF outs_sys_write], goal_cases)
        case (1 a Y)
        show ?case
        proof (cases a)
          case (Inl e')
          with 1 show ?thesis using err [of e'] by simp
        next
          case (Inr cnt)
          with 1 show ?thesis using got [of cnt] by simp
        qed
      qed (simp add: stop)
    qed (simp_all add: stop)
    moreover have "outs S' (ret (Inr n)) ?Q" by (rule outs_ret) (use n in \<open>auto simp: part_sent_def\<close>)
    ultimately show ?thesis
      unfolding send_body_def fields prod.case
      by (cases "\<not> (to_send \<noteq> 0 \<and> \<not> e \<and> \<not> x)") (simp_all only: if_True if_False not_True_eq_False not_False_eq_True)
  qed
  have "outs S (io_loop (send_body buf timeout) (tot, 0, False, False)) (part_sent S buf tot)"
    by (rule outs_loop [where I = ?I, OF body]) (use assms in \<open>auto simp: part_sent_def\<close>)
  moreover have "part_sent S buf tot (Inl s) S" for s
    using assms by (auto simp: part_sent_def intro!: exI [of _ 0])
  ultimately show ?thesis
    unfolding send_to_curr_conn_def by (intro outs_then no_out.qu_update_active no_out.qu_start_op)
qed

lemma outs_send_http_msg:
  "outs S (send_http_msg hash_order resp) (\<lambda>r S'. \<exists>n. S' = S @ take n (Serialize_response hash_order resp))"
proof -
  define msg where "msg = Serialize_response hash_order resp"
  let ?Q = "\<lambda>r S'. \<exists>n. S' = S @ take n msg"
  let ?I = "\<lambda>pos S'. 0 \<le> pos \<and> S' = S @ take (nat pos) msg"
  have step: "outs S' (send_msg_loop msg pos)
      (\<lambda>r S'. case r of Inl s \<Rightarrow> ?Q (Inl s) S' | Inr (Inl l') \<Rightarrow> ?I l' S' | Inr (Inr a) \<Rightarrow> ?Q (Inr a) S')"
    (is "outs _ _ ?B") if I: "?I pos S'" for pos S'
  proof -
    define to where "to = min SEND_PACKET_SIZE (int (length msg) - pos)"
    have "outs S' (io_bind (send_to_curr_conn (drop (nat pos) msg) to CLIENT_OP_TIMEOUT) (\<lambda>count.
        if count \<noteq> to then ret (Inr 0) else io_then cond_swap_to_main_ctx (ret (Inl (pos + to))))) ?B"
      if "pos < int (length msg)"
    proof -
      have to: "0 < to" using that by (simp add: to_def srv_consts)
      have cut: "S' @ take (nat n) (drop (nat pos) msg) = S @ take (nat (pos + n)) msg" if "0 \<le> n" for n
        using I that by (simp add: nat_add_distrib take_add)
      show ?thesis
      proof (rule outs_bind [OF outs_send_to], goal_cases)
        case (2 count Y)
        then obtain n where n: "0 \<le> n" "Y = S @ take (nat (pos + n)) msg" "count = n \<or> count = -1"
          using cut by (auto simp: part_sent_def)
        show ?case
        proof (cases "count = to")
          case True
          with n to have "Y = S @ take (nat (pos + to)) msg" by auto
          with I to have "outs Y (io_then cond_swap_to_main_ctx (ret (Inl (pos + to)))) ?B"
            by (intro outs_then no_out.qu_cond_swap outs_ret) auto
          with True show ?thesis by simp
        next
          case False
          with n show ?thesis by (auto intro!: outs_ret)
        qed
      next
        case (3 s Y)
        then show ?case using cut by (auto simp: part_sent_def)
      qed (use to in simp)
    qed
    moreover have "outs S' (ret (Inr (int (length msg)))) ?B" by (rule outs_ret) (use I in auto)
    ultimately show ?thesis unfolding send_msg_loop_def Let_def to_def [symmetric] by simp
  qed
  have "outs S (io_loop (send_msg_loop msg) 0) ?Q"
    by (rule outs_loop [where I = ?I, OF step]) auto
  then show ?thesis by (simp add: send_http_msg_def msg_def)
qed

section \<open>One request\<close>

definition reply :: "(header_map \<Rightarrow> header_map) \<Rightarrow> http_request \<Rightarrow> (resp, srv_state, event, bool) io" where
  "reply hash_order req = io_bind format_date_hdr (\<lambda>date.
         io_bind (lift_fault (MakeResponse date req)) (\<lambda>resp.
         io_bind (send_http_msg hash_order resp) (\<lambda>count.
         if count \<le> 0 then ret False
         else io_bind (lift_fault (WantKeepAlive req)) (\<lambda>keep.
           if \<not> keep then ret False
           else io_then cond_swap_to_main_ctx (ret True)))))"

lemma handle_request_reply:
  "handle_one_client_request hash_order = io_bind recv_http_msg (\<lambda>r. case r of
     None \<Rightarrow> ret False | Some req \<Rightarrow> reply hash_order req)"
  unfolding handle_one_client_request_def reply_def ..

lemma in_reply: "keeps (quiet no_input) (reply hash_order req)"
  unfolding reply_def by (intro no_in.qu_small no_in.qu_format_date in_send_http_msg no_in.qu_cond_swap)

lemma format_date_ok: "format_date_hdr w = (Inr date, v) \<Longrightarrow> date_ok date"
  unfolding format_date_hdr_def
proof (cases rule: io_bind_cases)
  fix a u assume "(case a of R_date date \<Rightarrow> if date_ok date then ret date else stop_with Mismatch
    | _ \<Rightarrow> stop_with Mismatch) u = (Inr date, v)"
  then show "date_ok date" by (cases a) (auto simp: ret_def stop_with_def split: if_splits)
qed simp_all

lemma outs_reply:
  "outs S (reply hash_order req) (\<lambda>r S'. S' = S \<or> (\<exists>date resp n. date_ok date \<and> MakeResponse date req = Inr resp \<and>
     S' = S @ take n (Serialize_response hash_order resp)))" (is "outs _ _ ?Q")
  unfolding reply_def
proof (rule outs_bind [OF outs_quiet [OF no_out.qu_format_date,
        where Q = "\<lambda>r S'. S' = S \<and> (\<forall>date. r = Inr date \<longrightarrow> date_ok date)"]], goal_cases)
  case (1 w r v)
  then show ?case by (auto dest: format_date_ok)
next
  case (2 date X)
  then have X: "X = S" "date_ok date" by auto
  show ?case
  proof (cases "MakeResponse date req")
    case (Inl f)
    with X show ?thesis by (auto simp: lift_fault_def outs_def triple_def io_exec)
  next
    case (Inr resp)
    let ?tail = "\<lambda>count. if count \<le> (0 :: int) then ret False
         else io_bind (lift_fault (WantKeepAlive req)) (\<lambda>keep.
           if \<not> keep then ret False
           else io_then cond_swap_to_main_ctx (ret True))"
    have "keeps (quiet no_output) (?tail count)" for count
      by (intro no_out.qu_small no_out.qu_cond_swap)
    then have "outs S (io_bind (send_http_msg hash_order resp) ?tail) ?Q"
      by (intro outs_bind [OF outs_send_http_msg] outs_quiet) (use X Inr in blast)+
    then show ?thesis unfolding Inr lift_fault_bind X .
  qed
qed auto

text \<open>Where handling a request stops, the bytes sent are those of \<open>handled\<close> for a request not gone on from.\<close>

lemma request_stops:
  assumes inv: "co_inv c (\<lambda>_. True) w" "stream P R S (conns (st w) c) (trace w)"
    and run: "handle_one_client_request hash_order w = (Inl s, v)"
  shows "handled hash_order P R S False k (trace v)"
  using run unfolding handle_request_reply
proof (cases rule: io_bind_cases)
  case (1 s')
  then have q: "quiet no_output w v" using keepsD [OF out_recv_http_msg] by blast
  then obtain d where "recvd (trace v) = R @ d"
    using inv(2) by (auto simp: quiet_def stream_def recvd_def)
  with quiet_sent [OF q] inv(2) show ?thesis by (auto simp: handled_def stream_def)
next
  case (2 a u)
  then obtain req where a: "a = Some req" "reply hash_order req u = (Inl s, v)"
    by (auto simp: ret_def split: option.splits)
  have "co_post c (\<lambda>_. True) (msg_result P R S) (Inr a) u"
    by (rule coD [OF solo.co_recv_http_msg inv 2(1)])
  then obtain bs d P' where m: "P @ d = bs @ P'" "request_in bs req" "recvd (trace u) = R @ d" "sent (trace u) = S"
    by (auto simp: a(1) msg_result_def stream_def)
  have r: "recvd (trace v) = R @ d" using quiet_recvd keepsD [OF in_reply a(2)] m(3) by metis
  from tripleD [OF outs_reply [unfolded outs_def] m(4) a(2)]
  consider "sent (trace v) = S" | date resp n where "date_ok date" "MakeResponse date req = Inr resp"
      "sent (trace v) = S @ take n (Serialize_response hash_order resp)" by blast
  then show ?thesis
  proof cases
    case 1
    with r show ?thesis by (simp add: handled_def)
  next
    case 2
    from exchangeI [OF m(2) 2(2,1), of hash_order] obtain keep where
      "exchange hash_order bs (Serialize_response hash_order resp) keep" by blast
    with r 2(3) m(1) show ?thesis unfolding handled_def if_False by blast
  qed
qed

section \<open>A connection\<close>

lemma conv_result_traffic:
  "recvd t = recvd t' \<Longrightarrow> sent t = sent t' \<Longrightarrow> conv_result hash_order P R S k t = conv_result hash_order P R S k' t'"
  by (simp add: conv_result_def)

lemma conv_result_quiet:
  assumes "conv_result hash_order P R S k (trace w)" and "quiet no_output w v" "quiet no_input w v"
  shows "conv_result hash_order P R S k' (trace v)"
  using assms(1) conv_result_traffic [OF quiet_recvd [OF assms(3)] quiet_sent [OF assms(2)]] by blast

lemma conv_result_start: "stream P R S k t \<Longrightarrow> conv_result hash_order P R S k t"
  unfolding conv_result_def stream_def
  by (rule exI [of _ "[]"], rule exI [of _ "[]"], rule exI [of _ "[]"], rule exI [of _ P]) simp

lemma conv_state_result: "conv_state hash_order P R S k t \<Longrightarrow> conv_result hash_order P R S k t"
  unfolding conv_state_def conv_result_def stream_def by blast

lemma serve_stops:
  assumes inv: "co_inv c (\<lambda>_. True) w" "stream P R S (conns (st w) c) (trace w)"
    and run: "serve_requests hash_order w = (r, v)"
  shows "conv_result hash_order P R S k (trace v)"
proof -
  let ?I = "\<lambda>(l :: unit) w. co_inv c (\<lambda>_. True) w \<and> conv_state hash_order P R S (conns (st w) c) (trace w)"
  let ?Q = "\<lambda>(r :: stop + unit) v. conv_result hash_order P R S k (trace v)"
  have same: "conv_result hash_order P R S k' t \<Longrightarrow> conv_result hash_order P R S k t" for k' t
    using conv_result_traffic [of t t] by blast
  have "triple (?I ()) (serve_requests hash_order) ?Q"
    unfolding serve_requests_def
  proof (rule triple_loop, rule tripleI)
    fix l w r v
    assume I: "?I l w" and run: "io_bind (handle_one_client_request hash_order)
      (\<lambda>go. ret (if go then Inl () else Inr ())) w = (r, v)"
    from I obtain bss outs d P' where c: "P @ d = concat bss @ P'"
      "list_all2 (\<lambda>bs out. exchange hash_order bs out True) bss outs"
      "stream P' (R @ d) (S @ concat outs) (conns (st w) c) (trace w)" by (auto simp: conv_state_def)
    have step: "if go then conv_state hash_order P R S k t else conv_result hash_order P R S k t"
      if "handled hash_order P' (R @ d) (S @ concat outs) go k t" for go k t
      using that by (rule conv_state_step [OF c(1,2)])
    from run show "case r of Inl s \<Rightarrow> ?Q (Inl s) v | Inr (Inl l') \<Rightarrow> ?I l' v | Inr (Inr a) \<Rightarrow> ?Q (Inr a) v"
    proof (cases rule: io_bind_cases)
      case (1 s)
      with request_stops [OF _ c(3) 1(1), where k = k] I step [of False k] show ?thesis by simp
    next
      case (2 go u)
      have "co_post c (\<lambda>_. True) (handled hash_order P' (R @ d) (S @ concat outs)) (Inr go) u"
        by (rule coD [OF solo.co_handle_one_client_request _ c(3) 2(1)]) (use I in simp)
      with 2(2) step [of go "conns (st u) c" "trace u"] show ?thesis by (cases go) (auto simp: ret_def intro: same)
    qed
  qed (auto intro: same conv_state_result)
  from tripleD [OF this _ run] inv show ?thesis by (auto intro: conv_state_start)
qed

text \<open>The whole coroutine: its set-up and its end transfer nothing.\<close>

definition at_start :: "nat \<Rightarrow> bytes \<Rightarrow> bytes \<Rightarrow> bytes \<Rightarrow> (resp, srv_state, event) world \<Rightarrow> bool" where
  "at_start c P R S w \<longleftrightarrow> co_inv c (\<lambda>_. True) w \<and> stream P R S (conns (st w) c) (trace w)"

definition set_up :: "(header_map \<Rightarrow> header_map) \<Rightarrow> nat \<Rightarrow> bytes \<Rightarrow> bytes \<Rightarrow> bytes \<Rightarrow> conn_t \<Rightarrow> ('a \<Rightarrow> bool) \<Rightarrow>
    stop + 'a \<Rightarrow> (resp, srv_state, event) world \<Rightarrow> bool" where
  "set_up hash_order c P R S k ok r v \<longleftrightarrow>
     conv_result hash_order P R S k (trace v) \<and> (\<forall>a. r = Inr a \<and> ok a \<longrightarrow> at_start c P R S v)"

lemma set_up_step:
  assumes co: "co c (\<lambda>_. True) (stream P R S) m (\<lambda>r k t. ok r \<longrightarrow> stream P R S k t)"
    and q: "keeps (quiet no_output) m" "keeps (quiet no_input) m"
  shows "triple (at_start c P R S) m (set_up hash_order c P R S k ok)"
proof (rule tripleI)
  fix w r v assume w: "at_start c P R S w" and m: "m w = (r, v)"
  then have "conv_result hash_order P R S k (trace v)"
    using conv_result_quiet [OF conv_result_start keepsD [OF q(1) m] keepsD [OF q(2) m]] by (auto simp: at_start_def)
  moreover have "at_start c P R S v" if "r = Inr a" "ok a" for a
    using coD [OF co _ _ m] w that by (simp add: at_start_def)
  ultimately show "set_up hash_order c P R S k ok r v" unfolding set_up_def by blast
qed

lemma set_up_sock: "triple (at_start c P R S) curr_conn_sock (set_up hash_order c P R S k (\<lambda>_. True))"
  by (rule set_up_step [OF co_conseq [OF solo.co_sock] no_out.qu_sock no_in.qu_sock]) auto

lemma set_up_modes:
  "triple (at_start c P R S) (set_nonblock s) (set_up hash_order c P R S k (\<lambda>r. r = 0))"
  "triple (at_start c P R S) (set_async s) (set_up hash_order c P R S k (\<lambda>r. r = 0))"
proof -
  have st: "stream P R S k t \<Longrightarrow> stream P R S k (t @ [Ev_fcntl s cmd])" for k t s cmd
    by (simp add: stream_def)
  show "triple (at_start c P R S) (set_nonblock s) (set_up hash_order c P R S k (\<lambda>r. r = 0))"
    by (rule set_up_step [OF solo.co_set_nonblock no_out.qu_sock_setup(1) no_in.qu_sock_setup(1)]) (rule st)
  show "triple (at_start c P R S) (set_async s) (set_up hash_order c P R S k (\<lambda>r. r = 0))"
    by (rule set_up_step [OF solo.co_set_async no_out.qu_sock_setup(2) no_in.qu_sock_setup(2)]) (rule st)
qed

lemma set_up_guard:
  assumes "triple (at_start c P R S) m (\<lambda>r v. conv_result hash_order P R S k (trace v))"
  shows "triple (set_up hash_order c P R S k (\<lambda>r. r = 0) (Inr a)) (if a \<noteq> (0 :: int) then stop_with s else m)
    (\<lambda>r v. conv_result hash_order P R S k (trace v))"
  using assms by (auto simp: triple_def set_up_def stop_with_def)

lemma serve_and_close:
  "triple (at_start c P R S) (io_then (serve_requests hash_order)
      (io_then (modify_st (\<lambda>s. s\<lparr>n_conn := n_conn s + 1\<rparr>)) (io_then curr_conn_close swap_to_main_ctx)))
    (\<lambda>r v. conv_result hash_order P R S k (trace v))" (is "triple _ (io_then _ ?tail) ?Q")
proof (rule triple_then [where M = ?Q])
  show "triple (at_start c P R S) (serve_requests hash_order) ?Q"
    by (rule tripleI) (auto simp: at_start_def intro: serve_stops)
  have "keeps (quiet no_output) ?tail" "keeps (quiet no_input) ?tail"
    by (intro no_out.qu_small no_out.qu_close no_out.qu_swap_to_main no_in.qu_small no_in.qu_close no_in.qu_swap_to_main)+
  then show "triple (?Q (Inr a)) ?tail ?Q" for a
    by (intro tripleI) (blast intro: conv_result_quiet dest: keepsD)
qed

lemma connection_stops:
  assumes inv: "co_inv c (\<lambda>_. True) w" "stream P R S (conns (st w) c) (trace w)"
    and run: "handle_one_connection hash_order w = (r, v)"
  shows "conv_result hash_order P R S k (trace v)"
proof -
  let ?Q = "\<lambda>r v. conv_result hash_order P R S k (trace v)"
  have sock: "triple (at_start c P R S) (io_bind curr_conn_sock f) ?Q" if "\<And>s. triple (at_start c P R S) (f s) ?Q"
    for f :: "int \<Rightarrow> (resp, srv_state, event, unit) io"
    by (rule triple_bind [OF set_up_sock [where k = k]], rule triple_conseq [OF that]) (simp_all add: set_up_def)
  have mode: "triple (at_start c P R S) (io_bind m (\<lambda>r. if r \<noteq> 0 then stop_with (Exit EXIT_FAILURE) else n)) ?Q"
    if "triple (at_start c P R S) m (set_up hash_order c P R S k (\<lambda>r. r = 0))" and "triple (at_start c P R S) n ?Q"
    for m :: "(resp, srv_state, event, int) io" and n :: "(resp, srv_state, event, unit) io"
    by (rule triple_bind [OF that(1) set_up_guard [OF that(2)]]) (simp add: set_up_def)
  have "triple (at_start c P R S) (handle_one_connection hash_order) ?Q"
    unfolding handle_one_connection_def by (intro sock mode set_up_modes serve_and_close)
  from tripleD [OF this _ run] inv show ?thesis by (simp add: at_start_def)
qed

section \<open>The dialogue with a client\<close>

text \<open>The bytes in the buffer that were received and not used.\<close>

definition unused_input :: "nat \<Rightarrow> 'a srv_state_scheme \<Rightarrow> bytes" where
  "unused_input c s = mem_view (recv_mem (conns s c)) (nat (recv_buf_curr (conns s c)))
     (nat (recv_buf_have (conns s c) - recv_buf_curr (conns s c)))"

text \<open>
  \<open>dialogue P t\<close>: the bytes \<open>P\<close> and what \<open>t\<close> received are whole requests and a rest; what \<open>t\<close> sent
  are the responses to exactly these requests, in order, followed by nothing or by a part of the
  response to a request the rest begins with.
\<close>

definition dialogue :: "(header_map \<Rightarrow> header_map) \<Rightarrow> bytes \<Rightarrow> event list \<Rightarrow> bool" where
  "dialogue hash_order P t \<longleftrightarrow>
     (\<exists>bss outs rest. P @ recvd t = concat bss @ rest \<and>
        list_all2 (\<lambda>bs out. exchange hash_order bs out True) bss outs \<and>
        (sent t = concat outs \<or>
         (\<exists>bs out keep rest' n. rest = bs @ rest' \<and> exchange hash_order bs out keep \<and>
            sent t = concat outs @ take n out)))"

lemma conv_result_dialogue: "conv_result hash_order P [] [] k t = dialogue hash_order P t"
  by (simp add: conv_result_def dialogue_def)

lemma connection_dialogue:
  assumes "own_ok c (st w)" and "trace w = []" and "handle_one_connection hash_order w = (r, v)"
  shows "dialogue hash_order (unused_input c (st w)) (trace v)"
proof -
  have "stream (unused_input c (st w)) [] [] (conns (st w) c) (trace w)"
    by (simp add: stream_def unused_input_def assms(2))
  from connection_stops [OF _ this assms(3)] assms(1) show ?thesis
    by (simp add: conv_result_dialogue)
qed

text \<open>A connection that was given a turn, in a worker: \<open>s1\<close> is the state it was entered in first.\<close>

lemma paused_dialogue:
  assumes "paused hash_order c s" and "started c s"
  shows "\<exists>s1 rs. co_hist s c = R_resume (\<lambda>_. s1) # rs \<and> dialogue hash_order (unused_input c s1) (co_trace s c)"
proof -
  from assms obtain s1 h v where h: "co_hist s c = R_resume (\<lambda>_. s1) # h" "own_ok c s1"
    "handle_one_connection hash_order \<lparr>script = h, st = s1, trace = []\<rparr> = (Inl Suspended, v)" "trace v = co_trace s c"
    unfolding paused_def by blast
  from connection_dialogue [OF _ _ h(3), of c] h(2,4) have "dialogue hash_order (unused_input c s1) (co_trace s c)"
    by simp
  with h(1) show ?thesis by blast
qed

text \<open>A dialogue about bytes that begin no request sends nothing.\<close>

lemma dialogue_no_request:
  assumes "dialogue hash_order P t" and "\<And>bs rest. P @ recvd t = bs @ rest \<Longrightarrow> find_http_headers_end bs = 0"
  shows "sent t = []"
proof -
  from assms(1) obtain bss outs rest where d: "P @ recvd t = concat bss @ rest"
    "list_all2 (\<lambda>bs out. exchange hash_order bs out True) bss outs"
    "sent t = concat outs \<or> (\<exists>bs out keep rest' n. rest = bs @ rest' \<and> exchange hash_order bs out keep \<and>
        sent t = concat outs @ take n out)"
    unfolding dialogue_def by blast
  have none: "\<not> exchange hash_order bs out keep" if "P @ recvd t = bs @ x" for bs x out keep
    using assms(2) [OF that] by (auto simp: exchange_def request_in_def Let_def)
  have "bss = []"
  proof (cases bss)
    case (Cons bs bss')
    then obtain out where "exchange hash_order bs out True" using d(2) by (auto simp: list_all2_Cons1)
    moreover have "P @ recvd t = bs @ concat bss' @ rest" using d(1) Cons by simp
    ultimately show ?thesis using none by blast
  qed
  with d none show ?thesis by auto
qed

end
