(* ===== verification/Progress.thy ===== *)
theory Progress
  imports Dialogue
begin

text \<open>
  Progress. The other theories say what is right wherever a run stops; here the run does not stop.
  \<open>runs c t0 qs A m B\<close> is the total correctness of a piece of the coroutine of \<open>c\<close> while the clock
  stays in one window: with the answers \<open>qs\<close> next in the script it returns, has used exactly these,
  and leads from \<open>A\<close> to \<open>B\<close>. First the rules, then the operations on the current connection.
\<close>

section \<open>Answers in time\<close>

text \<open>No reading of the clock is more than \<open>CTX_SWAP_TIMEOUT\<close> later than the start of the window.\<close>

definition on_time :: "time_t \<Rightarrow> time_t \<Rightarrow> bool" where
  "on_time t0 t \<longleftrightarrow> uint t0 \<le> uint t \<and> uint t \<le> uint t0 + uint CTX_SWAP_TIMEOUT \<and> uint t < 2 ^ 63"

lemma sint_of_uint:
  fixes t :: time_t
  assumes "uint t < 2 ^ 63"
  shows "sint t = uint t"
proof -
  have "- (2 ^ 63) \<le> uint t" by (rule order_trans [of _ 0]) simp_all
  with assms show ?thesis by (simp add: sint_uint signed_take_bit_int_eq_self)
qed

lemma on_time_no_timeout:
  assumes "on_time t0 t" and "on_time t0 u"
  shows "\<not> op_timeout_at t u CTX_SWAP_TIMEOUT" and "\<not> op_timeout_at t u CLIENT_OP_TIMEOUT"
proof -
  have c: "uint CTX_SWAP_TIMEOUT = 100000000" "sint CTX_SWAP_TIMEOUT = 100000000" "sint CLIENT_OP_TIMEOUT = 5000000000"
    by (simp_all add: srv_consts)
  with assms have d: "uint t - uint u \<le> 100000000" "sint t = uint t" "sint u = uint u"
    by (simp_all add: on_time_def sint_of_uint)
  with c show "\<not> op_timeout_at t u CTX_SWAP_TIMEOUT" and "\<not> op_timeout_at t u CLIENT_OP_TIMEOUT"
    by (simp_all add: op_timeout_at_def)
qed

text \<open>
  What the environment answers next: a reading of the clock in the window, a given answer, or a
  resumption that hands back the connection's own record.
\<close>

datatype cue = Clock | Given resp | Resumed

fun fits :: "nat \<Rightarrow> time_t \<Rightarrow> cue \<Rightarrow> resp \<Rightarrow> bool" where
  "fits c t0 Clock r = (\<exists>s n. r = R_clock s n \<and> clock_ok s n \<and> on_time t0 (s * 1000000000 + n))"
| "fits c t0 (Given a) r = (r = a)"
| "fits c t0 Resumed r = (\<exists>f. r = R_resume f \<and> (\<forall>s. conns (f s) c = conns s c \<and> curr_conn (f s) = Some c))"

text \<open>Answers of each kind: a window of the clock is never empty.\<close>

fun sample_answer :: "nat \<Rightarrow> time_t \<Rightarrow> cue \<Rightarrow> resp" where
  "sample_answer c t0 Clock = R_clock (t0 div 1000000000) (t0 mod 1000000000)"
| "sample_answer c t0 (Given a) = a"
| "sample_answer c t0 Resumed = R_resume (\<lambda>s. s\<lparr>curr_conn := Some c\<rparr>)"

lemma sample_fits:
  assumes "uint t0 < 2 ^ 63"
  shows "list_all2 (fits c t0) qs (map (sample_answer c t0) qs)"
proof -
  have "t0 div 1000000000 * 1000000000 + t0 mod 1000000000 = t0" by (rule div_mult_mod_eq)
  moreover have "uint (t0 mod 1000000000) < 1000000000"
    "uint (t0 div 1000000000) * 1000000000 + uint (t0 mod 1000000000) = uint t0"
    by (simp_all add: uint_div uint_mod)
  ultimately have "fits c t0 q (sample_answer c t0 q)" for q
    using assms by (cases q) (simp_all add: clock_ok_def on_time_def srv_consts)
  then show ?thesis by (simp add: list_all2_conv_all_nth)
qed

text \<open>The state between the steps: the connection is current and open, its last turn began in the window.\<close>

definition in_turn :: "nat \<Rightarrow> time_t \<Rightarrow> srv_state \<Rightarrow> bool" where
  "in_turn c t0 s \<longleftrightarrow> own_ok c s \<and> on_time t0 (last_ctx_swap s) \<and> \<not> is_completed (conns s c)"

section \<open>Total correctness\<close>

definition runs :: "nat \<Rightarrow> time_t \<Rightarrow> cue list \<Rightarrow> (conn_t \<Rightarrow> event list \<Rightarrow> bool) \<Rightarrow>
    (resp, srv_state, event, 'a) io \<Rightarrow> ('a \<Rightarrow> conn_t \<Rightarrow> event list \<Rightarrow> bool) \<Rightarrow> bool" where
  "runs c t0 qs A m B \<longleftrightarrow>
     (\<forall>w xs rest. script w = xs @ rest \<longrightarrow> list_all2 (fits c t0) qs xs \<longrightarrow> in_turn c t0 (st w) \<longrightarrow>
        A (conns (st w) c) (trace w) \<longrightarrow>
        (\<exists>a v. m w = (Inr a, v) \<and> script v = rest \<and> in_turn c t0 (st v) \<and> B a (conns (st v) c) (trace v)))"

lemma runsI:
  assumes "\<And>w xs rest. script w = xs @ rest \<Longrightarrow> list_all2 (fits c t0) qs xs \<Longrightarrow> in_turn c t0 (st w) \<Longrightarrow>
      A (conns (st w) c) (trace w) \<Longrightarrow>
      \<exists>a v. m w = (Inr a, v) \<and> script v = rest \<and> in_turn c t0 (st v) \<and> B a (conns (st v) c) (trace v)"
  shows "runs c t0 qs A m B"
  using assms unfolding runs_def by blast

lemma runsD:
  assumes "runs c t0 qs A m B" and "script w = xs @ rest" and "list_all2 (fits c t0) qs xs"
    and "in_turn c t0 (st w)" and "A (conns (st w) c) (trace w)"
  obtains a v where "m w = (Inr a, v)" "script v = rest" "in_turn c t0 (st v)" "B a (conns (st v) c) (trace v)"
  using assms unfolding runs_def by blast

lemma in_turn_layout: "in_turn c t0 s \<Longrightarrow> layout_ok (conns s c)"
  by (simp add: in_turn_def own_ok_def)

lemma runs_conseq:
  assumes "runs c t0 qs A' m B'" and "\<And>k t. layout_ok k \<Longrightarrow> A k t \<Longrightarrow> A' k t"
    and "\<And>a k t. layout_ok k \<Longrightarrow> B' a k t \<Longrightarrow> B a k t"
  shows "runs c t0 qs A m B"
  by (rule runsI, rule runsD [OF assms(1)]) (use assms(2,3) in_turn_layout in blast)+

lemma runs_ret: "(\<And>k t. layout_ok k \<Longrightarrow> A k t \<Longrightarrow> B a k t) \<Longrightarrow> runs c t0 [] A (ret a) B"
  by (rule runsI) (auto simp: ret_def in_turn_layout)

lemma runs_bind:
  assumes m: "runs c t0 qs A m M" and f: "\<And>a. runs c t0 qs' (M a) (f a) B"
  shows "runs c t0 (qs @ qs') A (io_bind m f) B"
proof (rule runsI)
  fix w :: "(resp, srv_state, event) world" and xs rest
  assume w: "script w = xs @ rest" "list_all2 (fits c t0) (qs @ qs') xs" "in_turn c t0 (st w)"
    "A (conns (st w) c) (trace w)"
  then obtain ys zs where xs: "xs = ys @ zs" "list_all2 (fits c t0) qs ys" "list_all2 (fits c t0) qs' zs"
    by (auto simp: list_all2_append1)
  then have "script w = ys @ (zs @ rest)" using w(1) by simp
  from runsD [OF m, OF this xs(2) w(3,4)] obtain a u where u: "m w = (Inr a, u)" "script u = zs @ rest"
    "in_turn c t0 (st u)" "M a (conns (st u) c) (trace u)" by blast
  from runsD [OF f, OF u(2) xs(3) u(3,4)] u(1)
  show "\<exists>b v. io_bind m f w = (Inr b, v) \<and> script v = rest \<and> in_turn c t0 (st v) \<and>
      B b (conns (st v) c) (trace v)" by (metis io_bind_Inr)
qed

lemma runs_then: "runs c t0 qs A m (\<lambda>_. M) \<Longrightarrow> runs c t0 qs' M k B \<Longrightarrow> runs c t0 (qs @ qs') A (io_then m k) B"
  unfolding io_then_def by (rule runs_bind)

text \<open>A step that needs no answer, and a last one that needs none.\<close>

lemmas runs_step = runs_bind [where qs = "[]", simplified]
lemmas runs_skip = runs_then [where qs = "[]", simplified]
lemmas runs_bind_end = runs_bind [where qs' = "[]", simplified]
lemmas runs_then_end = runs_then [where qs' = "[]", simplified]

lemma runs_given: "runs c t0 qs A (f r) B \<Longrightarrow> runs c t0 (Given r # qs) A (io_bind (answer s) f) B"
proof (rule runsI)
  fix w :: "(resp, srv_state, event) world" and xs rest
  assume f: "runs c t0 qs A (f r) B" and w: "script w = xs @ rest" "list_all2 (fits c t0) (Given r # qs) xs"
    "in_turn c t0 (st w)" "A (conns (st w) c) (trace w)"
  then obtain ys where xs: "xs = r # ys" "list_all2 (fits c t0) qs ys" by (auto simp: list_all2_Cons1)
  let ?u = "w\<lparr>script := ys @ rest\<rparr>"
  have "io_bind (answer s) f w = f r ?u" using w(1) xs(1) by (simp add: io_exec)
  moreover from runsD [OF f, of ?u ys rest] xs(2) w(3,4) obtain b v where
    "f r ?u = (Inr b, v)" "script v = rest" "in_turn c t0 (st v)" "B b (conns (st v) c) (trace v)" by auto
  ultimately show "\<exists>b v. io_bind (answer s) f w = (Inr b, v) \<and>
      script v = rest \<and> in_turn c t0 (st v) \<and> B b (conns (st v) c) (trace v)" by simp
qed

lemma runs_clock:
  assumes "\<And>now. on_time t0 now \<Longrightarrow> runs c t0 qs A (f now) B"
  shows "runs c t0 (Clock # qs) A (io_bind curr_time f) B"
proof (rule runsI)
  fix w :: "(resp, srv_state, event) world" and xs rest
  assume w: "script w = xs @ rest" "list_all2 (fits c t0) (Clock # qs) xs" "in_turn c t0 (st w)"
    "A (conns (st w) c) (trace w)"
  then obtain s n ys where xs: "xs = R_clock s n # ys" "on_time t0 (s * 1000000000 + n)" "list_all2 (fits c t0) qs ys"
    and ok: "clock_ok s n"
    by (auto simp: list_all2_Cons1)
  let ?u = "w\<lparr>script := ys @ rest\<rparr>"
  have "io_bind curr_time f w = f (s * 1000000000 + n) ?u"
    using w(1) xs(1) ok by (simp add: curr_time_def io_exec io_bind_def [of curr_time] answer_def)
  moreover from runsD [OF assms [OF xs(2)], of ?u ys rest] xs(3) w(3,4) obtain b v where
    "f (s * 1000000000 + n) ?u = (Inr b, v)" "script v = rest" "in_turn c t0 (st v)" "B b (conns (st v) c) (trace v)"
    by auto
  ultimately show "\<exists>b v. io_bind curr_time f w = (Inr b, v) \<and> script v = rest \<and> in_turn c t0 (st v) \<and>
      B b (conns (st v) c) (trace v)" by simp
qed

text \<open>One round of a loop.\<close>

lemma loop_round:
  assumes "runs c t0 qs A (bd l) (\<lambda>r k t. r = Inl l' \<and> M k t)" and "qs \<noteq> []"
    and "script w = xs @ rest" and "list_all2 (fits c t0) qs xs" and "in_turn c t0 (st w)"
    and "A (conns (st w) c) (trace w)"
  obtains u where "io_loop bd l w = io_loop bd l' u" "script u = rest" "in_turn c t0 (st u)"
    "M (conns (st u) c) (trace u)"
proof -
  from runsD [OF assms(1), OF assms(3-6)] obtain u where u: "bd l w = (Inr (Inl l'), u)" "script u = rest"
    "in_turn c t0 (st u)" "M (conns (st u) c) (trace u)" by blast
  have "xs \<noteq> []" using assms(2,4) by auto
  then have "length (script u) < length (script w)" using u(2) assms(3) by simp
  with io_loop_continue [where body = bd, OF u(1)] u(2-4) that show ?thesis by blast
qed

lemma runs_loop_next:
  assumes m: "runs c t0 qs A (bd l) (\<lambda>r k t. r = Inl l' \<and> M k t)" and "qs \<noteq> []"
    and f: "runs c t0 qs' M (io_loop bd l') B"
  shows "runs c t0 (qs @ qs') A (io_loop bd l) B"
proof (rule runsI)
  fix w :: "(resp, srv_state, event) world" and xs rest
  assume w: "script w = xs @ rest" "list_all2 (fits c t0) (qs @ qs') xs" "in_turn c t0 (st w)"
    "A (conns (st w) c) (trace w)"
  then obtain ys zs where xs: "xs = ys @ zs" "list_all2 (fits c t0) qs ys" "list_all2 (fits c t0) qs' zs"
    by (auto simp: list_all2_append1)
  then have "script w = ys @ (zs @ rest)" using w(1) by simp
  from loop_round [where bd = bd, OF m \<open>qs \<noteq> []\<close> this xs(2) w(3,4)] obtain u where
    "io_loop bd l w = io_loop bd l' u" and u: "script u = zs @ rest" "in_turn c t0 (st u)" "M (conns (st u) c) (trace u)"
    by blast
  with runsD [OF f, OF u(1) xs(3) u(2,3)] show "\<exists>b v. io_loop bd l w = (Inr b, v) \<and> script v = rest \<and>
      in_turn c t0 (st v) \<and> B b (conns (st v) c) (trace v)" by metis
qed

lemma runs_loop_done:
  assumes "runs c t0 qs A (bd l) (\<lambda>r k t. \<exists>b. r = Inr b \<and> B b k t)"
  shows "runs c t0 qs A (io_loop bd l) B"
  by (rule runsI, rule runsD [OF assms], assumption+) (auto dest: io_loop_done)

lemma runs_pure: "(p \<Longrightarrow> runs c t0 qs A m B) \<Longrightarrow> runs c t0 qs (\<lambda>k t. A k t \<and> p) m B"
  by (rule runsI) (auto elim: runsD)

lemma runs_pure': "(p \<Longrightarrow> runs c t0 qs A m B) \<Longrightarrow> runs c t0 qs (\<lambda>k t. p \<and> A k t) m B"
  by (rule runsI) (auto elim: runsD)

text \<open>The result of a step is known.\<close>

lemma runs_value:
  assumes "runs c t0 qs A m (\<lambda>r k t. r = a \<and> M k t)" and "runs c t0 qs' M (f a) B"
  shows "runs c t0 (qs @ qs') A (io_bind m f) B"
  by (rule runs_bind [OF assms(1)], rule runs_pure') (simp add: assms(2))

lemmas runs_value_end = runs_value [where qs' = "[]", simplified]
lemmas runs_value_step = runs_value [where qs = "[]", simplified]

section \<open>The operations on the current connection\<close>

lemma runs_same:
  assumes "runs c t0 qs A m B" and "\<And>w. in_turn c t0 (st w) \<Longrightarrow> m' w = m w"
  shows "runs c t0 qs A m' B"
  using assms unfolding runs_def by simp

lemma runs_with_curr: "runs c t0 qs A (f c) B \<Longrightarrow> runs c t0 qs A (with_curr f) B"
  by (erule runs_same) (simp add: with_curr_def in_turn_def own_ok_def io_exec)

lemma runs_gets:
  assumes "\<And>s t. in_turn c t0 s \<Longrightarrow> A (conns s c) t \<Longrightarrow> B (f s) (conns s c) t"
  shows "runs c t0 [] A (gets_st f) B"
  by (rule runsI) (simp add: gets_st_def assms)

lemma runs_curr_field:
  "(\<And>k t. layout_ok k \<Longrightarrow> A k t \<Longrightarrow> B (f k) k t) \<Longrightarrow> runs c t0 [] A (curr_field f) B"
  unfolding curr_field_def by (intro runs_with_curr runs_gets) (simp add: in_turn_layout)

lemma runs_emit:
  assumes "\<And>k t. layout_ok k \<Longrightarrow> A k t \<Longrightarrow> B () k (t @ [e])"
  shows "runs c t0 [] A (emit e) B"
  by (rule runsI) (simp add: emit_def assms in_turn_layout)

lemma runs_modify:
  assumes "\<And>s. in_turn c t0 s \<Longrightarrow> in_turn c t0 (f s)"
    and "\<And>s t. in_turn c t0 s \<Longrightarrow> A (conns s c) t \<Longrightarrow> B () (conns (f s) c) t"
  shows "runs c t0 [] A (modify_st f) B"
  by (rule runsI) (simp add: modify_st_def assms)

lemma runs_set_conn:
  assumes "\<And>k t. layout_ok k \<Longrightarrow> A k t \<Longrightarrow> layout_ok (f k) \<and> is_completed (f k) = is_completed k \<and> B () (f k) t"
  shows "runs c t0 [] A (modify_st (set_conn c f)) B"
proof (rule runsI)
  fix w :: "(resp, srv_state, event) world" and xs rest
  assume w: "script w = xs @ rest" "list_all2 (fits c t0) [] xs" "in_turn c t0 (st w)" "A (conns (st w) c) (trace w)"
  with assms [OF in_turn_layout [OF w(3)] w(4)]
  show "\<exists>a v. modify_st (set_conn c f) w = (Inr a, v) \<and> script v = rest \<and> in_turn c t0 (st v) \<and>
      B a (conns (st v) c) (trace v)" by (simp add: modify_st_def in_turn_def own_ok_def)
qed

lemma runs_set_curr:
  "(\<And>k t. layout_ok k \<Longrightarrow> A k t \<Longrightarrow> layout_ok (f k) \<and> is_completed (f k) = is_completed k \<and> B () (f k) t) \<Longrightarrow>
    runs c t0 [] A (with_curr (\<lambda>c. modify_st (set_conn c f))) B"
  by (intro runs_with_curr runs_set_conn)

lemma in_turn_active [simp]:
  "in_turn c t0 (update_active c now s) = in_turn c t0 s" "in_turn c t0 (set_inactive c s) = in_turn c t0 s"
  by (auto simp: in_turn_def own_ok_def solo.update_active_own solo.set_inactive_own update_active_def set_inactive_def Let_def)

lemma runs_update_active:
  assumes "\<And>k t now. layout_ok k \<Longrightarrow> A k t \<Longrightarrow> B () (k\<lparr>last_active := now, is_active := True\<rparr>) t"
  shows "runs c t0 [Clock] A curr_conn_update_active B"
  unfolding curr_conn_update_active_def
  by (intro runs_clock runs_with_curr runs_modify) (simp_all add: assms solo.update_active_own in_turn_layout)

lemma runs_set_inactive:
  assumes "\<And>k t. layout_ok k \<Longrightarrow> A k t \<Longrightarrow> B () (k\<lparr>is_active := False\<rparr>) t"
  shows "runs c t0 [] A curr_conn_set_inactive B"
  unfolding curr_conn_set_inactive_def
  by (intro runs_with_curr runs_modify) (simp_all add: assms solo.set_inactive_own in_turn_layout)

lemma runs_start_op:
  assumes "\<And>k t now. layout_ok k \<Longrightarrow> on_time t0 now \<Longrightarrow> A k t \<Longrightarrow> B () (k\<lparr>start_op := now\<rparr>) t"
  shows "runs c t0 [Clock] A curr_conn_start_op B"
  unfolding curr_conn_start_op_def
  by (intro runs_clock runs_set_curr) (simp add: assms)

lemma runs_no_op_timeout:
  assumes "\<And>k t. A k t \<Longrightarrow> on_time t0 (start_op k)"
  shows "runs c t0 [Clock] A (curr_conn_op_timeout CLIENT_OP_TIMEOUT) (\<lambda>r k t. \<not> r \<and> A k t)"
  unfolding curr_conn_op_timeout_def
  by (rule runs_clock, rule runs_step [OF runs_curr_field [where B = "\<lambda>so k t. A k t \<and> on_time t0 so"]])
    (auto intro!: runs_ret simp: assms on_time_no_timeout)

lemma runs_no_swap: "runs c t0 [Clock] A cond_swap_to_main_ctx (\<lambda>_. A)"
proof -
  have "runs c t0 [Clock] A need_ctx_swap (\<lambda>r k t. \<not> r \<and> A k t)"
    unfolding need_ctx_swap_def
    by (rule runs_clock, rule runs_step [OF runs_gets [where B = "\<lambda>ls k t. A k t \<and> on_time t0 ls"]])
      (auto intro!: runs_ret simp: on_time_no_timeout in_turn_def)
  moreover have "runs c t0 [] (\<lambda>k t. \<not> b \<and> A k t) (io_when b swap_to_main_ctx) (\<lambda>_. A)" for b
    by (rule runs_pure') (simp add: io_when_def runs_ret)
  ultimately show ?thesis
    unfolding cond_swap_to_main_ctx_def by (rule runs_bind_end)
qed

text \<open>Switching out and back.\<close>

lemma runs_swap_to_main:
  assumes "\<And>k t. layout_ok k \<Longrightarrow> A k t \<Longrightarrow> B () k (t @ [Ev_yield c])"
  shows "runs c t0 [Resumed, Clock] A swap_to_main_ctx B"
proof (rule runsI)
  fix w :: "(resp, srv_state, event) world" and xs rest
  assume w: "script w = xs @ rest" "list_all2 (fits c t0) [Resumed, Clock] xs" "in_turn c t0 (st w)"
    "A (conns (st w) c) (trace w)"
  then obtain f s n where xs: "xs = [R_resume f, R_clock s n]" "on_time t0 (s * 1000000000 + n)" "clock_ok s n"
    and f: "conns (f (st w)) c = conns (st w) c" "curr_conn (f (st w)) = Some c"
    by (auto simp: list_all2_Cons1)
  have ok: "own_ok c (st w)" using w(3) by (simp add: in_turn_def)
  have "swap_to_main_ctx w = (Inr (), w\<lparr>script := rest, trace := trace w @ [Ev_yield c],
      st := (f (st w))\<lparr>last_ctx_swap := s * 1000000000 + n\<rparr>\<rparr>)"
    using ok w(1) xs(1,3) f
    by (simp add: swap_to_main_ctx_def with_curr_def own_ok_def curr_time_def io_exec io_bind_def io_then_def answer_def)
  with assms [OF in_turn_layout [OF w(3)] w(4)] f xs(2) ok w(3)
  show "\<exists>a v. swap_to_main_ctx w = (Inr a, v) \<and> script v = rest \<and> in_turn c t0 (st v) \<and>
      B a (conns (st v) c) (trace v)" by (simp add: in_turn_def own_ok_def)
qed

text \<open>The socket was not ready: the coroutine waits for its next turn.\<close>

definition wait_cues :: "cue list" where
  "wait_cues = [Clock, Resumed, Clock]"

lemma runs_would_block:
  assumes "\<And>k t. layout_ok k \<Longrightarrow> A k t \<Longrightarrow> B () k (t @ [Ev_yield c]) \<and> B () (k\<lparr>is_active := False\<rparr>) (t @ [Ev_yield c])"
  shows "runs c t0 wait_cues A would_block B"
proof -
  define M where "M k t \<longleftrightarrow> B () k (t @ [Ev_yield c])" for k t
  have t: "runs c t0 [Clock] A curr_conn_active_timeout (\<lambda>_. A)"
    unfolding curr_conn_active_timeout_def
    by (rule runs_clock, rule runs_step [OF runs_curr_field [where B = "\<lambda>_. A"]]) (auto intro: runs_ret)
  have "runs c t0 [] A (io_when b curr_conn_set_inactive) (\<lambda>_. M)" for b
    by (cases b) (auto simp: io_when_def M_def assms intro!: runs_set_inactive runs_ret)
  then have "runs c t0 [Resumed, Clock] A (io_then (io_when b curr_conn_set_inactive) swap_to_main_ctx) B" for b
    by (rule runs_skip) (rule runs_swap_to_main, simp add: M_def)
  from runs_bind [OF t this] show ?thesis unfolding would_block_def wait_cues_def by simp
qed

lemma runs_wait_again:
  assumes "\<And>k t. A k t \<Longrightarrow> A k (t @ [Ev_yield c]) \<and> A (k\<lparr>is_active := False\<rparr>) (t @ [Ev_yield c])"
  shows "runs c t0 wait_cues A (sock_error l EAGAIN) (\<lambda>r k t. r = Inl l \<and> A k t)"
proof -
  have "runs c t0 wait_cues A would_block (\<lambda>_. A)" by (rule runs_would_block) (simp add: assms)
  then have "runs c t0 wait_cues A (io_then would_block (ret (Inl l))) (\<lambda>r k t. r = Inl l \<and> A k t)"
    by (rule runs_then_end) (simp add: runs_ret)
  then show ?thesis by (simp add: sock_error_def)
qed

lemma runs_lift_fault: "(\<And>k t. layout_ok k \<Longrightarrow> A k t \<Longrightarrow> B a k t) \<Longrightarrow> runs c t0 [] A (lift_fault (Inr a)) B"
  by (simp add: lift_fault_def runs_ret)

text \<open>Waiting any number of times before a loop goes on.\<close>

definition again :: "resp \<Rightarrow> nat \<Rightarrow> cue list" where
  "again e j = concat (replicate j (Given e # wait_cues))"

lemma runs_loop_again:
  assumes "runs c t0 (Given e # wait_cues) A (bd l) (\<lambda>r k t. r = Inl l \<and> A k t)"
    and "runs c t0 qs A (io_loop bd l) B"
  shows "runs c t0 (again e j @ qs) A (io_loop bd l) B"
proof (induction j)
  case (Suc j)
  from runs_loop_next [OF assms(1) _ this] show ?case by (simp add: again_def)
qed (simp add: again_def assms(2))

end
