(* ===== verification/Delivery.thy ===== *)
theory Delivery
  imports Progress
begin

text \<open>
  While the calls succeed and the clock stays in its window, the code of a connection receives a
  header section in whatever pieces and after whatever waits it comes (\<open>recv_http_hdr\<close>), and
  sends a message in full however the kernel takes it (\<open>send_http_msg\<close>).
\<close>

section \<open>Receiving a header section\<close>

lemma co_view_own [simp]:
  "co_view m h u R S (k\<lparr>is_active := b\<rparr>) t = co_view m h u R S k t"
  "co_view m h u R S (k\<lparr>last_active := a\<rparr>) t = co_view m h u R S k t"
  "co_view m h u R S (k\<lparr>start_op := a\<rparr>) t = co_view m h u R S k t"
  "co_view m h u R S k (t @ [Ev_yield n]) = co_view m h u R S k t"
  by (simp_all add: co_view_def)

lemma runs_sys_read:
  assumes "0 \<le> n" and "int (length d) \<le> to_recv" and "to_recv < 2 ^ 64" and "n + int (length d) \<le> RECV_BUF_SIZE"
  shows "runs c t0 [Given (R_read_data d)] (co_view m h u R S) (sys_read sock n to_recv)
    (\<lambda>r k t. r = Inr (int (length d)) \<and> co_view (mem_store (nat n) d m) h u (R @ d) S k t)"
proof -
  have d: "take (size_t_of to_recv) d = d" using assms(2,3) by (simp add: size_t_of_def)
  have st: "runs c t0 [] (co_view m h u (R @ d) S)
    (io_then (with_curr (\<lambda>c. modify_st (set_conn c (\<lambda>k. k\<lparr>recv_mem := mem_store (nat n) d (recv_mem k)\<rparr>))))
      (ret (Inr (int (length d)))))
    (\<lambda>r k t. r = Inr (int (length d)) \<and> co_view (mem_store (nat n) d m) h u (R @ d) S k t)"
    by (rule runs_skip [OF runs_set_curr [where B = "\<lambda>_. co_view (mem_store (nat n) d m) h u (R @ d) S"]])
      (auto simp: co_view_def intro: runs_ret)
  show ?thesis
    unfolding sys_read_def
    apply (rule runs_given)
    apply (simp add: d del: append_assoc)
    apply (rule runs_step [OF runs_curr_field [where B = "\<lambda>z k t. co_view m h u R S k t \<and> z = RECV_BUF_SIZE"]])
     apply (simp add: layout_ok_def)
    apply (rule runs_pure)
    using assms(1,4) apply simp
    apply (rule runs_skip [OF runs_emit [where B = "\<lambda>_. co_view m h u (R @ d) S"] st])
    apply (simp add: co_view_def)
    done
qed

lemma runs_recv_chunk:
  assumes "0 \<le> n" and "d \<noteq> []" and "int (length d) \<le> to_recv" and "to_recv < 2 ^ 64"
    and "n + int (length d) \<le> RECV_BUF_SIZE"
    and e: "\<And>k. layout_ok k \<Longrightarrow> recv_mem k = mem_store (nat n) d m \<Longrightarrow>
      is_http_message_end (mem_byte k) n (n + int (length d)) = Inr e"
  shows "runs c t0 [Given (R_read_data d), Clock] (co_view m h u R S)
    (recv_body n0 TIMEOUT_INF True (to_recv, n, False, False))
    (\<lambda>r k t. r = Inl (to_recv - int (length d), n + int (length d), e, False) \<and>
      co_view (mem_store (nat n) d m) h u (R @ d) S k t)"
proof -
  let ?V = "co_view (mem_store (nat n) d m) h u (R @ d) S" and ?n = "int (length d)"
  have nz: "to_recv \<noteq> 0" "0 < ?n" using assms(2,3) by auto
  have ce: "runs c t0 [] ?V (check_end True False n (n + ?n)) (\<lambda>r k t. ?V k t \<and> r = e)"
    unfolding check_end_def if_True
  proof (rule runs_step [OF runs_curr_field [where B = "\<lambda>buf k t. ?V k t \<and>
      is_http_message_end buf n (n + ?n) = Inr e"]])
    fix k t assume "layout_ok k" "?V k t"
    with e [of k] show "?V k t \<and> is_http_message_end (mem_byte k) n (n + ?n) = Inr e" by (simp add: co_view_def)
  next
    show "runs c t0 [] (\<lambda>k t. ?V k t \<and> is_http_message_end buf n (n + ?n) = Inr e)
      (lift_fault (is_http_message_end buf n (n + ?n))) (\<lambda>r k t. ?V k t \<and> r = e)" for buf
      by (rule runs_pure) (simp add: runs_lift_fault)
  qed
  have fin: "runs c t0 [] (\<lambda>k t. ?V k t \<and> r = e)
    (io_bind (check_timeout TIMEOUT_INF False) (\<lambda>recv_timeout'.
          ret (Inl (to_recv - ?n, n + ?n, r, recv_timeout'))))
    (\<lambda>r k t. r = Inl (to_recv - ?n, n + ?n, e, False) \<and> ?V k t)" for r
    by (rule runs_step [where M = "\<lambda>b k t. ?V k t \<and> r = e \<and> \<not> b"])
      (auto simp: check_timeout_def intro!: runs_ret)
  have got: "runs c t0 [Clock] ?V (recv_got TIMEOUT_INF True (to_recv, n, False, False) ?n)
    (\<lambda>r k t. r = Inl (to_recv - ?n, n + ?n, e, False) \<and> ?V k t)"
    using nz(2) unfolding recv_got_def prod.case
    by (simp only: if_True) (rule runs_then_end [OF runs_update_active [where B = "\<lambda>_. ?V"] runs_step [OF ce fin]], simp)
  have rd: "runs c t0 [Given (R_read_data d), Clock] (co_view m h u R S)
    (io_bind (sys_read sock n to_recv) (\<lambda>r. case r of
       Inl errno \<Rightarrow> sock_error (to_recv, n, False, False) errno
     | Inr cnt \<Rightarrow> recv_got TIMEOUT_INF True (to_recv, n, False, False) cnt))
    (\<lambda>r k t. r = Inl (to_recv - ?n, n + ?n, e, False) \<and> ?V k t)" for sock
    by (rule runs_value [OF runs_sys_read [OF assms(1,3,4,5)], where qs' = "[Clock]", simplified]) (simp add: got)
  have "runs c t0 [] (co_view m h u R S) curr_conn_sock (\<lambda>_. co_view m h u R S)"
    unfolding curr_conn_sock_def by (rule runs_curr_field)
  from runs_step [OF this rd] show ?thesis using nz by (simp add: recv_body_def)
qed

text \<open>The buffer starts with the bytes \<open>p\<close>.\<close>

definition got_view :: "bytes \<Rightarrow> int \<Rightarrow> int \<Rightarrow> bytes \<Rightarrow> bytes \<Rightarrow> conn_t \<Rightarrow> event list \<Rightarrow> bool" where
  "got_view p h u R S k t \<longleftrightarrow> mem_view (recv_mem k) 0 (length p) = p \<and>
     recv_buf_have k = h \<and> recv_buf_curr k = u \<and> recvd t = R \<and> sent t = S"

lemma got_view_own [simp]:
  "got_view p h u R S (k\<lparr>is_active := b\<rparr>) t = got_view p h u R S k t"
  "got_view p h u R S (k\<lparr>last_active := a\<rparr>) t = got_view p h u R S k t"
  "got_view p h u R S (k\<lparr>start_op := a\<rparr>) t = got_view p h u R S k t"
  "got_view p h u R S k (t @ [Ev_yield n]) = got_view p h u R S k t"
  by (simp_all add: got_view_def)

lemma got_view_co: "got_view p h u R S k t \<longleftrightarrow> (\<exists>m. co_view m h u R S k t \<and> mem_view m 0 (length p) = p)"
  by (auto simp: got_view_def co_view_def)

lemma runs_ex: "(\<And>x. runs c t0 qs (A x) m B) \<Longrightarrow> runs c t0 qs (\<lambda>k t. \<exists>x. A x k t) m B"
  unfolding runs_def by blast

lemma mem_view_store_end: "mem_view m 0 (length p) = p \<Longrightarrow> mem_view (mem_store (length p) d m) 0 (length (p @ d)) = p @ d"
  by (simp add: mem_view_append mem_view_store_before mem_view_store)

lemma term_seq_found: "(\<exists>i. occurs_at term_seq s i) \<longleftrightarrow> find_http_headers_end s \<noteq> 0"
proof -
  have h: "term_seq = HEADERS_END" by (simp add: term_seq_def HEADERS_END_def)
  show ?thesis
  proof (cases "find_sub HEADERS_END s")
    case None
    then show ?thesis using find_sub_None [of HEADERS_END s] by (simp add: h find_http_headers_end_def)
  next
    case (Some i)
    then show ?thesis using find_sub_Some_occurs [OF Some] by (auto simp: h find_http_headers_end_def HEADERS_END_def)
  qed
qed

lemma headers_end_prefix: "find_http_headers_end (s @ t) = 0 \<Longrightarrow> find_http_headers_end s = 0"
  using headers_end_append [of s t] by (cases "find_http_headers_end s = 0") auto

lemma runs_recv_got:
  assumes "3 \<le> length d" and "int (length d) \<le> to_recv" and "to_recv \<le> RECV_BUF_SIZE"
    and "int (length (p @ d)) \<le> RECV_BUF_SIZE" and none: "find_http_headers_end p = 0"
  shows "runs c t0 [Given (R_read_data d), Clock] (got_view p h u R S)
    (recv_body n0 TIMEOUT_INF True (to_recv, int (length p), False, False))
    (\<lambda>r k t. r = Inl (to_recv - int (length d), int (length (p @ d)), find_http_headers_end (p @ d) \<noteq> 0, False) \<and>
      got_view (p @ d) h u (R @ d) S k t)"
proof (rule runs_conseq [where A' = "\<lambda>k t. \<exists>m. co_view m h u R S k t \<and> mem_view m 0 (length p) = p"],
    rule runs_ex, rule runs_pure)
  fix m assume m: "mem_view m 0 (length p) = p"
  let ?m = "mem_store (length p) d m"
  have e: "is_http_message_end (mem_byte k) (int (length p)) (int (length p) + int (length d)) =
      Inr (find_http_headers_end (p @ d) \<noteq> 0)" if k: "layout_ok k" "recv_mem k = ?m" for k
  proof -
    have r: "received k (int (length p) + int (length d)) = p @ d"
      using mem_view_store_end [OF m, of d] k(2) by (simp add: received_def nat_add_distrib)
    have "\<not> occurs_at term_seq (p @ d) i" if "int i + 3 < int (length p)" for i
    proof
      assume "occurs_at term_seq (p @ d) i"
      then have "occurs_at term_seq p i" using that by (simp add: occurs_at_def)
      with none term_seq_found [of p] show False by blast
    qed
    then show ?thesis
      using message_end_exact [of "int (length p)" "int (length p) + int (length d)" k] assms(1,4) k(1) r term_seq_found [of "p @ d"]
      by (simp add: layout_ok_def)
  qed
  show "runs c t0 [Given (R_read_data d), Clock] (co_view m h u R S)
    (recv_body n0 TIMEOUT_INF True (to_recv, int (length p), False, False))
    (\<lambda>r k t. r = Inl (to_recv - int (length d), int (length (p @ d)), find_http_headers_end (p @ d) \<noteq> 0, False) \<and>
      got_view (p @ d) h u (R @ d) S k t)"
    by (rule runs_conseq [OF runs_recv_chunk [where e = "find_http_headers_end (p @ d) \<noteq> 0" and m = m]])
      (use assms e mem_view_store_end [OF m, of d] in \<open>auto simp: got_view_def co_view_def srv_consts\<close>)
qed (auto simp: got_view_co)

text \<open>
  The pieces a header section comes in, each after a number of waits. Each has at least three
  bytes: with fewer, the test for the end also reads bytes an earlier request left in the buffer.
\<close>

type_synonym pieces = "(nat \<times> bytes) list"

definition bytes_of :: "pieces \<Rightarrow> bytes" where
  "bytes_of ds = concat (map snd ds)"

definition piece_cues :: "pieces \<Rightarrow> cue list" where
  "piece_cues ds = concat (map (\<lambda>(j, d). again (R_read_err EAGAIN) j @ [Given (R_read_data d), Clock]) ds)"

lemma pieces_simps [simp]:
  "bytes_of [] = []" "bytes_of ((j, d) # ds) = d @ bytes_of ds" "piece_cues [] = []"
  "piece_cues ((j, d) # ds) = again (R_read_err EAGAIN) j @ [Given (R_read_data d), Clock] @ piece_cues ds"
  by (simp_all add: bytes_of_def piece_cues_def)

lemma runs_recv_wait:
  assumes "to_recv \<noteq> 0"
  shows "runs c t0 (Given (R_read_err EAGAIN) # wait_cues) (got_view p h u R S)
    (recv_body n0 timeout terminator (to_recv, n, False, False))
    (\<lambda>r k t. r = Inl (to_recv, n, False, False) \<and> got_view p h u R S k t)"
proof -
  have "runs c t0 (Given (R_read_err EAGAIN) # wait_cues) (got_view p h u R S)
    (io_bind (sys_read sock n to_recv) (\<lambda>r. case r of
       Inl errno \<Rightarrow> sock_error (to_recv, n, False, False) errno
     | Inr cnt \<Rightarrow> recv_got timeout terminator (to_recv, n, False, False) cnt))
    (\<lambda>r k t. r = Inl (to_recv, n, False, False) \<and> got_view p h u R S k t)" for sock
  proof (rule runs_value [where qs = "[Given (R_read_err EAGAIN)]" and a = "Inl EAGAIN" and M = "got_view p h u R S", simplified])
    show "runs c t0 [Given (R_read_err EAGAIN)] (got_view p h u R S) (sys_read sock n to_recv)
      (\<lambda>r k t. r = Inl EAGAIN \<and> got_view p h u R S k t)"
      unfolding sys_read_def by (rule runs_given) (simp add: runs_ret)
  qed (simp add: runs_wait_again)
  then have "runs c t0 (Given (R_read_err EAGAIN) # wait_cues) (got_view p h u R S)
    (io_bind curr_conn_sock (\<lambda>sock. io_bind (sys_read sock n to_recv) (\<lambda>r. case r of
       Inl errno \<Rightarrow> sock_error (to_recv, n, False, False) errno
     | Inr cnt \<Rightarrow> recv_got timeout terminator (to_recv, n, False, False) cnt)))
    (\<lambda>r k t. r = Inl (to_recv, n, False, False) \<and> got_view p h u R S k t)"
    by (rule runs_step [rotated]) (simp add: curr_conn_sock_def runs_curr_field)
  with assms show ?thesis by (simp add: recv_body_def)
qed

lemma runs_recv_loop:
  assumes "ds \<noteq> []" and "\<forall>(j, d) \<in> set ds. 3 \<le> length d" and "int (length (bytes_of ds)) \<le> to_recv"
    and "to_recv \<le> RECV_BUF_SIZE" and "int (length (p @ bytes_of ds)) \<le> RECV_BUF_SIZE"
    and "find_http_headers_end (p @ bytes_of (butlast ds)) = 0" and "find_http_headers_end (p @ bytes_of ds) \<noteq> 0"
  shows "runs c t0 (piece_cues ds) (got_view p h u R S)
    (io_loop (recv_body n0 TIMEOUT_INF True) (to_recv, int (length p), False, False))
    (\<lambda>r k t. r = int (length (p @ bytes_of ds)) - n0 \<and> got_view (p @ bytes_of ds) h u (R @ bytes_of ds) S k t)"
  using assms
proof (induction ds arbitrary: p R to_recv)
  case (Cons jd ds)
  obtain j d where jd: "jd = (j, d)" by (cases jd)
  let ?n = "int (length d)" and ?l = "(to_recv, int (length p), False, False)"
  let ?e = "find_http_headers_end (p @ d) \<noteq> 0"
  let ?B = "\<lambda>r k t. r = int (length (p @ bytes_of (jd # ds))) - n0 \<and>
    got_view (p @ bytes_of (jd # ds)) h u (R @ bytes_of (jd # ds)) S k t"
  have d: "3 \<le> length d" "?n \<le> to_recv" "int (length (p @ d)) \<le> RECV_BUF_SIZE" using Cons(3,4,6) jd by auto
  have none: "find_http_headers_end p = 0" using Cons(7) by (rule headers_end_prefix)
  have got: "runs c t0 [Given (R_read_data d), Clock] (got_view p h u R S) (recv_body n0 TIMEOUT_INF True ?l)
    (\<lambda>r k t. r = Inl (to_recv - ?n, int (length (p @ d)), ?e, False) \<and> got_view (p @ d) h u (R @ d) S k t)"
    by (rule runs_recv_got [OF d(1,2) Cons(5) d(3) none])
  have rest: "runs c t0 (piece_cues ds) (got_view (p @ d) h u (R @ d) S)
    (io_loop (recv_body n0 TIMEOUT_INF True) (to_recv - ?n, int (length (p @ d)), ?e, False)) ?B"
  proof (cases "ds = []")
    case True
    then have ?e using Cons(8) jd by simp
    with True show ?thesis
      by (auto simp: jd recv_body_def intro!: runs_loop_done runs_ret)
  next
    case False
    then have b: "find_http_headers_end ((p @ d) @ bytes_of (butlast ds)) = 0" using Cons(7) jd by simp
    from headers_end_prefix [OF b] have "\<not> ?e" by simp
    with Cons(1) [OF False, of "to_recv - ?n" "p @ d" "R @ d"] Cons(3-8) b jd show ?thesis by simp
  qed
  from runs_loop_next [OF got _ rest]
  have "runs c t0 ([Given (R_read_data d), Clock] @ piece_cues ds) (got_view p h u R S)
    (io_loop (recv_body n0 TIMEOUT_INF True) ?l) ?B" by simp
  from runs_loop_again [OF runs_recv_wait this] d(1,2) show ?case by (auto simp: jd)
qed simp

lemma runs_recv_header:
  assumes "ds \<noteq> []" and "\<forall>(j, d) \<in> set ds. 3 \<le> length d" and "int (length (p @ bytes_of ds)) \<le> RECV_BUF_SIZE"
    and "find_http_headers_end (p @ bytes_of (butlast ds)) = 0" and "find_http_headers_end (p @ bytes_of ds) \<noteq> 0"
  shows "runs c t0 ([Clock, Clock] @ piece_cues ds) (got_view p h u R S)
    (recv_from_curr_conn (RECV_BUF_SIZE - int (length p)) (int (length p)) TIMEOUT_INF True)
    (\<lambda>r k t. r = int (length (bytes_of ds)) \<and> got_view (p @ bytes_of ds) h u (R @ bytes_of ds) S k t)"
proof -
  let ?A = "got_view p h u R S"
  have "runs c t0 (piece_cues ds) ?A (io_loop (recv_body (int (length p)) TIMEOUT_INF True)
      (RECV_BUF_SIZE - int (length p), int (length p), False, False))
    (\<lambda>r k t. r = int (length (bytes_of ds)) \<and> got_view (p @ bytes_of ds) h u (R @ bytes_of ds) S k t)"
    by (rule runs_conseq [OF runs_recv_loop]) (use assms in auto)
  then have "runs c t0 ([Clock] @ [Clock] @ piece_cues ds) ?A
    (recv_from_curr_conn (RECV_BUF_SIZE - int (length p)) (int (length p)) TIMEOUT_INF True)
    (\<lambda>r k t. r = int (length (bytes_of ds)) \<and> got_view (p @ bytes_of ds) h u (R @ bytes_of ds) S k t)"
    unfolding recv_from_curr_conn_def
    by (intro runs_then [OF runs_update_active [where B = "\<lambda>_. ?A"]] runs_then [OF runs_start_op [where B = "\<lambda>_. ?A"]]) auto
  then show ?thesis by simp
qed

text \<open>
  \<open>header_arrives P ds hdr P'\<close>: the bytes left in the buffer and the pieces that come make up the
  header section \<open>hdr\<close>, which ends in the last of them, and the bytes \<open>P'\<close> of what follows it.
\<close>

definition header_arrives :: "bytes \<Rightarrow> pieces \<Rightarrow> bytes \<Rightarrow> bytes \<Rightarrow> bool" where
  "header_arrives P ds hdr P' \<longleftrightarrow>
     P @ bytes_of ds = hdr @ P' \<and> hdr \<noteq> [] \<and> find_http_headers_end hdr = length hdr \<and>
     (ds \<noteq> [] \<longrightarrow> find_http_headers_end (P @ bytes_of (butlast ds)) = 0) \<and>
     (\<forall>(j, d) \<in> set ds. 3 \<le> length d) \<and> int (length (P @ bytes_of ds)) \<le> RECV_BUF_SIZE"

definition hdr_cues :: "pieces \<Rightarrow> cue list" where
  "hdr_cues ds = (if ds = [] then [] else [Clock, Clock] @ piece_cues ds)"

lemma runs_curr_view:
  assumes "0 \<le> off" and "0 \<le> n" and "off + n \<le> RECV_BUF_SIZE"
  shows "runs c t0 [] (co_view m h u R S) (curr_view off n)
    (\<lambda>v k t. v = mem_view m (nat off) (nat n) \<and> co_view m h u R S k t)"
  unfolding curr_view_def
  by (rule runs_value_step [OF runs_curr_field [where B = "\<lambda>r k t. r = Inr (mem_view m (nat off) (nat n)) \<and> co_view m h u R S k t"]])
    (use assms in \<open>auto simp: buf_view_def co_view_def layout_ok_def intro: runs_lift_fault\<close>)

lemma runs_hdr_finish:
  assumes pos: "0 \<le> u'" "u' \<le> h'" "h' \<le> RECV_BUF_SIZE" and P: "mem_view m (nat u') (nat (h' - u')) = hdr @ P'"
    and hdr: "find_http_headers_end hdr = length hdr" "hdr \<noteq> []" and s: "s = 0 \<or> s = length hdr"
  shows "runs c t0 [] (co_view m h u R S) (hdr_finish u' h' s) (\<lambda>r k t. r = hdr \<and> stream P' R S k t)"
proof -
  let ?A = "co_view m h u R S" and ?n = "length hdr"
  have "length (hdr @ P') = nat (h' - u')" using P length_mem_view by metis
  with pos have len: "u' + int ?n \<le> h'" by simp
  have find: "find_http_headers_end (hdr @ P') = ?n" using headers_end_append [of hdr P'] hdr by simp
  have size: "runs c t0 [] ?A (if s = 0 then io_bind (curr_view u' (h' - u')) (\<lambda>v. ret (find_http_headers_end v))
      else ret s) (\<lambda>r k t. r = ?n \<and> ?A k t)"
  proof (cases "s = 0")
    case True
    have "runs c t0 [] ?A (io_bind (curr_view u' (h' - u')) (\<lambda>v. ret (find_http_headers_end v)))
      (\<lambda>r k t. r = ?n \<and> ?A k t)"
      by (rule runs_value_step [OF runs_curr_view]) (use pos P find in \<open>auto intro: runs_ret\<close>)
    with True show ?thesis by simp
  next
    case False
    with s show ?thesis by (auto intro: runs_ret)
  qed
  have view: "mem_view m (nat u') ?n = hdr"
    using mem_view_take [of ?n "nat (h' - u')" m "nat u'"] len pos P by simp
  have rest: "mem_view m (nat (u' + int ?n)) (nat (h' - (u' + int ?n))) = P'"
    using mem_view_drop [of m "nat u'" ?n "nat (h' - u')"] len pos P
    by (simp add: nat_add_distrib nat_diff_distrib')
  have put: "runs c t0 [] ?A (set_recv_pos h' (u' + int ?n)) (\<lambda>_. co_view m h' (u' + int ?n) R S)"
    unfolding set_recv_pos_def by (rule runs_set_curr) (use pos len in \<open>auto simp: co_view_def layout_ok_def\<close>)
  have get: "runs c t0 [] (co_view m h' (u' + int ?n) R S) (curr_view u' (int ?n)) (\<lambda>r k t. r = hdr \<and> stream P' R S k t)"
    by (rule runs_conseq [OF runs_curr_view]) (use pos len view rest in \<open>auto simp: co_view_def stream_def\<close>)
  show ?thesis
    unfolding hdr_finish_def
    by (rule runs_value_step [OF size]) (use runs_skip [OF put get] hdr(2) in simp)
qed

lemma runs_hdr_finish_got:
  assumes "int (length q) \<le> RECV_BUF_SIZE" and "q = hdr @ P'" and "find_http_headers_end hdr = length hdr" and "hdr \<noteq> []"
  shows "runs c t0 [] (got_view q h u R S) (hdr_finish 0 (int (length q)) 0) (\<lambda>r k t. r = hdr \<and> stream P' R S k t)"
  by (rule runs_conseq [where A' = "\<lambda>k t. \<exists>m. co_view m h u R S k t \<and> mem_view m 0 (length q) = q"],
      rule runs_ex, rule runs_pure, rule runs_hdr_finish)
    (use assms(1,3,4) in \<open>simp_all add: got_view_co flip: assms(2)\<close>)

lemma runs_positions:
  assumes "\<And>m h u. 0 \<le> u \<Longrightarrow> u \<le> h \<Longrightarrow> h \<le> RECV_BUF_SIZE \<Longrightarrow> mem_view m (nat u) (nat (h - u)) = P \<Longrightarrow>
      runs c t0 qs (co_view m h u R S) (f RECV_BUF_SIZE h u) B"
  shows "runs c t0 qs (stream P R S) (io_bind (curr_field recv_buf_size) (\<lambda>size.
     io_bind (curr_field recv_buf_have) (\<lambda>h. io_bind (curr_field recv_buf_curr) (\<lambda>u. f size h u)))) B"
proof -
  let ?A = "\<lambda>m h u. co_view m h u R S"
  have "runs c t0 qs (?A m h u) (io_bind (curr_field recv_buf_size) (\<lambda>size.
     io_bind (curr_field recv_buf_have) (\<lambda>h. io_bind (curr_field recv_buf_curr) (\<lambda>u. f size h u)))) B"
    if "0 \<le> u \<and> u \<le> h \<and> h \<le> RECV_BUF_SIZE \<and> mem_view m (nat u) (nat (h - u)) = P" for m h u
    by (intro runs_value_step [OF runs_curr_field [where B = "\<lambda>r k t. r = RECV_BUF_SIZE \<and> ?A m h u k t"]]
        runs_value_step [OF runs_curr_field [where B = "\<lambda>r k t. r = h \<and> ?A m h u k t"]]
        runs_value_step [OF runs_curr_field [where B = "\<lambda>r k t. r = u \<and> ?A m h u k t"]] assms)
      (use that in \<open>auto simp: co_view_def layout_ok_def\<close>)
  then have "runs c t0 qs (\<lambda>k t. \<exists>m h u. ?A m h u k t \<and>
      (0 \<le> u \<and> u \<le> h \<and> h \<le> RECV_BUF_SIZE \<and> mem_view m (nat u) (nat (h - u)) = P))
    (io_bind (curr_field recv_buf_size) (\<lambda>size.
     io_bind (curr_field recv_buf_have) (\<lambda>h. io_bind (curr_field recv_buf_curr) (\<lambda>u. f size h u)))) B"
    by (intro runs_ex runs_pure)
  then show ?thesis by (rule runs_conseq) (auto simp: stream_def co_view_def layout_ok_def)
qed

lemma runs_buf_move:
  assumes "0 \<le> u" and "u \<le> h" and "h \<le> RECV_BUF_SIZE" and P: "mem_view m (nat u) (nat (h - u)) = P"
  shows "runs c t0 [] (co_view m h u R S) (buf_move u (h - u)) (\<lambda>_. got_view P h u R S)"
proof -
  have "mem_view (mem_store 0 (mem_view m (nat u) (nat (h - u))) m) 0 (nat (h - u)) = mem_view m (nat u) (nat (h - u))"
    using mem_view_store [of 0 "mem_view m (nat u) (nat (h - u))" m] by simp
  then show ?thesis
    unfolding buf_move_def using assms
    by (intro runs_value_step [OF runs_curr_view] runs_set_curr) (auto simp: got_view_def co_view_def)
qed

lemma runs_recv_http_hdr:
  assumes "header_arrives P ds hdr P'"
  shows "runs c t0 (hdr_cues ds) (stream P R S) recv_http_hdr (\<lambda>r k t. r = hdr \<and> stream P' (R @ bytes_of ds) S k t)"
  unfolding recv_http_hdr_def
proof (rule runs_positions)
  fix m h u assume pos: "0 \<le> u" "u \<le> h" "h \<le> RECV_BUF_SIZE" and P: "mem_view m (nat u) (nat (h - u)) = P"
  let ?q = "P @ bytes_of ds" and ?B = "\<lambda>r k t. r = hdr \<and> stream P' (R @ bytes_of ds) S k t"
  let ?read = "\<lambda>n_have. io_bind (recv_from_curr_conn (RECV_BUF_SIZE - n_have) n_have TIMEOUT_INF True) (\<lambda>count.
    if count \<le> 0 then ret [] else hdr_finish 0 (n_have + count) 0)"
  from assms have q: "?q = hdr @ P'" "hdr \<noteq> []" "find_http_headers_end hdr = length hdr"
    "ds \<noteq> [] \<Longrightarrow> find_http_headers_end (P @ bytes_of (butlast ds)) = 0"
    "\<forall>(j, d) \<in> set ds. 3 \<le> length d" "int (length ?q) \<le> RECV_BUF_SIZE" unfolding header_arrives_def by blast+
  have found: "find_http_headers_end ?q = length hdr" using headers_end_append [of hdr P'] q(1-3) by simp
  have len: "int (length P) = h - u" using P pos length_mem_view [of m "nat u" "nat (h - u)"] by simp
  have view: "runs c t0 [] (co_view m h u R S) (curr_view u (h - u)) (\<lambda>v k t. v = P \<and> co_view m h u R S k t)"
    using runs_curr_view [of u "h - u" c t0 m h u R S] pos P by simp
  have read: "runs c t0 (hdr_cues ds) (got_view P h u R S) (?read (int (length P))) ?B" if ds: "ds \<noteq> []"
  proof -
    have "0 < length (bytes_of ds)" using ds q(5) by (cases ds) auto
    with runs_hdr_finish_got [OF q(6,1,3,2), of c t0 h u "R @ bytes_of ds" S]
    have fin: "runs c t0 [] (got_view ?q h u (R @ bytes_of ds) S)
      (if int (length (bytes_of ds)) \<le> 0 then ret [] else hdr_finish 0 (int (length P) + int (length (bytes_of ds))) 0) ?B"
      by simp
    have "find_http_headers_end ?q \<noteq> 0" using found q(2) by simp
    have "runs c t0 ([Clock, Clock] @ piece_cues ds) (got_view P h u R S) (?read (int (length P))) ?B"
      by (rule runs_value_end [OF runs_recv_header [OF ds q(5,6) q(4) [OF ds] \<open>find_http_headers_end ?q \<noteq> 0\<close>]]) (rule fin)
    with ds show ?thesis by (simp add: hdr_cues_def)
  qed
  show "runs c t0 (hdr_cues ds) (co_view m h u R S) (if u \<noteq> h
       then io_bind (curr_view u (h - u)) (\<lambda>v.
         if find_http_headers_end v = 0
         then io_then (buf_move u (h - u)) (io_bind (recv_from_curr_conn (RECV_BUF_SIZE - (h - u)) (h - u)
                TIMEOUT_INF True) (\<lambda>count.
              if count \<le> 0 then ret [] else hdr_finish 0 (h - u + count) 0))
         else hdr_finish u h (find_http_headers_end v))
       else io_bind (recv_from_curr_conn RECV_BUF_SIZE 0 TIMEOUT_INF True) (\<lambda>count.
         if count \<le> 0 then ret [] else hdr_finish 0 count 0)) ?B"
  proof (cases "ds = []")
    case True
    with q(1) have "P = hdr @ P'" by simp
    moreover have "u \<noteq> h" using calculation q(2) len by (cases hdr) auto
    moreover have "runs c t0 [] (co_view m h u R S) (hdr_finish u h (length hdr)) ?B"
      using runs_hdr_finish [OF pos _ q(3,2), of m P' "length hdr"] P calculation(1) True by simp
    ultimately show ?thesis
      using True found q(2) by (simp add: hdr_cues_def runs_value_step [OF view])
  next
    case ds: False
    have none: "find_http_headers_end P = 0" using headers_end_prefix [OF q(4) [OF ds]] .
    show ?thesis
    proof (cases "u = h")
      case True
      then have "P = []" using len by simp
      have "runs c t0 (hdr_cues ds) (co_view m h u R S) (?read (int (length P))) ?B"
        by (rule runs_conseq [OF read [OF ds]]) (simp_all add: \<open>P = []\<close> got_view_def co_view_def mem_view_def)
      with True \<open>P = []\<close> show ?thesis by (simp cong: if_cong)
    next
      case False
      from runs_skip [OF runs_buf_move [OF pos P] read [OF ds]] none False show ?thesis
        by (simp only: len if_True simp_thms) (rule runs_value_step [OF view], simp cong: if_cong)
    qed
  qed
qed

section \<open>Sending a message\<close>

lemma stream_own [simp]:
  "stream P R S (k\<lparr>is_active := b\<rparr>) t = stream P R S k t"
  "stream P R S (k\<lparr>last_active := a\<rparr>) t = stream P R S k t"
  "stream P R S (k\<lparr>start_op := a\<rparr>) t = stream P R S k t"
  by (simp_all add: stream_def)

text \<open>The operation started in the window.\<close>

definition in_op :: "time_t \<Rightarrow> bytes \<Rightarrow> bytes \<Rightarrow> bytes \<Rightarrow> conn_t \<Rightarrow> event list \<Rightarrow> bool" where
  "in_op t0 P R S k t \<longleftrightarrow> stream P R S k t \<and> on_time t0 (start_op k)"

lemma runs_sys_write:
  assumes "m \<le> n" and "off + n \<le> length buf"
  shows "runs c t0 [Given (R_write_cnt m)] (in_op t0 P R S) (sys_write sock buf (int off) (int n))
    (\<lambda>r k t. r = Inr (int m) \<and> in_op t0 P R (S @ take m (drop off buf)) k t)"
  unfolding sys_write_def
proof (rule runs_given)
  let ?B = "\<lambda>r k t. r = Inr (int m) \<and> in_op t0 P R (S @ take m (drop off buf)) k t"
  have "runs c t0 [] (in_op t0 P R S) (emit (Ev_send sock (take m (drop off buf))))
    (\<lambda>_. in_op t0 P R (S @ take m (drop off buf)))" by (rule runs_emit) (simp add: in_op_def stream_def)
  from runs_skip [OF this runs_ret [where B = ?B and a = "Inr (int m)"]]
  show "runs c t0 [] (in_op t0 P R S) (case R_write_cnt m of
       R_write_err e \<Rightarrow> if e = EPIPE then stop_with (Fault Sigpipe) else ret (Inl e)
     | R_write_cnt k \<Rightarrow>
         if int off < 0 \<or> int n < 0 \<or> int off + int n > int (length buf) then stop_with (Fault (Out_of_bounds (int off)))
         else (let d = take (min k (nat (int n))) (drop (nat (int off)) buf) in
           io_then (emit (Ev_send sock d)) (ret (Inr (int (length d)))))
     | _ \<Rightarrow> stop_with Mismatch) ?B"
    using assms by (simp add: Let_def min_absorb1)
qed

text \<open>The parts a packet is taken in, each after a number of waits.\<close>

type_synonym parts = "(nat \<times> nat) list"

definition part_cues :: "parts \<Rightarrow> cue list" where
  "part_cues ps = concat (map (\<lambda>(j, m). again (R_write_err EAGAIN) j @ [Given (R_write_cnt m), Clock, Clock]) ps)"

definition packet_cues :: "parts \<Rightarrow> cue list" where
  "packet_cues ps = [Clock, Clock] @ part_cues ps"

definition size_of :: "parts \<Rightarrow> nat" where
  "size_of ps = sum_list (map snd ps)"

lemma parts_simps [simp]:
  "part_cues [] = []" "size_of [] = 0" "size_of ((j, m) # ps) = m + size_of ps"
  "part_cues ((j, m) # ps) = again (R_write_err EAGAIN) j @ [Given (R_write_cnt m), Clock, Clock] @ part_cues ps"
  by (simp_all add: part_cues_def size_of_def)

lemma runs_sock_bind: "(\<And>sock. runs c t0 qs A (f sock) B) \<Longrightarrow> runs c t0 qs A (io_bind curr_conn_sock f) B"
  by (rule runs_step [where M = "\<lambda>_. A"]) (auto simp: curr_conn_sock_def intro: runs_curr_field)

lemma runs_send_part:
  assumes "0 < m" and "m \<le> n" and "off + n \<le> length buf"
  shows "runs c t0 [Given (R_write_cnt m), Clock, Clock] (in_op t0 P R S)
    (send_body buf CLIENT_OP_TIMEOUT (int n, int off, False, False))
    (\<lambda>r k t. r = Inl (int (n - m), int (off + m), False, False) \<and> in_op t0 P R (S @ take m (drop off buf)) k t)"
proof -
  let ?l = "(int n, int off, False, False)"
  let ?A = "in_op t0 P R (S @ take m (drop off buf))"
  let ?B = "\<lambda>r k t. r = Inl (int (n - m), int (off + m), False, False) \<and> ?A k t"
  have time: "runs c t0 [Clock] ?A (check_timeout CLIENT_OP_TIMEOUT False) (\<lambda>r k t. r = False \<and> ?A k t)"
    using runs_no_op_timeout [of ?A t0 c] by (simp add: check_timeout_def in_op_def srv_consts)
  have "runs c t0 [Clock] ?A (io_bind (check_timeout CLIENT_OP_TIMEOUT False)
      (\<lambda>send_timeout'. ret (Inl (int n - int m, int off + int m, False, send_timeout')))) ?B"
    by (rule runs_value_end [OF time]) (use assms(2) in \<open>auto intro: runs_ret\<close>)
  then have "runs c t0 ([Clock] @ [Clock]) ?A (send_got CLIENT_OP_TIMEOUT ?l (int m)) ?B"
    using assms(1) by (simp add: send_got_def)
      (rule runs_then [where qs = "[Clock]", simplified, OF runs_update_active], simp_all add: in_op_def)
  then have "runs c t0 [Given (R_write_cnt m), Clock, Clock] (in_op t0 P R S)
      (io_bind (sys_write sock buf (int off) (int n)) (\<lambda>r. case r of
         Inl errno \<Rightarrow> sock_error ?l errno | Inr cnt \<Rightarrow> send_got CLIENT_OP_TIMEOUT ?l cnt)) ?B" for sock
    by (intro runs_value [OF runs_sys_write [OF assms(2,3)], where qs' = "[Clock, Clock]", simplified]) simp
  then show ?thesis
    using assms(1,2) unfolding send_body_def prod.case by (simp add: runs_sock_bind)
qed

lemma runs_send_wait:
  assumes "0 < n"
  shows "runs c t0 (Given (R_write_err EAGAIN) # wait_cues) (in_op t0 P R S)
    (send_body buf timeout (int n, off, False, False)) (\<lambda>r k t. r = Inl (int n, off, False, False) \<and> in_op t0 P R S k t)"
proof -
  let ?l = "(int n, off, False, False)"
  have err: "runs c t0 [Given (R_write_err EAGAIN)] (in_op t0 P R S) (sys_write sock buf off (int n))
    (\<lambda>r k t. r = Inl EAGAIN \<and> in_op t0 P R S k t)" for sock
    unfolding sys_write_def by (rule runs_given) (simp add: runs_ret EAGAIN_def EPIPE_def)
  have "runs c t0 wait_cues (in_op t0 P R S) (sock_error ?l EAGAIN) (\<lambda>r k t. r = Inl ?l \<and> in_op t0 P R S k t)"
    by (rule runs_wait_again) (simp add: in_op_def)
  then have "runs c t0 (Given (R_write_err EAGAIN) # wait_cues) (in_op t0 P R S)
      (io_bind (sys_write sock buf off (int n)) (\<lambda>r. case r of
         Inl errno \<Rightarrow> sock_error ?l errno | Inr cnt \<Rightarrow> send_got timeout ?l cnt))
      (\<lambda>r k t. r = Inl ?l \<and> in_op t0 P R S k t)" for sock
    by (intro runs_value [OF err, where qs' = wait_cues, simplified]) simp
  then show ?thesis
    using assms unfolding send_body_def prod.case by (simp add: runs_sock_bind)
qed

lemma runs_send_loop:
  assumes "\<forall>(j, m) \<in> set ps. 0 < m" and "off + size_of ps \<le> length buf"
  shows "runs c t0 (part_cues ps) (in_op t0 P R S)
    (io_loop (send_body buf CLIENT_OP_TIMEOUT) (int (size_of ps), int off, False, False))
    (\<lambda>r k t. r = int (off + size_of ps) \<and> stream P R (S @ take (size_of ps) (drop off buf)) k t)"
  using assms
proof (induction ps arbitrary: off S)
  case Nil
  then show ?case by (auto simp: send_body_def in_op_def intro!: runs_loop_done runs_ret)
next
  case (Cons jm ps)
  obtain j m where jm: "jm = (j, m)" by (cases jm)
  let ?n = "m + size_of ps" and ?S = "S @ take m (drop off buf)"
  have m: "0 < m" "m \<le> ?n" "off + ?n \<le> length buf" using Cons(2,3) jm by auto
  have all: "?S @ take (size_of ps) (drop (off + m) buf) = S @ take ?n (drop off buf)"
    by (simp add: take_add add.commute)
  have out: "runs c t0 [Given (R_write_cnt m), Clock, Clock] (in_op t0 P R S)
      (send_body buf CLIENT_OP_TIMEOUT (int ?n, int off, False, False))
      (\<lambda>r k t. r = Inl (int (size_of ps), int (off + m), False, False) \<and> in_op t0 P R ?S k t)"
    using runs_send_part [OF m] by simp
  have "runs c t0 (part_cues ps) (in_op t0 P R ?S)
      (io_loop (send_body buf CLIENT_OP_TIMEOUT) (int (size_of ps), int (off + m), False, False))
      (\<lambda>r k t. r = int (off + ?n) \<and> stream P R (S @ take ?n (drop off buf)) k t)"
    using Cons(1) [of "off + m" ?S] Cons(2) m(3) unfolding all by (simp add: add.assoc)
  from runs_loop_next [OF out _ this]
  have "runs c t0 ([Given (R_write_cnt m), Clock, Clock] @ part_cues ps) (in_op t0 P R S)
      (io_loop (send_body buf CLIENT_OP_TIMEOUT) (int ?n, int off, False, False))
      (\<lambda>r k t. r = int (off + ?n) \<and> stream P R (S @ take ?n (drop off buf)) k t)" by simp
  from runs_loop_again [OF runs_send_wait this] m(1) show ?case by (simp add: jm)
qed

lemma runs_send_packet:
  assumes "\<forall>(j, m) \<in> set ps. 0 < m" and "size_of ps \<le> length buf"
  shows "runs c t0 (packet_cues ps) (stream P R S) (send_to_curr_conn buf (int (size_of ps)) CLIENT_OP_TIMEOUT)
    (\<lambda>r k t. r = int (size_of ps) \<and> stream P R (S @ take (size_of ps) buf) k t)"
proof -
  have "runs c t0 ([Clock] @ [Clock] @ part_cues ps) (stream P R S)
    (send_to_curr_conn buf (int (size_of ps)) CLIENT_OP_TIMEOUT)
    (\<lambda>r k t. r = int (size_of ps) \<and> stream P R (S @ take (size_of ps) buf) k t)"
    unfolding send_to_curr_conn_def
    by (intro runs_then [OF runs_update_active [where B = "\<lambda>_. stream P R S"]]
        runs_then [OF runs_start_op [where B = "\<lambda>_. in_op t0 P R S"]])
      (use runs_send_loop [of ps 0 buf] assms in \<open>simp_all add: in_op_def\<close>)
  then show ?thesis by (simp add: packet_cues_def)
qed

text \<open>The sizes of the packets of a message of \<open>n\<close> bytes, and the parts that make them up.\<close>

function packets :: "nat \<Rightarrow> nat list" where
  "packets n = (if n = 0 then [] else min n (nat SEND_PACKET_SIZE) # packets (n - nat SEND_PACKET_SIZE))"
  by pat_completeness auto
termination by (relation "measure id") (auto simp: srv_consts)

declare packets.simps [simp del]

lemma packets_eq:
  "packets n = [] \<longleftrightarrow> n = 0"
  "packets n = a # as \<longleftrightarrow> 0 < n \<and> a = min n (nat SEND_PACKET_SIZE) \<and> as = packets (n - nat SEND_PACKET_SIZE)"
  by (auto simp: packets.simps [of n])

definition taken :: "parts list \<Rightarrow> nat \<Rightarrow> bool" where
  "taken pss n \<longleftrightarrow> map size_of pss = packets n \<and> (\<forall>ps \<in> set pss. \<forall>(j, m) \<in> set ps. 0 < m)"

lemma packets_pos: "m \<in> set (packets n) \<Longrightarrow> 0 < m"
proof (induction n rule: packets.induct)
  case (1 n)
  then show ?case by (simp add: packets.simps [of n] srv_consts split: if_splits) auto
qed

lemma taken_whole: "taken (map (\<lambda>m. [(j, m)]) (packets n)) n"
  by (auto simp: taken_def comp_def intro: packets_pos)

definition msg_cues :: "parts list \<Rightarrow> cue list" where
  "msg_cues pss = concat (map (\<lambda>ps. packet_cues ps @ [Clock]) pss)"

lemma runs_send_msg_loop:
  assumes "taken pss (length msg - pos)" and "pos \<le> length msg"
  shows "runs c t0 (msg_cues pss) (stream P R S) (io_loop (send_msg_loop msg) (int pos))
    (\<lambda>r k t. r = int (length msg) \<and> stream P R (S @ drop pos msg) k t)"
  using assms
proof (induction pss arbitrary: pos S)
  case Nil
  then have "pos = length msg" using packets_eq(1) [of "length msg - pos"] by (simp add: taken_def)
  then show ?case by (auto simp: msg_cues_def send_msg_loop_def intro!: runs_loop_done runs_ret)
next
  case (Cons ps pss)
  let ?rem = "length msg - pos" and ?n = "size_of ps"
  from Cons(2) have "packets ?rem = ?n # map size_of pss" by (simp add: taken_def)
  then have rem: "0 < ?rem" and n: "?n = min ?rem (nat SEND_PACKET_SIZE)"
    and sizes: "map size_of pss = packets (?rem - nat SEND_PACKET_SIZE)"
    unfolding packets_eq(2) by blast+
  from Cons(2) have pos: "\<forall>(j, m) \<in> set ps. 0 < m" "\<forall>ps \<in> set pss. \<forall>(j, m) \<in> set ps. 0 < m" by (auto simp: taken_def)
  have size: "min SEND_PACKET_SIZE (int (length msg) - int pos) = int ?n" "?n \<le> length (drop pos msg)"
    using rem Cons(3) n by (auto simp: srv_consts)
  have "?rem - nat SEND_PACKET_SIZE = length msg - (pos + ?n)" "pos + ?n \<le> length msg"
    using rem Cons(3) n by auto
  with sizes pos(2) have rest: "taken pss (length msg - (pos + ?n))" "pos + ?n \<le> length msg" by (simp_all add: taken_def)
  let ?S = "S @ take ?n (drop pos msg)"
  have all: "?S @ drop (pos + ?n) msg = S @ drop pos msg" by (metis add.commute append.assoc append_take_drop_id drop_drop)
  have "runs c t0 [Clock] (stream P R ?S) (io_then cond_swap_to_main_ctx (ret (Inl (int pos + int ?n))))
    (\<lambda>r k t. r = Inl (int (pos + ?n)) \<and> stream P R ?S k t)"
    by (rule runs_then_end [OF runs_no_swap]) (simp add: runs_ret)
  then have "runs c t0 (packet_cues ps @ [Clock]) (stream P R S)
    (io_bind (send_to_curr_conn (drop pos msg) (int ?n) CLIENT_OP_TIMEOUT) (\<lambda>count.
        if count \<noteq> int ?n then ret (Inr 0) else io_then cond_swap_to_main_ctx (ret (Inl (int pos + int ?n)))))
    (\<lambda>r k t. r = Inl (int (pos + ?n)) \<and> stream P R ?S k t)"
    by (intro runs_value [OF runs_send_packet [OF pos(1) size(2)]]) simp
  then have "runs c t0 (packet_cues ps @ [Clock]) (stream P R S) (send_msg_loop msg (int pos))
    (\<lambda>r k t. r = Inl (int (pos + ?n)) \<and> stream P R ?S k t)"
    using rem unfolding send_msg_loop_def Let_def size(1)
    by (simp only: zero_less_diff of_nat_less_iff not_True_eq_False if_False nat_int)
  from runs_loop_next [OF this _ Cons(1) [OF rest, of ?S]] show ?case
    unfolding all by (simp add: msg_cues_def)
qed

lemma runs_send_http_msg:
  assumes "taken pss (length (Serialize_response hash_order resp))"
  shows "runs c t0 (msg_cues pss) (stream P R S) (send_http_msg hash_order resp)
    (\<lambda>r k t. r = int (length (Serialize_response hash_order resp)) \<and>
      stream P R (S @ Serialize_response hash_order resp) k t)"
  unfolding send_http_msg_def using runs_send_msg_loop [of pss "Serialize_response hash_order resp" 0] assms by simp

end
