(* ===== verification/Service.thy ===== *)
theory Service
  imports Delivery
begin

text \<open>
  What a client gets when the environment lets it: \<open>runs\<close> of \<open>Progress\<close> for a whole request
  (\<open>http/srv_http_send_recv.cpp\<close>), for the sequence of requests of a connection
  (\<open>handle_one_connection\<close>, \<open>srv_routines.c\<close>), and for a turn of the worker that serves them all.
\<close>

section \<open>One request\<close>

text \<open>
  One request as the environment delivers it: the pieces of its header section, the date the
  response is stamped with, the response, and the parts its packets are taken in.
\<close>

record delivery =
  pieces_in :: pieces
  header :: bytes
  date_now :: string
  reply :: http_response
  parts_out :: "parts list"

definition request_of :: "delivery \<Rightarrow> http_request" where
  "request_of x = request_of_header (header x)"

definition delivered :: "(header_map \<Rightarrow> header_map) \<Rightarrow> bytes \<Rightarrow> delivery \<Rightarrow> bytes \<Rightarrow> bool" where
  "delivered hash_order P x P' \<longleftrightarrow>
     header_arrives P (pieces_in x) (header x) P' \<and> date_ok (date_now x) \<and>
     MakeResponse (date_now x) (request_of x) = Inr (reply x) \<and>
     taken (parts_out x) (length (Serialize_response hash_order (reply x)))"

definition request_cues :: "bool \<Rightarrow> delivery \<Rightarrow> cue list" where
  "request_cues keep x =
     hdr_cues (pieces_in x) @ [Given (R_date (date_now x))] @ msg_cues (parts_out x) @ (if keep then [Clock] else [])"

text \<open>A request that gets a response has no body to wait for.\<close>

lemma answered_no_body:
  assumes "date_ok date" and "MakeResponse date (request_of_header hdr) = Inr resp" and "IsOk (request_of_header hdr)"
  shows "\<not> MethodHasBody (get_method_token hdr)"
proof
  assume b: "MethodHasBody (get_method_token hdr)"
  from request_of_header_valid [OF assms(3)] have f: "fields_ok (request_of_header hdr)"
    and m: "map_of methods_info (get_method_token hdr) = Some (req_class (request_of_header hdr), True)"
    using b by (auto simp: request_ok_def)
  from m have "req_class (request_of_header hdr) \<in> {Post_msg, Put_msg, Patch_msg}"
    by (auto simp: methods_info_def split: if_splits)
  with MakeResponse_valid [OF assms(3) f assms(1)] assms(2) show False by auto
qed

lemma runs_recv_http_msg:
  assumes "delivered hash_order P x P'"
  shows "runs c t0 (hdr_cues (pieces_in x)) (stream P R S) recv_http_msg
    (\<lambda>r k t. r = Some (request_of x) \<and> stream P' (R @ bytes_of (pieces_in x)) S k t)"
proof -
  from assms have h: "header_arrives P (pieces_in x) (header x) P'" by (simp add: delivered_def)
  then have h2: "header x \<noteq> []" by (simp add: header_arrives_def)
  from assms have n: "\<not> (IsOk (request_of x) \<and> MethodHasBody (get_method_token (header x)))"
    using answered_no_body by (auto simp: delivered_def request_of_def)
  show ?thesis
    unfolding recv_http_msg_def
    by (rule runs_value_end [OF runs_recv_http_hdr [OF h]])
      (use h2 n in \<open>auto simp: Let_def request_of_def intro!: runs_ret\<close>)
qed

lemma runs_format_date:
  "date_ok date \<Longrightarrow> runs c t0 [Given (R_date date)] A format_date_hdr (\<lambda>r k t. r = date \<and> A k t)"
  unfolding format_date_hdr_def by (rule runs_given) (simp add: runs_ret)

lemma runs_request:
  assumes d: "delivered hash_order P x P'" and keep: "WantKeepAlive (request_of x) = Inr keep"
  shows "runs c t0 (request_cues keep x) (stream P R S) (handle_one_client_request hash_order)
    (\<lambda>r k t. r = keep \<and>
      stream P' (R @ bytes_of (pieces_in x)) (S @ Serialize_response hash_order (reply x)) k t)"
proof -
  let ?out = "Serialize_response hash_order (reply x)"
  let ?B = "\<lambda>S. stream P' (R @ bytes_of (pieces_in x)) S"
  have go: "runs c t0 (if keep then [Clock] else []) (?B (S @ ?out))
      (io_bind (lift_fault (WantKeepAlive (request_of x))) (\<lambda>keep. if \<not> keep then ret False
           else io_then cond_swap_to_main_ctx (ret True))) (\<lambda>r k t. r = keep \<and> ?B (S @ ?out) k t)"
    unfolding keep
  proof (rule runs_value_step [where a = keep and M = "?B (S @ ?out)"])
    show "runs c t0 (if keep then [Clock] else []) (?B (S @ ?out)) (if \<not> keep then ret False
        else io_then cond_swap_to_main_ctx (ret True)) (\<lambda>r k t. r = keep \<and> ?B (S @ ?out) k t)"
      by (cases keep) (auto intro!: runs_ret runs_then_end [OF runs_no_swap])
  qed (simp add: runs_lift_fault)
  have size: "\<not> int (length ?out) \<le> 0" by (simp add: Serialize_response_def)
  have send: "runs c t0 (msg_cues (parts_out x) @ (if keep then [Clock] else [])) (?B S)
      (io_bind (send_http_msg hash_order (reply x)) (\<lambda>count. if count \<le> 0 then ret False
         else io_bind (lift_fault (WantKeepAlive (request_of x))) (\<lambda>keep. if \<not> keep then ret False
           else io_then cond_swap_to_main_ctx (ret True)))) (\<lambda>r k t. r = keep \<and> ?B (S @ ?out) k t)"
    by (rule runs_value [OF runs_send_http_msg]) (use d go size in \<open>auto simp: delivered_def\<close>)
  have answer: "runs c t0 (msg_cues (parts_out x) @ (if keep then [Clock] else [])) (?B S)
      (io_bind (lift_fault (MakeResponse (date_now x) (request_of x))) (\<lambda>resp.
       io_bind (send_http_msg hash_order resp) (\<lambda>count. if count \<le> 0 then ret False
         else io_bind (lift_fault (WantKeepAlive (request_of x))) (\<lambda>keep. if \<not> keep then ret False
           else io_then cond_swap_to_main_ctx (ret True))))) (\<lambda>r k t. r = keep \<and> ?B (S @ ?out) k t)"
    by (rule runs_value_step [where a = "reply x" and M = "?B S"])
      (use d send in \<open>auto simp: delivered_def intro: runs_lift_fault\<close>)
  have "runs c t0 ([Given (R_date (date_now x))] @ msg_cues (parts_out x) @ (if keep then [Clock] else [])) (?B S)
      (io_bind format_date_hdr (\<lambda>date. io_bind (lift_fault (MakeResponse date (request_of x))) (\<lambda>resp.
       io_bind (send_http_msg hash_order resp) (\<lambda>count. if count \<le> 0 then ret False
         else io_bind (lift_fault (WantKeepAlive (request_of x))) (\<lambda>keep. if \<not> keep then ret False
           else io_then cond_swap_to_main_ctx (ret True)))))) (\<lambda>r k t. r = keep \<and> ?B (S @ ?out) k t)"
    by (rule runs_value [OF runs_format_date]) (use d answer in \<open>simp_all add: delivered_def\<close>)
  then show ?thesis
    unfolding handle_one_client_request_def request_cues_def
    by (intro runs_value [OF runs_recv_http_msg [OF d]]) simp
qed

section \<open>A connection\<close>

text \<open>
  \<open>session P xs\<close>: the requests \<open>xs\<close> come one after the other, each asking to go on. What a request
  leaves in the buffer is the start of the next.
\<close>

definition left_over :: "bytes \<Rightarrow> delivery \<Rightarrow> bytes" where
  "left_over P x = drop (length (header x)) (P @ bytes_of (pieces_in x))"

fun session :: "(header_map \<Rightarrow> header_map) \<Rightarrow> bytes \<Rightarrow> delivery list \<Rightarrow> bool" where
  "session hash_order P [] = True"
| "session hash_order P (x # xs) =
     (delivered hash_order P x (left_over P x) \<and> WantKeepAlive (request_of x) = Inr True \<and>
      session hash_order (left_over P x) xs)"

fun rest_of :: "bytes \<Rightarrow> delivery list \<Rightarrow> bytes" where
  "rest_of P [] = P"
| "rest_of P (x # xs) = rest_of (left_over P x) xs"

definition input_of :: "delivery list \<Rightarrow> bytes" where
  "input_of xs = concat (map (\<lambda>x. bytes_of (pieces_in x)) xs)"

definition output_of :: "(header_map \<Rightarrow> header_map) \<Rightarrow> delivery list \<Rightarrow> bytes" where
  "output_of hash_order xs = concat (map (\<lambda>x. Serialize_response hash_order (reply x)) xs)"

lemma inout_simps [simp]:
  "input_of [] = []" "input_of (x # xs) = bytes_of (pieces_in x) @ input_of xs" "input_of (xs @ ys) = input_of xs @ input_of ys"
  "output_of ho [] = []" "output_of ho (x # xs) = Serialize_response ho (reply x) @ output_of ho xs"
  "output_of ho (xs @ ys) = output_of ho xs @ output_of ho ys"
  by (simp_all add: input_of_def output_of_def)

text \<open>
  \<open>ends z c t0 qs A m B\<close>: with the answers \<open>qs\<close> and no more, \<open>m\<close> stops for the reason \<open>z\<close>, with
  \<open>B\<close>; \<open>blocks\<close> when it is switched out.
\<close>

definition ends :: "stop \<Rightarrow> nat \<Rightarrow> time_t \<Rightarrow> cue list \<Rightarrow> (conn_t \<Rightarrow> event list \<Rightarrow> bool) \<Rightarrow>
    (resp, srv_state, event, 'a) io \<Rightarrow> (conn_t \<Rightarrow> event list \<Rightarrow> bool) \<Rightarrow> bool" where
  "ends z c t0 qs A m B \<longleftrightarrow>
     (\<forall>w. list_all2 (fits c t0) qs (script w) \<longrightarrow> in_turn c t0 (st w) \<longrightarrow> A (conns (st w) c) (trace w) \<longrightarrow>
        (\<exists>v. m w = (Inl z, v) \<and> script v = [] \<and> B (conns (st v) c) (trace v)))"

abbreviation blocks :: "nat \<Rightarrow> time_t \<Rightarrow> cue list \<Rightarrow> (conn_t \<Rightarrow> event list \<Rightarrow> bool) \<Rightarrow>
    (resp, srv_state, event, 'a) io \<Rightarrow> (conn_t \<Rightarrow> event list \<Rightarrow> bool) \<Rightarrow> bool" where
  "blocks \<equiv> ends Suspended"

lemma endsI:
  assumes "\<And>w. list_all2 (fits c t0) qs (script w) \<Longrightarrow> in_turn c t0 (st w) \<Longrightarrow> A (conns (st w) c) (trace w) \<Longrightarrow>
      \<exists>v. m w = (Inl z, v) \<and> script v = [] \<and> B (conns (st v) c) (trace v)"
  shows "ends z c t0 qs A m B"
  using assms unfolding ends_def by blast

lemma endsD:
  assumes "ends z c t0 qs A m B" and "list_all2 (fits c t0) qs (script w)" and "in_turn c t0 (st w)"
    and "A (conns (st w) c) (trace w)"
  obtains v where "m w = (Inl z, v)" "script v = []" "B (conns (st v) c) (trace v)"
  using assms unfolding ends_def by blast

lemma ends_bind: "ends z c t0 qs A m B \<Longrightarrow> ends z c t0 qs A (io_bind m f) B"
  by (rule endsI, erule endsD) (auto simp: io_bind_Inl)

lemma ends_then: "ends z c t0 qs A m B \<Longrightarrow> ends z c t0 qs A (io_then m k) B"
  unfolding io_then_def by (rule ends_bind)

lemma runs_ends:
  assumes m: "runs c t0 qs A m M" and f: "\<And>a. ends z c t0 qs' (M a) (f a) B"
  shows "ends z c t0 (qs @ qs') A (io_bind m f) B"
proof (rule endsI)
  fix w :: "(resp, srv_state, event) world"
  assume w: "list_all2 (fits c t0) (qs @ qs') (script w)" "in_turn c t0 (st w)" "A (conns (st w) c) (trace w)"
  then obtain ys zs where xs: "script w = ys @ zs" "list_all2 (fits c t0) qs ys" "list_all2 (fits c t0) qs' zs"
    by (auto simp: list_all2_append1)
  from runsD [OF m, OF xs(1,2) w(2,3)] obtain a u where u: "m w = (Inr a, u)" "script u = zs"
    "in_turn c t0 (st u)" "M a (conns (st u) c) (trace u)" by blast
  from endsD [OF f, OF xs(3) [folded u(2)] u(3,4)] u(1)
  show "\<exists>v. io_bind m f w = (Inl z, v) \<and> script v = [] \<and> B (conns (st v) c) (trace v)"
    by (metis io_bind_Inr)
qed

lemma runs_then_ends: "runs c t0 qs A m (\<lambda>_. M) \<Longrightarrow> ends z c t0 qs' M k B \<Longrightarrow> ends z c t0 (qs @ qs') A (io_then m k) B"
  unfolding io_then_def by (rule runs_ends)

lemma ends_pure: "(p \<Longrightarrow> ends z c t0 qs A m B) \<Longrightarrow> ends z c t0 qs (\<lambda>k t. p \<and> A k t) m B"
  by (rule endsI) (auto elim: endsD)

lemma runs_value_ends:
  assumes "runs c t0 qs A m (\<lambda>r k t. r = a \<and> M k t)" and "ends z c t0 qs' M (f a) B"
  shows "ends z c t0 (qs @ qs') A (io_bind m f) B"
  by (rule runs_ends [OF assms(1)], rule ends_pure) (simp add: assms(2))

lemma ends_conseq:
  assumes "ends z c t0 qs A' m B'" and "\<And>k t. layout_ok k \<Longrightarrow> A k t \<Longrightarrow> A' k t" and "\<And>k t. B' k t \<Longrightarrow> B k t"
  shows "ends z c t0 qs A m B"
  by (rule endsI, rule endsD [OF assms(1)]) (use assms(2,3) in_turn_layout in blast)+

lemma ends_loop:
  assumes "ends z c t0 qs A (bd l) B"
  shows "ends z c t0 qs A (io_loop bd l) B"
  by (rule endsI, rule endsD [OF assms], assumption+) (auto dest: io_loop_stop)

lemma blocks_swap_to_main:
  assumes "\<And>k t. \<not> is_completed k \<Longrightarrow> A k t \<Longrightarrow> B k (t @ [Ev_yield c])"
  shows "blocks c t0 [] A swap_to_main_ctx B"
proof (rule endsI)
  fix w :: "(resp, srv_state, event) world"
  assume w: "list_all2 (fits c t0) [] (script w)" "in_turn c t0 (st w)" "A (conns (st w) c) (trace w)"
  then have "swap_to_main_ctx w = (Inl Suspended, w\<lparr>trace := trace w @ [Ev_yield c]\<rparr>)"
    by (simp add: swap_to_main_ctx_def with_curr_def in_turn_def own_ok_def io_exec io_bind_def io_then_def answer_def)
  with w assms [OF _ w(3)]
  show "\<exists>v. swap_to_main_ctx w = (Inl Suspended, v) \<and> script v = [] \<and> B (conns (st v) c) (trace v)" by (simp add: in_turn_def)
qed

text \<open>Nothing has come yet: the coroutine switches out in the middle of receiving.\<close>

definition idle_cues :: "cue list" where
  "idle_cues = [Clock, Clock, Given (R_read_err EAGAIN), Clock]"

text \<open>What the peer and the queue see of a connection that is still open.\<close>

definition open_with :: "bytes \<Rightarrow> bytes \<Rightarrow> conn_t \<Rightarrow> event list \<Rightarrow> bool" where
  "open_with R S k t \<longleftrightarrow> \<not> is_completed k \<and> recvd t = R \<and> sent t = S"

lemma blocks_would_block: "blocks c t0 [Clock] (stream P R S) would_block (open_with R S)"
proof -
  have t: "runs c t0 [Clock] (stream P R S) curr_conn_active_timeout (\<lambda>_. stream P R S)"
    unfolding curr_conn_active_timeout_def
    by (rule runs_clock, rule runs_step [OF runs_curr_field [where B = "\<lambda>_. stream P R S"]]) (auto intro: runs_ret)
  have "runs c t0 [] (stream P R S) (io_when b curr_conn_set_inactive) (\<lambda>_. stream P R S)" for b
    by (cases b) (auto simp: io_when_def intro!: runs_set_inactive runs_ret)
  then have "blocks c t0 ([] @ []) (stream P R S) (io_then (io_when b curr_conn_set_inactive) swap_to_main_ctx) (open_with R S)" for b
    by (rule runs_then_ends) (rule blocks_swap_to_main, simp add: open_with_def stream_def)
  then have "blocks c t0 ([Clock] @ []) (stream P R S) would_block (open_with R S)"
    unfolding would_block_def by (intro runs_ends [OF t]) simp
  then show ?thesis by simp
qed

lemma blocks_recv:
  assumes "to_recv \<noteq> 0"
  shows "blocks c t0 idle_cues (stream P R S) (recv_from_curr_conn to_recv n timeout terminator) (open_with R S)"
proof -
  let ?l = "(to_recv, n, False, False)"
  have rd: "runs c t0 [Given (R_read_err EAGAIN)] (stream P R S) (sys_read sock n to_recv)
    (\<lambda>r k t. r = Inl EAGAIN \<and> stream P R S k t)" for sock
    unfolding sys_read_def by (rule runs_given) (simp add: runs_ret)
  have "blocks c t0 [Clock] (stream P R S) (sock_error ?l EAGAIN) (open_with R S)"
    by (simp add: sock_error_def ends_then blocks_would_block)
  then have "blocks c t0 ([Given (R_read_err EAGAIN)] @ [Clock]) (stream P R S)
    (io_bind (sys_read sock n to_recv) (\<lambda>r. case r of
       Inl errno \<Rightarrow> sock_error ?l errno | Inr cnt \<Rightarrow> recv_got timeout terminator ?l cnt)) (open_with R S)" for sock
    by (intro runs_value_ends [OF rd]) simp
  then have "blocks c t0 ([] @ [Given (R_read_err EAGAIN), Clock]) (stream P R S) (recv_body n timeout terminator ?l) (open_with R S)"
    using assms unfolding recv_body_def prod.case
    by (simp del: append_Nil) (rule runs_ends [where M = "\<lambda>_. stream P R S"], simp_all add: curr_conn_sock_def runs_curr_field)
  then have "blocks c t0 ([Clock] @ [Clock] @ [Given (R_read_err EAGAIN), Clock]) (stream P R S)
    (recv_from_curr_conn to_recv n timeout terminator) (open_with R S)"
    unfolding recv_from_curr_conn_def
    by (intro runs_then_ends [OF runs_update_active [where B = "\<lambda>_. stream P R S"]]
        runs_then_ends [OF runs_start_op [where B = "\<lambda>_. stream P R S"]] ends_loop) simp_all
  then show ?thesis by (simp add: idle_cues_def)
qed

lemma runs_field: "runs c t0 [] A (curr_field g) (\<lambda>r k t. r = g k \<and> layout_ok k \<and> A k t)"
  by (rule runs_curr_field) simp

lemma blocks_request: "blocks c t0 idle_cues (stream [] R S) (handle_one_client_request hash_order) (open_with R S)"
proof -
  have "blocks c t0 ([] @ [] @ [] @ idle_cues) (stream [] R S) recv_http_hdr (open_with R S)"
    unfolding recv_http_hdr_def
  proof (intro runs_ends [OF runs_field])
    fix size h u
    let ?A = "\<lambda>k t. u = recv_buf_curr k \<and> layout_ok k \<and> h = recv_buf_have k \<and> layout_ok k \<and>
      size = recv_buf_size k \<and> layout_ok k \<and> stream [] R S k t"
    let ?m = "if u \<noteq> h then io_bind (curr_view u (h - u)) (\<lambda>v.
         if find_http_headers_end v = 0
         then io_then (buf_move u (h - u)) (io_bind (recv_from_curr_conn (size - (h - u)) (h - u)
                TIMEOUT_INF True) (\<lambda>count.
              if count \<le> 0 then ret [] else hdr_finish 0 (h - u + count) 0))
         else hdr_finish u h (find_http_headers_end v))
       else io_bind (recv_from_curr_conn size 0 TIMEOUT_INF True) (\<lambda>count.
         if count \<le> 0 then ret [] else hdr_finish 0 count 0)"
    have "blocks c t0 idle_cues (\<lambda>k t. (u = h \<and> size = RECV_BUF_SIZE) \<and> stream [] R S k t) ?m (open_with R S)"
      by (rule ends_pure) (simp add: ends_bind blocks_recv srv_consts)
    then show "blocks c t0 idle_cues ?A ?m (open_with R S)"
      by (rule ends_conseq) (auto simp: stream_def layout_ok_def mem_view_def)
  qed
  then show ?thesis
    by (simp add: handle_one_client_request_def recv_http_msg_def ends_bind)
qed

section \<open>Serving\<close>

lemma session_delivered: "delivered hash_order P x P' \<Longrightarrow> left_over P x = P'"
  by (simp add: delivered_def header_arrives_def left_over_def)

definition session_cues :: "delivery list \<Rightarrow> cue list" where
  "session_cues xs = concat (map (request_cues True) xs)"

lemma session_served:
  assumes "session hash_order P xs" and "script w = ys @ rest" and "list_all2 (fits c t0) (session_cues xs) ys"
    and "in_turn c t0 (st w)" and "stream P R S (conns (st w) c) (trace w)"
  shows "\<exists>u. serve_requests hash_order w = serve_requests hash_order u \<and> script u = rest \<and> in_turn c t0 (st u) \<and>
    stream (rest_of P xs) (R @ input_of xs) (S @ output_of hash_order xs) (conns (st u) c) (trace u)"
  using assms
proof (induction xs arbitrary: P R S w ys)
  case (Cons x xs)
  let ?R = "R @ bytes_of (pieces_in x)" and ?S = "S @ Serialize_response hash_order (reply x)"
  let ?body = "\<lambda>_ :: unit. io_bind (handle_one_client_request hash_order) (\<lambda>go. ret (if go then Inl () else Inr ()))"
  from Cons(2) have x: "delivered hash_order P x (left_over P x)" "WantKeepAlive (request_of x) = Inr True"
    and xs: "session hash_order (left_over P x) xs" by simp_all
  have "runs c t0 (request_cues True x) (stream P R S) (?body ()) (\<lambda>r k t. r = Inl () \<and> stream (left_over P x) ?R ?S k t)"
    by (rule runs_value_end [OF runs_request [OF x]]) (simp add: runs_ret)
  moreover have "request_cues True x \<noteq> []" by (simp add: request_cues_def)
  moreover obtain ys1 ys2 where ys: "ys = ys1 @ ys2" "list_all2 (fits c t0) (request_cues True x) ys1"
    "list_all2 (fits c t0) (session_cues xs) ys2"
    using Cons(4) by (auto simp: session_cues_def list_all2_append1)
  moreover have "script w = ys1 @ (ys2 @ rest)" using Cons(3) ys(1) by simp
  ultimately obtain u where "serve_requests hash_order w = serve_requests hash_order u"
    and u: "script u = ys2 @ rest" "in_turn c t0 (st u)" "stream (left_over P x) ?R ?S (conns (st u) c) (trace u)"
    unfolding serve_requests_def using loop_round [where bd = ?body] Cons(5,6) by metis
  with Cons(1) [OF xs u(1) ys(3) u(2,3)] show ?case by simp
qed (auto simp: session_cues_def)

text \<open>What follows the session decides how the run ends.\<close>

lemma session_ends:
  assumes "session hash_order P xs"
    and fin: "ends z c t0 qs (stream (rest_of P xs) (R @ input_of xs) (S @ output_of hash_order xs))
      (io_then (serve_requests hash_order) m) B"
  shows "ends z c t0 (session_cues xs @ qs) (stream P R S) (io_then (serve_requests hash_order) m) B"
proof (rule endsI)
  fix w :: "(resp, srv_state, event) world"
  assume w: "list_all2 (fits c t0) (session_cues xs @ qs) (script w)" "in_turn c t0 (st w)" "stream P R S (conns (st w) c) (trace w)"
  then obtain ys zs where xs: "script w = ys @ zs" "list_all2 (fits c t0) (session_cues xs) ys" "list_all2 (fits c t0) qs zs"
    by (auto simp: list_all2_append1)
  from session_served [OF assms(1) xs(1,2) w(2,3)] obtain u where
    s: "serve_requests hash_order w = serve_requests hash_order u" and u: "script u = zs" "in_turn c t0 (st u)"
    "stream (rest_of P xs) (R @ input_of xs) (S @ output_of hash_order xs) (conns (st u) c) (trace u)" by blast
  from s have "io_then (serve_requests hash_order) m w = io_then (serve_requests hash_order) m u"
    by (simp add: io_then_def io_bind_def)
  with endsD [OF fin, OF xs(3) [folded u(1)] u(2,3)]
  show "\<exists>v. io_then (serve_requests hash_order) m w = (Inl z, v) \<and> script v = [] \<and> B (conns (st v) c) (trace v)"
    by metis
qed

text \<open>Two ways a session goes on: the next request has not come, or the last one asks to close.\<close>

lemma serve_idle: "blocks c t0 idle_cues (stream [] R S) (io_then (serve_requests hash_order) m) (open_with R S)"
  unfolding serve_requests_def by (intro ends_then ends_loop ends_bind blocks_request)

definition closed_with :: "bytes \<Rightarrow> bytes \<Rightarrow> conn_t \<Rightarrow> event list \<Rightarrow> bool" where
  "closed_with R S k t \<longleftrightarrow> is_completed k \<and> recvd t = R \<and> sent t = S \<and> Ev_close (conn_sock k) \<in> set t"

lemma blocks_close: "blocks c t0 [] (stream P R S) (io_then curr_conn_close swap_to_main_ctx) (closed_with R S)"
proof (rule endsI)
  fix w :: "(resp, srv_state, event) world"
  assume w: "list_all2 (fits c t0) [] (script w)" "in_turn c t0 (st w)" "stream P R S (conns (st w) c) (trace w)"
  let ?t = "trace w @ [Ev_close (conn_sock (conns (st w) c))]"
  have "io_then curr_conn_close swap_to_main_ctx w = (Inl Suspended,
      w\<lparr>st := set_conn c (\<lambda>k. k\<lparr>is_completed := True\<rparr>) (st w), trace := ?t @ [Ev_yield c]\<rparr>)"
    using w(1,2) by (simp add: curr_conn_close_def swap_to_main_ctx_def with_curr_def in_turn_def own_ok_def
        io_exec io_bind_def io_then_def answer_def)
  moreover have "closed_with R S ((conns (st w) c)\<lparr>is_completed := True\<rparr>) (?t @ [Ev_yield c])"
    using w(3) by (simp only: closed_with_def stream_def recvd_simps sent_simps) simp
  ultimately show "\<exists>v. io_then curr_conn_close swap_to_main_ctx w = (Inl Suspended, v) \<and> script v = [] \<and>
      closed_with R S (conns (st v) c) (trace v)" using w(1) by simp
qed

lemma serve_close:
  assumes "delivered hash_order P y P'" and "WantKeepAlive (request_of y) = Inr False"
  shows "blocks c t0 (request_cues False y) (stream P R S) (io_then (serve_requests hash_order)
       (io_then (modify_st (\<lambda>s. s\<lparr>n_conn := n_conn s + 1\<rparr>)) (io_then curr_conn_close swap_to_main_ctx)))
    (closed_with (R @ bytes_of (pieces_in y)) (S @ Serialize_response hash_order (reply y)))"
proof -
  let ?A = "stream P' (R @ bytes_of (pieces_in y)) (S @ Serialize_response hash_order (reply y))"
  have "runs c t0 (request_cues False y) (stream P R S)
    (io_bind (handle_one_client_request hash_order) (\<lambda>go. ret (if go then Inl () else Inr ()))) (\<lambda>r k t. \<exists>b. r = Inr b \<and> ?A k t)"
    by (rule runs_value_end [OF runs_request [OF assms]]) (simp add: runs_ret)
  then have serve: "runs c t0 (request_cues False y) (stream P R S) (serve_requests hash_order) (\<lambda>_. ?A)"
    unfolding serve_requests_def by (intro runs_loop_done)
  have count: "runs c t0 [] ?A (modify_st (\<lambda>s. s\<lparr>n_conn := n_conn s + 1\<rparr>)) (\<lambda>_. ?A)"
    by (rule runs_modify) (simp_all add: in_turn_def own_ok_def)
  from runs_then_ends [OF serve runs_then_ends [OF count blocks_close]] show ?thesis by simp
qed

text \<open>The start of the coroutine: the socket is made non-blocking and asynchronous.\<close>

definition setup_cues :: "int \<Rightarrow> int \<Rightarrow> int \<Rightarrow> cue list" where
  "setup_cues fl tid fl' = [Given (R_fcntl fl), Given (R_fcntl 0), Given (R_fcntl 0), Given (R_gettid tid), Given (R_fcntl 0), Given (R_fcntl fl'), Given (R_fcntl 0)]"

lemma runs_fcntl:
  "runs c t0 [Given (R_fcntl n)] (stream P R S) (fcntl sock cmd) (\<lambda>r k t. r = n \<and> stream P R S k t)"
proof -
  have "runs c t0 [Given (R_fcntl n)] (stream P R S)
    (io_bind (answer Wait) (\<lambda>r. case r of R_fcntl n \<Rightarrow> ret n | _ \<Rightarrow> stop_with Mismatch)) (\<lambda>r k t. r = n \<and> stream P R S k t)"
    by (rule runs_given) (simp add: runs_ret)
  then show ?thesis
    unfolding fcntl_def by (intro runs_skip [OF runs_emit [where B = "\<lambda>_. stream P R S"]]) (simp_all add: stream_def)
qed

lemma runs_gettid: "runs c t0 [Given (R_gettid n)] A gettid (\<lambda>r k t. r = n \<and> A k t)"
  unfolding gettid_def by (rule runs_given) (simp add: runs_ret)

lemma runs_set_nonblock:
  "runs c t0 [Given (R_fcntl fl), Given (R_fcntl 0), Given (R_fcntl 0), Given (R_gettid tid), Given (R_fcntl 0)] (stream P R S) (set_nonblock sock)
    (\<lambda>r k t. r = 0 \<and> stream P R S k t)"
proof -
  let ?A = "stream P R S" and ?B = "\<lambda>r k t. r = 0 \<and> stream P R S k t"
  have own: "runs c t0 [Given (R_fcntl 0)] ?A (io_bind (fcntl sock (F_SETOWN tid)) (\<lambda>r. if r \<noteq> 0 then close_failed sock else ret 0)) ?B"
    by (rule runs_value_end [OF runs_fcntl]) (simp add: runs_ret)
  have tid: "runs c t0 [Given (R_gettid tid), Given (R_fcntl 0)] ?A (io_bind gettid (\<lambda>tid.
     io_bind (fcntl sock (F_SETOWN tid)) (\<lambda>r. if r \<noteq> 0 then close_failed sock else ret 0))) ?B"
    by (rule runs_value [OF runs_gettid, where qs' = "[Given (R_fcntl 0)]", simplified]) (rule own)
  have sig: "runs c t0 [Given (R_fcntl 0), Given (R_gettid tid), Given (R_fcntl 0)] ?A (io_bind (fcntl sock (F_SETSIG SIGIO)) (\<lambda>r.
     if r \<noteq> 0 then close_failed sock else io_bind gettid (\<lambda>tid.
     io_bind (fcntl sock (F_SETOWN tid)) (\<lambda>r. if r \<noteq> 0 then close_failed sock else ret 0)))) ?B"
    by (rule runs_value [OF runs_fcntl [where n = 0], where qs' = "[Given (R_gettid tid), Given (R_fcntl 0)]", simplified])
      (simp add: tid)
  have fl: "runs c t0 [Given (R_fcntl 0), Given (R_fcntl 0), Given (R_gettid tid), Given (R_fcntl 0)] ?A
     (io_bind (fcntl sock (F_SETFL fl')) (\<lambda>r. if r \<noteq> 0 then close_failed sock
      else io_bind (fcntl sock (F_SETSIG SIGIO)) (\<lambda>r. if r \<noteq> 0 then close_failed sock else io_bind gettid (\<lambda>tid.
     io_bind (fcntl sock (F_SETOWN tid)) (\<lambda>r. if r \<noteq> 0 then close_failed sock else ret 0))))) ?B" for fl'
    by (rule runs_value [OF runs_fcntl [where n = 0], where qs' = "[Given (R_fcntl 0), Given (R_gettid tid), Given (R_fcntl 0)]", simplified])
      (use sig in simp)
  show ?thesis
    unfolding set_nonblock_def
    by (rule runs_value [OF runs_fcntl [where n = fl], where qs' = "[Given (R_fcntl 0), Given (R_fcntl 0), Given (R_gettid tid), Given (R_fcntl 0)]", simplified])
      (use fl in simp)
qed

lemma runs_set_async:
  "runs c t0 [Given (R_fcntl fl), Given (R_fcntl 0)] (stream P R S) (set_async sock) (\<lambda>r k t. r = 0 \<and> stream P R S k t)"
proof -
  have "runs c t0 [Given (R_fcntl 0)] (stream P R S) (io_bind (fcntl sock (F_SETFL f)) (\<lambda>r. if r \<noteq> 0 then close_failed sock else ret 0))
    (\<lambda>r k t. r = 0 \<and> stream P R S k t)" for f
    by (rule runs_value_end [OF runs_fcntl]) (simp add: runs_ret)
  then show ?thesis
    unfolding set_async_def
    by (intro runs_value [OF runs_fcntl [where n = fl], where qs' = "[Given (R_fcntl 0)]", simplified])
qed

text \<open>The whole coroutine, given what it does once the socket is ready.\<close>

lemma ends_connection:
  assumes "ends z c t0 qs (stream P R S) (io_then (serve_requests hash_order)
       (io_then (modify_st (\<lambda>s. s\<lparr>n_conn := n_conn s + 1\<rparr>)) (io_then curr_conn_close swap_to_main_ctx))) B"
  shows "ends z c t0 (setup_cues fl tid fl' @ qs) (stream P R S) (handle_one_connection hash_order) B"
proof -
  have sock: "runs c t0 [] (stream P R S) curr_conn_sock (\<lambda>_. stream P R S)"
    unfolding curr_conn_sock_def by (rule runs_curr_field)
  have "ends z c t0 ([] @ [Given (R_fcntl fl), Given (R_fcntl 0), Given (R_fcntl 0), Given (R_gettid tid), Given (R_fcntl 0)] @ [] @
      [Given (R_fcntl fl'), Given (R_fcntl 0)] @ qs) (stream P R S) (handle_one_connection hash_order) B"
    unfolding handle_one_connection_def
  proof (rule runs_ends [OF sock], rule runs_value_ends [OF runs_set_nonblock])
    show "ends z c t0 ([] @ [Given (R_fcntl fl'), Given (R_fcntl 0)] @ qs) (stream P R S) (if (0 :: int) \<noteq> 0 then stop_with (Exit EXIT_FAILURE)
     else io_bind curr_conn_sock (\<lambda>sock. io_bind (set_async sock) (\<lambda>r.
     if r \<noteq> 0 then stop_with (Exit EXIT_FAILURE)
     else io_then (serve_requests hash_order) (io_then (modify_st (\<lambda>s. s\<lparr>n_conn := n_conn s + 1\<rparr>))
       (io_then curr_conn_close swap_to_main_ctx))))) B"
      by (simp only: simp_thms if_False, rule runs_ends [OF sock], rule runs_value_ends [OF runs_set_async])
        (use assms in simp)
  qed
  then show ?thesis by (simp add: setup_cues_def)
qed

section \<open>A whole visit\<close>

text \<open>
  A visit of a client: requests that ask to go on, and then either one that does not, or no more
  for now.
\<close>

definition visit :: "(header_map \<Rightarrow> header_map) \<Rightarrow> delivery list \<Rightarrow> delivery option \<Rightarrow> bool" where
  "visit hash_order xs final \<longleftrightarrow> session hash_order [] xs \<and>
     (case final of
        None \<Rightarrow> rest_of [] xs = []
      | Some y \<Rightarrow> delivered hash_order (rest_of [] xs) y (left_over (rest_of [] xs) y) \<and>
          WantKeepAlive (request_of y) = Inr False)"

definition requests_of :: "delivery list \<Rightarrow> delivery option \<Rightarrow> delivery list" where
  "requests_of xs final = xs @ (case final of None \<Rightarrow> [] | Some y \<Rightarrow> [y])"

definition visit_cues :: "int \<Rightarrow> int \<Rightarrow> int \<Rightarrow> delivery list \<Rightarrow> delivery option \<Rightarrow> cue list" where
  "visit_cues fl tid fl' xs final = setup_cues fl tid fl' @ session_cues xs @
     (case final of None \<Rightarrow> idle_cues | Some y \<Rightarrow> request_cues False y)"

definition visited :: "(header_map \<Rightarrow> header_map) \<Rightarrow> delivery list \<Rightarrow> delivery option \<Rightarrow> conn_t \<Rightarrow> event list \<Rightarrow> bool" where
  "visited hash_order xs final k t \<longleftrightarrow>
     recvd t = input_of (requests_of xs final) \<and> sent t = output_of hash_order (requests_of xs final) \<and>
     (case final of None \<Rightarrow> \<not> is_completed k | Some y \<Rightarrow> is_completed k \<and> Ev_close (conn_sock k) \<in> set t)"

lemma blocks_visit:
  assumes "visit hash_order xs final"
  shows "blocks c t0 (visit_cues fl tid fl' xs final) (stream [] [] []) (handle_one_connection hash_order)
    (visited hash_order xs final)"
proof (cases final)
  case None
  with assms have s: "session hash_order [] xs" "rest_of [] xs = []" by (simp_all add: visit_def)
  have "blocks c t0 (session_cues xs @ idle_cues) (stream [] [] []) (io_then (serve_requests hash_order)
       (io_then (modify_st (\<lambda>s. s\<lparr>n_conn := n_conn s + 1\<rparr>)) (io_then curr_conn_close swap_to_main_ctx)))
      (open_with (input_of xs) (output_of hash_order xs))"
    by (rule session_ends [OF s(1)]) (use s(2) serve_idle in simp)
  from ends_conseq [OF ends_connection [OF this]] None show ?thesis
    by (simp add: visit_cues_def visited_def open_with_def requests_of_def)
next
  case (Some y)
  with assms have s: "session hash_order [] xs"
    and y: "delivered hash_order (rest_of [] xs) y (left_over (rest_of [] xs) y)" "WantKeepAlive (request_of y) = Inr False"
    by (simp_all add: visit_def)
  have "blocks c t0 (session_cues xs @ request_cues False y) (stream [] [] []) (io_then (serve_requests hash_order)
       (io_then (modify_st (\<lambda>s. s\<lparr>n_conn := n_conn s + 1\<rparr>)) (io_then curr_conn_close swap_to_main_ctx)))
      (closed_with (input_of (xs @ [y])) (output_of hash_order (xs @ [y])))"
    by (rule session_ends [OF s]) (use serve_close [OF y] in simp)
  from ends_conseq [OF ends_connection [OF this]] Some show ?thesis
    by (simp add: visit_cues_def visited_def closed_with_def requests_of_def)
qed

lemma connection_visit:
  assumes "visit hash_order xs final" and "in_turn c t0 (st w)" and "unused_input c (st w) = []" and "trace w = []"
    and "list_all2 (fits c t0) (visit_cues fl tid fl' xs final) (script w)"
  shows "\<exists>v. handle_one_connection hash_order w = (Inl Suspended, v) \<and> script v = [] \<and>
    visited hash_order xs final (conns (st v) c) (trace v)"
  by (rule endsD [OF blocks_visit [OF assms(1)], OF assms(5,2)])
    (use assms(3,4) in \<open>auto simp: stream_def unused_input_def\<close>)

section \<open>A turn of the worker\<close>

lemma bury_returns:
  assumes "ctxt_inv (as @ c # bs) k [] (st w)"
  shows "\<exists>v. io_then (remove_conn_from_queue c) (free_closed_conn c) w = (Inr (), v) \<and> script v = script w"
proof -
  have h: "hoare (\<lambda>w. ctxt_inv (as @ c # bs) k [] (st w)) (io_then (remove_conn_from_queue c) (free_closed_conn c))
      (\<lambda>_ w. ctxt_inv (as @ bs) (given_up c k) [] (st w))"
    unfolding free_closed_conn_def by (rule hoare_then [OF hoare_remove_conn hoare_free_conn_ctx])
  obtain r v where run: "io_then (remove_conn_from_queue c) (free_closed_conn c) w = (r, v)" by fastforce
  then have "(r = Inr () \<or> (\<exists>f. r = Inl (Fault f))) \<and> script v = script w"
    by (auto simp: remove_conn_from_queue_def free_closed_conn_def free_conn_ctx_def lift_links_def io_then_def io_bind_def
        gets_st_def modify_st_def stop_with_def split: option.splits if_splits prod.splits sum.splits)
  with hoare_no_fault [OF h assms] run show ?thesis by auto
qed

text \<open>A slice runs the coroutine as far as its answers go.\<close>

lemma slice_ends:
  assumes inv: "ctxt_inv q k [] (st w)" "c \<in> set q" "curr_conn (st w) = Some c" "\<not> is_completed (conns (st w) c)"
    and fresh: "\<not> started c (st w)" "unused_input c (st w) = []" and time: "on_time t0 (last_ctx_swap (st w))"
    and e: "ends z c t0 qs (stream [] [] []) (handle_one_connection hash_order) B" "list_all2 (fits c t0) qs rs"
    and rs: "filter is_resume rs = []"
  shows "\<exists>s'. run_slice hash_order c rs w =
      (slice_outcome (Inl z), w\<lparr>st := s', trace := trace w @ co_trace s' c\<rparr>) \<and> B (conns s' c) (co_trace s' c)"
proof -
  let ?s0 = "enter_ctx c (st w)"
  let ?w = "\<lparr>script = rs, st = ?s0, trace = []\<rparr>"
  have "in_turn c t0 (st ?w)"
    using inv time ctxt_inv_layout [OF inv(1), of c]
    by (simp add: in_turn_def own_ok_def) (simp add: enter_ctx_def srv_state.truncate_def)
  moreover have "stream [] [] [] (conns (st ?w) c) (trace ?w)"
    using fresh(2) by (simp add: stream_def unused_input_def enter_ctx_def srv_state.truncate_def)
  ultimately obtain u where u: "handle_one_connection hash_order ?w = (Inl z, u)" "script u = []"
    "B (conns (st u) c) (trace u)"
    using endsD [OF e(1), of ?w] e(2) by auto
  let ?s' = "put_back c (R_resume (\<lambda>_. ?s0) # rs) (trace u) (st u) (st w)"
  have "run_slice hash_order c rs w = (slice_outcome (Inl z), w\<lparr>st := ?s', trace := trace w @ trace u\<rparr>)"
    using rs fresh(1) u(1,2) by (simp add: run_slice_def Let_def past_of_def past_trace_def co_main_start)
  with u(3) show ?thesis by (intro exI [of _ ?s']) simp
qed

text \<open>The world a turn's slice starts in.\<close>

definition entered :: "nat \<Rightarrow> resp list \<Rightarrow> (resp, sched_state, event) world \<Rightarrow> (resp, sched_state, event) world" where
  "entered c rest w = w\<lparr>st := (st w)\<lparr>curr_conn := Some c\<rparr>, trace := trace w @ [Ev_enter c], script := rest\<rparr>"

lemma script_entered [simp]: "script (entered c rest w) = rest"
  by (simp add: entered_def)

lemma swap_enters:
  "script w = R_slice rs # rest \<Longrightarrow> swap_to_conn_ctx hash_order c w =
    io_then (run_slice hash_order c rs) (io_bind curr_time (\<lambda>now. modify_st (\<lambda>s. s\<lparr>last_ctx_swap := now\<rparr>)))
      (entered c rest w)"
  by (simp add: swap_to_conn_ctx_def entered_def io_then_def io_bind_def modify_st_def emit_def answer_def)

lemma entered_slice:
  assumes inv: "sched_inv hash_order (as @ c # bs) k (st w)"
    and fresh: "\<not> started c (st w)" "unused_input c (st w) = []" and time: "on_time t0 (last_ctx_swap (st w))"
    and e: "ends z c t0 qs (stream [] [] []) (handle_one_connection hash_order) B" "list_all2 (fits c t0) qs rs"
    and rs: "filter is_resume rs = []"
  obtains s' where "run_slice hash_order c rs (entered c rest w) =
      (slice_outcome (Inl z), (entered c rest w)\<lparr>st := s', trace := trace w @ Ev_enter c # co_trace s' c\<rparr>)"
    "B (conns s' c) (co_trace s' c)"
proof -
  let ?w = "entered c rest w"
  have "ctxt_inv (as @ c # bs) k [] (st ?w)" "c \<in> set (as @ c # bs)" "curr_conn (st ?w) = Some c"
    "\<not> is_completed (conns (st ?w) c)" "\<not> started c (st ?w)" "unused_input c (st ?w) = []"
    "on_time t0 (last_ctx_swap (st ?w))"
    using inv fresh time by (simp_all add: entered_def sched_inv_def ctxt_inv_frame started_def unused_input_def)
  from slice_ends [OF this e rs] that show ?thesis by (auto simp: entered_def)
qed

lemma turn_visit:
  assumes inv: "sched_inv hash_order (as @ c # bs) k (st w)"
    and fresh: "\<not> started c (st w)" "unused_input c (st w) = []" and time: "on_time t0 (last_ctx_swap (st w))"
    and v: "visit hash_order xs final" "list_all2 (fits c t0) (visit_cues fl tid fl' xs final) rs"
    and rs: "filter is_resume rs = []" and sc: "script w = R_slice rs # R_clock s n # rest" "clock_ok s n"
  shows "\<exists>v k'. turn hash_order (ConnNode c) w = (Inr (), v) \<and> script v = rest \<and>
    recvd (co_trace (st v) c) = input_of (requests_of xs final) \<and>
    sent (co_trace (st v) c) = output_of hash_order (requests_of xs final) \<and>
    sched_inv hash_order (if final = None then as @ c # bs else as @ bs) k' (st v)"
proof -
  let ?q = "as @ c # bs"
  let ?w = "entered c (R_clock s n # rest) w"
  from entered_slice [OF inv fresh time blocks_visit [OF v(1)] v(2) rs] obtain s' where
    sl: "run_slice hash_order c rs ?w = (Inr (), ?w\<lparr>st := s', trace := trace w @ Ev_enter c # co_trace s' c\<rparr>)"
    and dn: "visited hash_order xs final (conns s' c) (co_trace s' c)" by auto
  define w2 where "w2 = ?w\<lparr>script := rest, st := s'\<lparr>last_ctx_swap := s * 1000000000 + n\<rparr>,
      trace := trace w @ Ev_enter c # co_trace s' c\<rparr>"
  have swap: "swap_to_conn_ctx hash_order c w = (Inr (), w2)"
    unfolding swap_enters [OF sc(1)] w2_def
    by (simp add: io_then_def io_bind_def sl curr_time_def modify_st_def answer_def ret_def sc(2))
  have "sched_inv hash_order ?q k (st w) \<and> c \<in> set ?q \<and> st w = st w" using inv by simp
  from workerD [OF worker_swap this swap] have t2: "turned hash_order ?q k c (st w) (st w2)" by simp
  have tr: "turn hash_order (ConnNode c) w = io_when (is_completed (conns (st w2) c))
      (io_then (remove_conn_from_queue c) (free_closed_conn c)) w2"
    using swap by (simp add: turn_def io_then_def io_bind_def gets_st_def)
  show ?thesis
  proof (cases final)
    case None
    with dn have "\<not> is_completed (conns (st w2) c)" by (simp add: visited_def w2_def)
    with None dn t2 tr show ?thesis
      by (intro exI [of _ w2] exI [of _ k]) (auto simp: io_when_def ret_def visited_def w2_def turned_def sched_inv_def)
  next
    case (Some y)
    with dn have comp: "is_completed (conns (st w2) c)" by (simp add: visited_def w2_def)
    have "ctxt_inv ?q k [] (st w2)" using t2 by (simp add: turned_def)
    from bury_returns [OF this] obtain v where b: "io_then (remove_conn_from_queue c) (free_closed_conn c) w2 = (Inr (), v)"
      and sv: "script v = rest" by (auto simp: w2_def)
    have "keeps same_records (io_then (remove_conn_from_queue c) (free_closed_conn c))"
      by (intro sr.keeps_then sr_remove sr_free)
    from keepsD [where m = "io_then (remove_conn_from_queue c) (free_closed_conn c)", OF this b]
    have same: "same_records w2 v" .
    from workerD [OF worker_bury _ b, of hash_order as bs k "st w"] t2 comp
    have k': "sched_inv hash_order (as @ bs) (given_up c k) (st v)" by (simp add: turn_over_def)
    from same sched_more [of "st v" "st w2"] have "co_trace (st v) c = co_trace s' c"
      by (simp only: same_records_def) (simp add: w2_def)
    moreover have "turn hash_order (ConnNode c) w = (Inr (), v)" using tr b comp by (simp only: io_when_True)
    ultimately show ?thesis
      using sv k' dn Some by (intro exI [of _ v] exI [of _ "given_up c k"]) (simp add: visited_def)
  qed
qed

section \<open>A request that ends the worker\<close>

text \<open>
  \<open>DELETE\<close> is a method the server knows and does not implement: the text of its status code lies
  past the end of the table.
\<close>

definition delete_arrives :: "bytes \<Rightarrow> delivery \<Rightarrow> bytes \<Rightarrow> bool" where
  "delete_arrives P y P' \<longleftrightarrow> header_arrives P (pieces_in y) (header y) P' \<and> IsOk (request_of y) \<and>
     get_method_token (header y) = ''DELETE'' \<and> date_ok (date_now y)"

definition delete_cues :: "delivery \<Rightarrow> cue list" where
  "delete_cues y = hdr_cues (pieces_in y) @ [Given (R_date (date_now y))]"

lemma delete_response:
  assumes "delete_arrives P y P'"
  shows "MakeResponse (date_now y) (request_of y) = Inl (Vector_index 501)" and "\<not> MethodHasBody (get_method_token (header y))"
proof -
  from assms have ok: "IsOk (request_of_header (header y))" and d: "date_ok (date_now y)"
    and m: "get_method_token (header y) = ''DELETE''" by (simp_all add: delete_arrives_def request_of_def)
  from request_of_header_valid [OF ok] m have f: "fields_ok (request_of y)"
    and t: "map_of methods_info ''DELETE'' = Some (req_class (request_of y), MethodHasBody (get_method_token (header y)))"
    by (auto simp: request_ok_def request_of_def)
  from t have "req_class (request_of y) = Delete_msg" and "\<not> MethodHasBody (get_method_token (header y))"
    by (auto simp: methods_info_def)
  with MakeResponse_valid [OF ok f [unfolded request_of_def] d]
  show "MakeResponse (date_now y) (request_of y) = Inl (Vector_index 501)"
    and "\<not> MethodHasBody (get_method_token (header y))" by (simp_all add: request_of_def)
qed

lemma ends_delete:
  assumes y: "delete_arrives P y P'"
  shows "ends (Fault (Vector_index 501)) c t0 (delete_cues y) (stream P R S)
    (handle_one_client_request hash_order) (open_with (R @ bytes_of (pieces_in y)) S)"
proof -
  let ?A = "stream P' (R @ bytes_of (pieces_in y)) S"
  from y have h: "header_arrives P (pieces_in y) (header y) P'" "date_ok (date_now y)"
    by (simp_all add: delete_arrives_def)
  then have h2: "header y \<noteq> []" by (simp add: header_arrives_def)
  have get: "runs c t0 (hdr_cues (pieces_in y)) (stream P R S) recv_http_msg (\<lambda>r k t. r = Some (request_of y) \<and> ?A k t)"
    unfolding recv_http_msg_def
    by (rule runs_value_end [OF runs_recv_http_hdr [OF h(1)]])
      (use h2 delete_response(2) [OF y] in \<open>auto simp: Let_def request_of_def intro!: runs_ret\<close>)
  have "ends (Fault (Vector_index 501)) c t0 [] ?A (stop_with (Fault (Vector_index 501)))
      (open_with (R @ bytes_of (pieces_in y)) S)"
    by (rule endsI) (auto simp: stop_with_def open_with_def stream_def in_turn_def)
  then have "ends (Fault (Vector_index 501)) c t0 [] ?A
      (io_bind (lift_fault (MakeResponse (date_now y) (request_of y))) f) (open_with (R @ bytes_of (pieces_in y)) S)" for f
    by (intro ends_bind) (simp add: delete_response(1) [OF y] lift_fault_def)
  then have "ends (Fault (Vector_index 501)) c t0 ([Given (R_date (date_now y))] @ []) ?A
    (io_bind format_date_hdr (\<lambda>date. io_bind (lift_fault (MakeResponse date (request_of y))) (f date)))
    (open_with (R @ bytes_of (pieces_in y)) S)" for f
    by (intro runs_value_ends [OF runs_format_date [OF h(2)]])
  then show ?thesis
    unfolding handle_one_client_request_def delete_cues_def
    by (intro runs_value_ends [OF get]) simp
qed

lemma connection_delete:
  assumes "session hash_order [] xs" and y: "delete_arrives (rest_of [] xs) y P'"
  shows "ends (Fault (Vector_index 501)) c t0 (setup_cues fl tid fl' @ session_cues xs @ delete_cues y) (stream [] [] [])
    (handle_one_connection hash_order) (open_with (input_of (xs @ [y])) (output_of hash_order xs))"
proof (rule ends_connection, rule session_ends [OF assms(1)])
  show "ends (Fault (Vector_index 501)) c t0 (delete_cues y) (stream (rest_of [] xs) ([] @ input_of xs) ([] @ output_of hash_order xs))
    (io_then (serve_requests hash_order)
       (io_then (modify_st (\<lambda>s. s\<lparr>n_conn := n_conn s + 1\<rparr>)) (io_then curr_conn_close swap_to_main_ctx)))
    (open_with (input_of (xs @ [y])) (output_of hash_order xs))"
    unfolding serve_requests_def
    using ends_delete [OF y, of c t0 "input_of xs" "output_of hash_order xs"]
    by (intro ends_then ends_loop ends_bind) simp
qed

lemma turn_delete:
  assumes inv: "sched_inv hash_order (as @ c # bs) k (st w)"
    and fresh: "\<not> started c (st w)" "unused_input c (st w) = []" and time: "on_time t0 (last_ctx_swap (st w))"
    and v: "session hash_order [] xs" "delete_arrives (rest_of [] xs) y P'"
    and f: "list_all2 (fits c t0) (setup_cues fl tid fl' @ session_cues xs @ delete_cues y) rs"
    and rs: "filter is_resume rs = []" and sc: "script w = R_slice rs # rest"
  shows "\<exists>v. turn hash_order (ConnNode c) w = (Inl (Fault (Vector_index 501)), v) \<and>
    recvd (co_trace (st v) c) = input_of (xs @ [y]) \<and> sent (co_trace (st v) c) = output_of hash_order xs"
proof -
  from entered_slice [OF inv fresh time connection_delete [OF v] f rs] obtain s' where
    "run_slice hash_order c rs (entered c rest w) = (Inl (Fault (Vector_index 501)),
      (entered c rest w)\<lparr>st := s', trace := trace w @ Ev_enter c # co_trace s' c\<rparr>)"
    and "open_with (input_of (xs @ [y])) (output_of hash_order xs) (conns s' c) (co_trace s' c)" by auto
  then show ?thesis
    using swap_enters [OF sc, of hash_order c]
    by (auto simp: turn_def io_then_def io_bind_def open_with_def)
qed

section \<open>Visits without waits\<close>

text \<open>Where nothing has to wait, the answers of a visit fit in one slice.\<close>

fun at_once :: "cue \<Rightarrow> bool" where
  "at_once Resumed = False"
| "at_once (Given a) = (\<not> is_resume a)"
| "at_once q = True"

lemma at_once_slice:
  assumes "list_all2 (fits c t0) qs rs" and "list_all at_once qs"
  shows "filter is_resume rs = []"
  using assms
proof (induction rule: list_all2_induct)
  case (Cons q qs r rs)
  then have "\<not> is_resume r" by (cases q) auto
  with Cons show ?case by simp
qed simp

lemma at_once_pieces: "\<forall>(j, d) \<in> set ds. j = 0 \<Longrightarrow> list_all at_once (piece_cues ds)"
  by (induction ds) (auto simp: again_def)

lemma at_once_parts: "\<forall>(j, m) \<in> set ps. j = 0 \<Longrightarrow> list_all at_once (part_cues ps)"
  by (induction ps) (auto simp: again_def)

lemma at_once_msg: "\<forall>ps \<in> set pss. \<forall>(j, m) \<in> set ps. j = 0 \<Longrightarrow> list_all at_once (msg_cues pss)"
  by (induction pss) (simp_all add: msg_cues_def packet_cues_def at_once_parts)

lemma at_once_request:
  "\<forall>(j, d) \<in> set (pieces_in x). j = 0 \<Longrightarrow> \<forall>ps \<in> set (parts_out x). \<forall>(j, m) \<in> set ps. j = 0 \<Longrightarrow> list_all at_once (request_cues keep x)"
  by (simp add: request_cues_def hdr_cues_def at_once_pieces at_once_msg)

lemma at_once_visit:
  assumes "\<forall>x \<in> set (requests_of xs final). (\<forall>(j, d) \<in> set (pieces_in x). j = 0) \<and> (\<forall>ps \<in> set (parts_out x). \<forall>(j, m) \<in> set ps. j = 0)"
  shows "list_all at_once (visit_cues fl tid fl' xs final)"
proof -
  have r: "list_all at_once (request_cues keep x)" if "x \<in> set (requests_of xs final)" for keep x
    using assms that by (intro at_once_request) blast+
  have "list_all at_once (session_cues ys)" if "set ys \<subseteq> set (requests_of xs final)" for ys
    using that by (induction ys) (simp_all add: session_cues_def r)
  then have "list_all at_once (session_cues xs)" by (simp add: requests_of_def)
  with r show ?thesis
    by (cases final) (simp_all add: visit_cues_def setup_cues_def idle_cues_def requests_of_def)
qed

end
