(* ===== verification/Config.thy ===== *)
theory Config
  imports Sock
begin

text \<open>
  \<open>srv_async/srv_config.c\<close>: the configuration of the server, its file and its command line.
  \<open>SRV_CONFIG\<close> is the state; the calls whose results come from outside (\<open>malloc\<close>, \<open>fopen\<close>, the
  text of the configuration file) take their answers from the script. \<open>atoi\<close>, \<open>fgets\<close> and
  \<open>getopt\<close> are written out as the library documents them. What is only printed is not modelled.
\<close>

section \<open>State, answers and events of the main process\<close>

datatype stream_file = Stdout | Log_file int

record srv_config_t =
  port :: int
  num_workers :: int
  log_file_name :: "string option"
  log_file_desc :: "stream_file option"
  log_level :: int
  help_opt :: bool

datatype main_resp =
    A_malloc bool                \<comment> \<open>whether the memory was there\<close>
  | A_fopen int                  \<comment> \<open>the opened file\<close>
  | A_fopen_err errno
  | A_config "string option"     \<comment> \<open>the text of the configuration file, if it can be opened\<close>
  | A_sock int                   \<comment> \<open>the result of a socket call\<close>
  | A_fork int
  | A_wait int int               \<comment> \<open>result and status\<close>

datatype worker_end = Exited_with int | Terminated_by int

datatype main_event =
    Me_fopen string
  | Me_fclose stream_file
  | Me_usage string              \<comment> \<open>the help text, on either stream\<close>
  | Me_config int int
  | Me_sock sock_call
  | Me_fork
  | Me_report stream_file int worker_end
  | Me_fflush "stream_file option"

type_synonym 'a main_io = "(main_resp, srv_config_t, main_event, 'a) io"

definition MAX_LINE_LEN :: nat where
  [srv_consts]: "MAX_LINE_LEN = 1024"

definition ERANGE :: errno where "ERANGE = 34"
definition ENOMEM :: errno where "ENOMEM = 12"
definition ENOENT :: errno where "ENOENT = 2"
definition EINVAL :: errno where "EINVAL = 22"

definition HELP_MSG :: string where
  "HELP_MSG =
     ''Supported cmdline options for server:'' @ [LF] @
     ''-w ('num_workers') NUM_WORKERS - number of worker processes '' @
     ''to create, should be from 1 to 1000'' @ [LF] @
     ''-p ('port') PORT_NUM - port number to listen on server, '' @
     ''should be from 1 to 65536 (max valid port)'' @ [LF] @
     ''-f ('log_file') path_to_log_file - file for reporting errors '' @
     ''and info'' @ [LF] @
     ''-l ('log_level') log_level - verbosity of info prints in log'' @ [LF] @
     ''-h - get this help'' @ [LF]"

section \<open>The library functions\<close>

text \<open>\<open>atoi\<close> has no defined result where the number does not fit an \<open>int\<close>.\<close>

definition atoi :: "string \<Rightarrow> fault + int" where
  "atoi s =
     (let t = dropWhile isspace s;
          (neg, u) = (case t of
             c # r \<Rightarrow> if c = CHR ''-'' then (True, r) else if c = CHR ''+'' then (False, r) else (False, t)
           | [] \<Rightarrow> (False, []));
          n = int (digits_val (takeWhile is_digit u));
          v = (if neg then - n else n) in
      if - (2 ^ 31) \<le> v \<and> v < 2 ^ 31 then Inr v else Inl Undefined_value)"

text \<open>The text a pointer to \<open>s\<close> denotes: up to the terminating zero.\<close>

definition c_string :: "string \<Rightarrow> string" where
  "c_string s = takeWhile (\<lambda>c. c \<noteq> NUL) s"

definition fgets :: "nat \<Rightarrow> string \<Rightarrow> (string \<times> string) option" where
  "fgets n s =
     (if s = [] then None
      else let line = takeWhile (\<lambda>c. c \<noteq> LF) s;
               chunk = take (n - 1) (if length line < length s then line @ [LF] else line) in
        Some (chunk, drop (length chunk) s))"

text \<open>
  \<open>getopt\<close> with the option string \<open>w:p:f:l:h\<close>, called until it returns -1: the options in the
  order it returns them, each with its argument; an unknown option or a missing argument is a
  question mark. Other arguments are skipped, as they are permuted to the end.
\<close>

definition opt_kind :: "char \<Rightarrow> bool option" where
  "opt_kind c =
     (if c \<in> {CHR ''w'', CHR ''p'', CHR ''f'', CHR ''l''} then Some True
      else if c = CHR ''h'' then Some False else None)"

fun getopt_cluster :: "string \<Rightarrow> string list \<Rightarrow> (char \<times> string) list \<times> string list" where
  "getopt_cluster [] args = ([], args)"
| "getopt_cluster (c # cs) args =
     (case opt_kind c of
        None \<Rightarrow> (case getopt_cluster cs args of (os, rest) \<Rightarrow> ((CHR ''?'', []) # os, rest))
      | Some False \<Rightarrow> (case getopt_cluster cs args of (os, rest) \<Rightarrow> ((c, []) # os, rest))
      | Some True \<Rightarrow>
          if cs \<noteq> [] then ([(c, cs)], args)
          else case args of [] \<Rightarrow> ([(CHR ''?'', [])], []) | a # rest \<Rightarrow> ([(c, a)], rest))"

lemma getopt_cluster_rest: "length (snd (getopt_cluster cs args)) \<le> length args"
  by (induction cs args rule: getopt_cluster.induct) (auto split: prod.splits option.splits bool.splits list.splits)

lemma getopt_cluster_result: "(os, rest) = getopt_cluster cs args \<Longrightarrow> length rest < Suc (length args)"
  using getopt_cluster_rest [of cs args] by (metis less_Suc_eq_le snd_conv)

function getopt_all :: "string list \<Rightarrow> (char \<times> string) list" where
  "getopt_all args =
     (case args of
        [] \<Rightarrow> []
      | a # rest \<Rightarrow>
          if a = ''--'' then []
          else if a \<noteq> [] \<and> List.hd a = CHR ''-'' \<and> tl a \<noteq> []
          then (case getopt_cluster (tl a) rest of (os, rest') \<Rightarrow> os @ getopt_all rest')
          else getopt_all rest)"
  by pat_completeness auto
termination
  by (relation "measure length") (auto dest: getopt_cluster_result)

declare getopt_all.simps [simp del]

section \<open>Values\<close>

text \<open>The result is the error code, or the value for \<open>*val\<close>.\<close>

definition parse_range_value :: "string \<Rightarrow> int \<Rightarrow> int \<Rightarrow> (errno + int) main_io" where
  "parse_range_value val_str min_val max_val =
     io_bind (lift_fault (atoi val_str)) (\<lambda>tmp.
       if tmp < min_val \<or> tmp > max_val then ret (Inl (- ERANGE)) else ret (Inr tmp))"

definition parse_log_file_name :: "string \<Rightarrow> int main_io" where
  "parse_log_file_name val_str =
     io_bind (answer Wait) (\<lambda>r. case r of
       A_malloc False \<Rightarrow> io_then (modify_st (\<lambda>s. s\<lparr>log_file_name := None\<rparr>)) (ret (- ENOMEM))
     | A_malloc True \<Rightarrow>
         io_then (modify_st (\<lambda>s. s\<lparr>log_file_name := Some val_str\<rparr>))
         (io_then (emit (Me_fopen val_str))
         (io_bind (answer Wait) (\<lambda>r. case r of
            A_fopen h \<Rightarrow> io_then (modify_st (\<lambda>s. s\<lparr>log_file_desc := Some (Log_file h)\<rparr>)) (ret 0)
          | A_fopen_err e \<Rightarrow>
              if e > 0 then io_then (modify_st (\<lambda>s. s\<lparr>log_file_desc := None\<rparr>)) (ret (- e))
              else stop_with Mismatch
          | _ \<Rightarrow> stop_with Mismatch)))
     | _ \<Rightarrow> stop_with Mismatch)"

text \<open>The three lines that every numeric option and key has: parse, return on error, store.\<close>

definition set_range :: "string \<Rightarrow> int \<Rightarrow> int \<Rightarrow> (int \<Rightarrow> srv_config_t \<Rightarrow> srv_config_t) \<Rightarrow> int main_io" where
  "set_range val_str min_val max_val store =
     io_bind (parse_range_value val_str min_val max_val) (\<lambda>r. case r of
       Inl e \<Rightarrow> ret e
     | Inr v \<Rightarrow> io_then (modify_st (store v)) (ret 0))"

section \<open>The command line\<close>

text \<open>One round of the loop: the return value of the function, or nothing when the loop goes on.\<close>

definition apply_opt :: "char \<Rightarrow> string \<Rightarrow> int option main_io" where
  "apply_opt c optarg =
     (let return_on_error = (\<lambda>r. ret (if r \<noteq> 0 then Some r else None)) in
      if c = CHR ''w''
      then io_bind (set_range optarg 1 MAX_NUM_WORKERS (\<lambda>v s. s\<lparr>num_workers := v\<rparr>)) return_on_error
      else if c = CHR ''p''
      then io_bind (set_range optarg 1 65535 (\<lambda>v s. s\<lparr>port := v\<rparr>)) return_on_error
      else if c = CHR ''f'' then io_bind (parse_log_file_name optarg) return_on_error
      else if c = CHR ''l''
      then io_bind (set_range optarg (level_code LOG_ERROR) (level_code LOG_INFO2)
             (\<lambda>v s. s\<lparr>log_level := v\<rparr>)) return_on_error
      else if c = CHR ''h'' then io_then (modify_st (\<lambda>s. s\<lparr>help_opt := True\<rparr>)) (ret None)
      else io_then (modify_st (\<lambda>s. s\<lparr>help_opt := True\<rparr>)) (ret (Some (- EINVAL))))"

fun opts_loop :: "(char \<times> string) list \<Rightarrow> int main_io" where
  "opts_loop [] = ret 0"
| "opts_loop ((c, optarg) # os) =
     io_bind (apply_opt c optarg) (\<lambda>r. case r of Some e \<Rightarrow> ret e | None \<Rightarrow> opts_loop os)"

definition parse_srv_cmdline_opts :: "string list \<Rightarrow> int main_io" where
  "parse_srv_cmdline_opts args = opts_loop (getopt_all args)"

section \<open>The configuration file\<close>

text \<open>
  \<open>trim_spaces\<close> works in place: \<open>c\<close> is where it writes, \<open>c + w\<close> where it reads.
\<close>

function trim_loop :: "string \<Rightarrow> nat \<Rightarrow> nat \<Rightarrow> fault + string" where
  "trim_loop s c w =
     (if length s \<le> c + w then Inl (Out_of_bounds (int (c + w)))
      else if s ! (c + w) \<noteq> NUL \<and> s ! (c + w) \<noteq> LF
      then if isspace (s ! (c + w)) then trim_loop s c (w + 1)
           else trim_loop (s[c := s ! (c + w)]) (c + 1) w
      else Inr (s[c := NUL]))"
  by pat_completeness auto
termination
  by (relation "measure (\<lambda>(s, c, w). length s - (c + w))") auto

declare trim_loop.simps [simp del]

definition trim_spaces_in_place :: "string \<Rightarrow> fault + string" where
  "trim_spaces_in_place s = trim_loop s 0 0"

definition starts_blank :: "string \<Rightarrow> bool" where
  "starts_blank s \<longleftrightarrow> s = [] \<or> List.hd s = LF"

definition parse_srv_config_line :: "string \<Rightarrow> int main_io" where
  "parse_srv_config_line line =
     io_bind (lift_fault (trim_spaces_in_place line)) (\<lambda>buf.
       let key = c_string buf in
       if starts_blank key \<or> List.hd key = CHR ''#'' then ret 0
       else case find_char (CHR '':'') key of
         None \<Rightarrow> ret 0
       | Some colon \<Rightarrow>
           let val_str = drop (colon + 1) key; key = take colon key in
           if starts_blank val_str then ret 0
           else if key = ''port'' then set_range val_str 1 65535 (\<lambda>v s. s\<lparr>port := v\<rparr>)
           else if key = ''num_workers''
           then set_range val_str 1 MAX_NUM_WORKERS (\<lambda>v s. s\<lparr>num_workers := v\<rparr>)
           else if key = ''log_file'' then parse_log_file_name val_str
           else if key = ''log_level''
           then set_range val_str (level_code LOG_ERROR) (level_code LOG_INFO2)
                  (\<lambda>v s. s\<lparr>log_level := v\<rparr>)
           else ret 0)"

text \<open>The \<open>while\<close> loop over the lines of the file, which \<open>fgets\<close> hands out with a zero behind.\<close>

lemma fgets_shorter:
  assumes "fgets n s = Some (line, rest)" and "1 < n"
  shows "length rest < length s"
  using assms by (cases s) (auto simp: fgets_def Let_def split: if_splits)

function config_loop :: "string \<Rightarrow> int \<Rightarrow> int main_io" where
  "config_loop s r =
     (case fgets MAX_LINE_LEN s of
        None \<Rightarrow> ret r
      | Some (line, rest) \<Rightarrow>
          io_bind (parse_srv_config_line (line @ [NUL])) (\<lambda>r'. if r' < 0 then ret r' else config_loop rest r'))"
  by pat_completeness auto
termination
  by (relation "measure (\<lambda>(s, r). length s)") (auto dest!: fgets_shorter simp: srv_consts)

declare config_loop.simps [simp del]

definition parse_srv_config :: "int main_io" where
  "parse_srv_config =
     io_bind (answer Wait) (\<lambda>r. case r of
       A_config None \<Rightarrow> ret (- ENOENT)
     | A_config (Some s) \<Rightarrow> config_loop s 0
     | _ \<Rightarrow> stop_with Mismatch)"

section \<open>Trimming\<close>

lemma trim_loop_result:
  assumes "NUL \<in> set (drop (c + w) s)"
  shows "trim_loop s c w =
    (let f = filter (\<lambda>x. \<not> isspace x) (takeWhile (\<lambda>x. x \<noteq> NUL \<and> x \<noteq> LF) (drop (c + w) s)) in
     Inr (take c s @ f @ NUL # drop (Suc (c + length f)) s))"
  using assms
proof (induction s c w rule: trim_loop.induct)
  case (1 s c w)
  from 1(3) have len: "c + w < length s" by (cases "c + w < length s") auto
  have d: "drop (c + w) s = s ! (c + w) # drop (Suc (c + w)) s" using len by (rule Cons_nth_drop_Suc [symmetric])
  show ?case
  proof (cases "s ! (c + w) \<noteq> NUL \<and> s ! (c + w) \<noteq> LF")
    case False
    with len show ?thesis by (subst trim_loop.simps) (auto simp: d Let_def upd_conv_take_nth_drop)
  next
    case True
    with 1(3) have nul: "NUL \<in> set (drop (Suc (c + w)) s)" by (auto simp: d)
    show ?thesis
    proof (cases "isspace (s ! (c + w))")
      case sp: True
      have "trim_loop s c w = trim_loop s c (w + 1)"
        using len True sp by (subst trim_loop.simps) simp
      with 1(1) [of] len True sp nul show ?thesis by (simp add: d Let_def)
    next
      case sp: False
      let ?s = "s[c := s ! (c + w)]"
      have "trim_loop s c w = trim_loop ?s (c + 1) w"
        using len True sp by (subst trim_loop.simps) simp
      moreover have "drop (Suc (c + w)) ?s = drop (Suc (c + w)) s" by simp
      moreover have "take (Suc c) ?s = take c s @ [s ! (c + w)]"
        using len by (simp add: take_Suc_conv_app_nth)
      ultimately show ?thesis
        using 1(2) len True sp nul by (simp add: d Let_def)
    qed
  qed
qed

text \<open>What the text of a line is after trimming: no white space is left anywhere, not only around it.\<close>

definition squeezed :: "string \<Rightarrow> string" where
  "squeezed s = filter (\<lambda>x. \<not> isspace x) (takeWhile (\<lambda>x. x \<noteq> NUL \<and> x \<noteq> LF) s)"

lemma squeezed_NUL: "NUL \<notin> set (squeezed s)"
  by (auto simp: squeezed_def dest: set_takeWhileD)

lemma trim_squeezes:
  assumes "NUL \<in> set s"
  shows "\<exists>buf. trim_spaces_in_place s = Inr buf \<and> c_string buf = squeezed s"
proof -
  have "trim_spaces_in_place s = Inr (squeezed s @ NUL # drop (Suc (length (squeezed s))) s)"
    using trim_loop_result [of 0 0 s] assms by (simp add: trim_spaces_in_place_def squeezed_def Let_def)
  moreover have "c_string (squeezed s @ NUL # x) = squeezed s" for x
    unfolding c_string_def using squeezed_NUL [of s] by (subst takeWhile_append2) auto
  ultimately show ?thesis by blast
qed

section \<open>The values stay in range\<close>

definition config_ok :: "srv_config_t \<Rightarrow> bool" where
  "config_ok s \<longleftrightarrow> 1 \<le> port s \<and> port s \<le> 65535 \<and> 1 \<le> num_workers s \<and> num_workers s \<le> MAX_NUM_WORKERS \<and>
     level_code LOG_ERROR \<le> log_level s \<and> log_level s \<le> level_code LOG_INFO2"

text \<open>The parsers keep this, and start no worker.\<close>

definition forks :: "main_event list \<Rightarrow> nat" where
  "forks t = length (filter (\<lambda>e. e = Me_fork) t)"

lemma forks_simps [simp]:
  "forks [] = 0" "forks (t @ t') = forks t + forks t'" "forks [e] = (if e = Me_fork then 1 else 0)"
  "forks (replicate n Me_fork) = n"
  by (simp_all add: forks_def)

fun sock_call_of :: "main_event \<Rightarrow> sock_call list" where
  "sock_call_of (Me_sock op) = [op]"
| "sock_call_of _ = []"

definition sock_calls :: "main_event list \<Rightarrow> sock_call list" where
  "sock_calls t = concat (map sock_call_of t)"

lemma sock_calls_simps [simp]:
  "sock_calls [] = []" "sock_calls (t @ t') = sock_calls t @ sock_calls t'" "sock_calls [e] = sock_call_of e"
  "sock_calls (replicate n Me_fork) = []"
  by (simp_all add: sock_calls_def)

definition keeps_config :: "('r, srv_config_t, main_event) world \<Rightarrow> ('r, srv_config_t, main_event) world \<Rightarrow> bool" where
  "keeps_config w v \<longleftrightarrow> (config_ok (st w) \<longrightarrow> config_ok (st v)) \<and> forks (trace v) = forks (trace w) \<and>
     sock_calls (trace v) = sock_calls (trace w) \<and> suffix (script v) (script w)"

interpretation cfg: world_preorder keeps_config
  by unfold_locales (auto simp: keeps_config_def)

lemma cfg_modify: "(\<And>s. config_ok s \<Longrightarrow> config_ok (f s)) \<Longrightarrow> keeps keeps_config (modify_st f)"
  by (rule keepsI) (auto simp: modify_st_def keeps_config_def)

lemma cfg_emit: "e \<noteq> Me_fork \<Longrightarrow> sock_call_of e = [] \<Longrightarrow> keeps keeps_config (emit e)"
  by (rule keepsI) (auto simp: emit_def keeps_config_def)

lemma cfg_answer: "keeps keeps_config (answer s)"
  by (rule keepsI) (auto simp: answer_def keeps_config_def suffix_ConsI split: list.splits)

lemma cfg_lift_fault: "keeps keeps_config (lift_fault r)"
  by (cases r) (simp_all add: lift_fault_def cfg.keeps_ret cfg.keeps_stop)

lemma parse_range_result:
  "parse_range_value v lo hi w = (case atoi v of
     Inl f \<Rightarrow> (Inl (Fault f), w)
   | Inr n \<Rightarrow> if lo \<le> n \<and> n \<le> hi then (Inr (Inr n), w) else (Inr (Inl (- ERANGE)), w))"
  by (cases "atoi v") (auto simp: parse_range_value_def lift_fault_def io_exec)

lemma set_range_result:
  "set_range v lo hi store w = (case atoi v of
     Inl f \<Rightarrow> (Inl (Fault f), w)
   | Inr n \<Rightarrow> if lo \<le> n \<and> n \<le> hi then (Inr 0, w\<lparr>st := store n (st w)\<rparr>) else (Inr (- ERANGE), w))"
proof (cases "atoi v")
  case (Inl f)
  then have "parse_range_value v lo hi w = (Inl (Fault f), w)" by (simp add: parse_range_result)
  with Inl show ?thesis by (simp add: set_range_def io_exec)
next
  case (Inr n)
  then have "parse_range_value v lo hi w =
      (if lo \<le> n \<and> n \<le> hi then (Inr (Inr n), w) else (Inr (Inl (- ERANGE)), w))" by (simp add: parse_range_result)
  with Inr show ?thesis by (cases "lo \<le> n \<and> n \<le> hi") (auto simp: set_range_def io_exec)
qed

lemma cfg_set_range:
  "(\<And>n s. config_ok s \<Longrightarrow> lo \<le> n \<Longrightarrow> n \<le> hi \<Longrightarrow> config_ok (store n s)) \<Longrightarrow>
    keeps keeps_config (set_range v lo hi store)"
  by (rule keepsI) (auto simp: set_range_result keeps_config_def split: sum.splits if_splits)

lemma config_ok_files [simp]:
  "config_ok (s\<lparr>log_file_name := n\<rparr>) = config_ok s" "config_ok (s\<lparr>log_file_desc := d\<rparr>) = config_ok s"
  "config_ok (s\<lparr>help_opt := b\<rparr>) = config_ok s"
  by (simp_all add: config_ok_def)

lemma cfg_ranges:
  "keeps keeps_config (set_range v 1 65535 (\<lambda>v s. s\<lparr>port := v\<rparr>))"
  "keeps keeps_config (set_range v 1 MAX_NUM_WORKERS (\<lambda>v s. s\<lparr>num_workers := v\<rparr>))"
  "keeps keeps_config (set_range v (level_code LOG_ERROR) (level_code LOG_INFO2) (\<lambda>v s. s\<lparr>log_level := v\<rparr>))"
  by (rule cfg_set_range, simp add: config_ok_def)+

lemmas cfg_rules = cfg.keeps_bind cfg.keeps_then cfg.keeps_if cfg.keeps_ret cfg.keeps_stop cfg_emit cfg_answer
  cfg_lift_fault cfg_ranges

lemma cfg_log_file: "keeps keeps_config (parse_log_file_name v)"
  unfolding parse_log_file_name_def
  by (intro cfg_rules) (auto intro!: cfg_rules cfg_modify split: main_resp.splits bool.splits)

lemma cfg_opt: "keeps keeps_config (apply_opt c v)"
  unfolding apply_opt_def Let_def
  by (intro cfg_rules cfg_log_file cfg_modify) simp_all

lemma cfg_opts: "keeps keeps_config (opts_loop os)"
proof (induction os rule: opts_loop.induct)
  case (2 c v os)
  show ?case unfolding opts_loop.simps
    by (intro cfg_rules cfg_opt) (auto intro: cfg_rules 2 split: option.splits)
qed (simp add: cfg_rules)

lemma cfg_line: "keeps keeps_config (parse_srv_config_line line)"
  unfolding parse_srv_config_line_def Let_def
  by (intro cfg_rules) (auto intro!: cfg_rules cfg_ranges [simplified] cfg_log_file split: option.splits)

lemma cfg_loop: "keeps keeps_config (config_loop s r)"
proof (induction s r rule: config_loop.induct)
  case (1 s r)
  show ?case
  proof (cases "fgets MAX_LINE_LEN s")
    case None
    then show ?thesis by (subst config_loop.simps) (simp add: cfg_rules)
  next
    case (Some a)
    obtain line rest where a: "a = (line, rest)" by (cases a)
    have "keeps keeps_config (if r' < 0 then ret r' else config_loop rest r')" for r'
      using 1 [OF Some a [symmetric]] by (cases "r' < 0") (simp_all add: cfg_rules)
    then show ?thesis
      by (subst config_loop.simps, simp only: Some a option.case prod.case) (rule cfg.keeps_bind [OF cfg_line])
  qed
qed

lemma cfg_config: "keeps keeps_config parse_srv_config"
  unfolding parse_srv_config_def
  by (intro cfg_rules) (auto intro!: cfg_rules cfg_loop split: main_resp.splits option.splits)

section \<open>Reading back a printed configuration\<close>

lemma digit_plain: "is_digit c \<Longrightarrow> \<not> isspace c \<and> c \<noteq> NUL \<and> c \<noteq> LF \<and> c \<noteq> CHR ''-'' \<and> c \<noteq> CHR ''+''"
  by (auto simp: is_digit_def isspace_def char_code_def)

lemma atoi_show_nat:
  assumes "n < 2 ^ 31"
  shows "atoi (show_nat n) = Inr (int n)"
proof -
  obtain d ds where s: "show_nat n = d # ds" by (cases "show_nat n") auto
  have dig: "\<forall>c\<in>set (show_nat n). is_digit c" by (rule show_nat_digits)
  then have "dropWhile isspace (show_nat n) = show_nat n" "d \<noteq> CHR ''-''" "d \<noteq> CHR ''+''"
    using digit_plain [of d] s by auto
  moreover from this have "(case show_nat n of
      c # r \<Rightarrow> if c = CHR ''-'' then (True, r) else if c = CHR ''+'' then (False, r) else (False, show_nat n)
    | [] \<Rightarrow> (False, [])) = (False, show_nat n)" using s by simp
  moreover have tw: "takeWhile is_digit (show_nat n) = show_nat n" using dig by simp
  moreover have "int n < 2 ^ 31" using assms by simp
  ultimately show ?thesis by (simp add: atoi_def Let_def tw)
qed

definition setting :: "string \<Rightarrow> int \<Rightarrow> string" where
  "setting key n = key @ '': '' @ show_nat (nat n) @ [LF]"

lemma squeezed_setting:
  assumes "\<forall>c \<in> set key. \<not> isspace c \<and> c \<noteq> NUL"
  shows "squeezed (setting key n @ [NUL]) = key @ CHR '':'' # show_nat (nat n)"
proof -
  let ?P = "\<lambda>x. x \<noteq> NUL \<and> x \<noteq> LF"
  have lf: "isspace LF" "\<not> isspace (CHR '':'')" "isspace (CHR '' '')" by (simp_all add: isspace_def char_code_def)
  have d: "\<forall>c\<in>set (show_nat (nat n)). \<not> isspace c \<and> ?P c" using show_nat_digits digit_plain by blast
  have k: "\<forall>c\<in>set key. ?P c" using assms lf(1) by auto
  have "takeWhile ?P (setting key n @ [NUL]) = key @ '': '' @ show_nat (nat n)"
    using k d by (simp add: setting_def takeWhile_append2)
  then show ?thesis
    using assms d lf by (auto simp: squeezed_def filter_id_conv)
qed

lemma line_value:
  assumes s: "squeezed line = key @ CHR '':'' # v" and nul: "NUL \<in> set line"
    and key: "key \<noteq> []" "List.hd key \<noteq> CHR ''#''" "CHR '':'' \<notin> set key" and v: "v \<noteq> []"
  shows "parse_srv_config_line line w =
    (if key = ''port'' then set_range v 1 65535 (\<lambda>v s. s\<lparr>port := v\<rparr>)
     else if key = ''num_workers'' then set_range v 1 MAX_NUM_WORKERS (\<lambda>v s. s\<lparr>num_workers := v\<rparr>)
     else if key = ''log_file'' then parse_log_file_name v
     else if key = ''log_level''
     then set_range v (level_code LOG_ERROR) (level_code LOG_INFO2) (\<lambda>v s. s\<lparr>log_level := v\<rparr>)
     else ret 0) w"
proof -
  from trim_squeezes [OF nul] s obtain buf where b: "trim_spaces_in_place line = Inr buf"
    "c_string buf = key @ CHR '':'' # v" by auto
  have lf: "LF \<notin> set (squeezed line)" by (auto simp: squeezed_def dest: set_takeWhileD)
  then have blank: "\<not> starts_blank (key @ CHR '':'' # v)" "\<not> starts_blank v"
    using key v s by (cases key; cases v; auto simp: starts_blank_def)+
  have "List.hd (key @ CHR '':'' # v) \<noteq> CHR ''#''" using key by simp
  moreover have "find_char (CHR '':'') (key @ CHR '':'' # v) = Some (length key)"
    by (rule find_char_append_notin [OF key(3)])
  ultimately show ?thesis
    using b blank by (simp add: parse_srv_config_line_def lift_fault_def io_exec Let_def cong: if_cong)
qed

lemma setting_value:
  assumes "0 \<le> n" "n < 2 ^ 31" "lo \<le> n" "n \<le> hi"
  shows "set_range (show_nat (nat n)) lo hi store w = (Inr 0, w\<lparr>st := store n (st w)\<rparr>)"
proof -
  have "atoi (show_nat (nat n)) = Inr n" using atoi_show_nat [of "nat n"] assms by simp
  with assms show ?thesis by (simp add: set_range_result)
qed

lemma takeWhile_until: "x \<notin> set a \<Longrightarrow> takeWhile (\<lambda>c. c \<noteq> x) (a @ x # s) = a"
  by (induction a) auto

lemma fgets_setting:
  assumes "LF \<notin> set key" and "length (setting key n) < MAX_LINE_LEN"
  shows "fgets MAX_LINE_LEN (setting key n @ s) = Some (setting key n, s)"
proof -
  have "LF \<notin> set (show_nat n)" for n using show_nat_digits [of n] digit_plain by blast
  then have "takeWhile (\<lambda>c. c \<noteq> LF) (setting key n @ s) = key @ '': '' @ show_nat (nat n)"
    using takeWhile_until [of LF "key @ '': '' @ show_nat (nat n)" s] assms(1) by (simp add: setting_def)
  then have l: "takeWhile (\<lambda>c. c \<noteq> LF) (setting key n @ s) @ [LF] = setting key n"
    by (simp add: setting_def)
  have "length (takeWhile (\<lambda>c. c \<noteq> LF) (setting key n @ s)) < length (setting key n @ s)"
    using arg_cong [OF l, of length] by simp
  moreover have "setting key n \<noteq> []" by (simp add: setting_def)
  ultimately show ?thesis using assms(2) by (simp add: fgets_def Let_def l)
qed

definition store_setting :: "string \<Rightarrow> int \<Rightarrow> srv_config_t \<Rightarrow> srv_config_t" where
  "store_setting key n s =
     (if key = ''port'' then s\<lparr>port := n\<rparr> else if key = ''num_workers'' then s\<lparr>num_workers := n\<rparr>
      else s\<lparr>log_level := n\<rparr>)"

definition setting_ok :: "string \<Rightarrow> int \<Rightarrow> bool" where
  "setting_ok key n \<longleftrightarrow>
     (key = ''port'' \<and> 1 \<le> n \<and> n \<le> 65535) \<or> (key = ''num_workers'' \<and> 1 \<le> n \<and> n \<le> MAX_NUM_WORKERS) \<or>
     (key = ''log_level'' \<and> level_code LOG_ERROR \<le> n \<and> n \<le> level_code LOG_INFO2)"

lemma setting_ok_key:
  assumes "setting_ok key n"
  shows "\<forall>c \<in> set key. \<not> isspace c \<and> c \<noteq> NUL" "LF \<notin> set key" "CHR '':'' \<notin> set key" "key \<noteq> []"
    "List.hd key \<noteq> CHR ''#''" "length key \<le> 11" "0 \<le> n" "n \<le> 65535"
  using assms by (auto simp: setting_ok_def isspace_def char_code_def srv_consts)

lemma parse_setting:
  assumes "setting_ok key n"
  shows "parse_srv_config_line (setting key n @ [NUL]) w = (Inr 0, w\<lparr>st := store_setting key n (st w)\<rparr>)"
proof -
  note k = setting_ok_key [OF assms]
  have v: "set_range (show_nat (nat n)) lo hi store w = (Inr 0, w\<lparr>st := store n (st w)\<rparr>)"
    if "lo \<le> n" "n \<le> hi" for lo hi store
    by (rule setting_value) (use that k in simp_all)
  have p: "parse_srv_config_line (setting key n @ [NUL]) w =
    (if key = ''port'' then set_range (show_nat (nat n)) 1 65535 (\<lambda>v s. s\<lparr>port := v\<rparr>)
     else if key = ''num_workers'' then set_range (show_nat (nat n)) 1 MAX_NUM_WORKERS (\<lambda>v s. s\<lparr>num_workers := v\<rparr>)
     else if key = ''log_file'' then parse_log_file_name (show_nat (nat n))
     else if key = ''log_level''
     then set_range (show_nat (nat n)) (level_code LOG_ERROR) (level_code LOG_INFO2) (\<lambda>v s. s\<lparr>log_level := v\<rparr>)
     else ret 0) w"
    by (rule line_value [OF squeezed_setting [OF k(1)]]) (use k in simp_all)
  from assms show ?thesis
    unfolding p store_setting_def setting_ok_def by (elim disjE conjE) (simp_all add: v)
qed

definition config_text :: "(string \<times> int) list \<Rightarrow> string" where
  "config_text kvs = concat (map (\<lambda>(key, n). setting key n) kvs)"

lemma show_nat_length: "n < 10 ^ d \<Longrightarrow> 0 < d \<Longrightarrow> length (show_nat n) \<le> d"
proof (induction n arbitrary: d rule: show_nat.induct)
  case (1 n)
  show ?case
  proof (cases "n < 10")
    case False
    with 1(2) obtain d' where d: "d = Suc d'" "0 < d'" by (cases d; cases "d - 1") auto
    with 1(2) have "n div 10 < 10 ^ d'" by (simp add: div_less_iff_less_mult mult.commute)
    with 1(1) [OF False _ d(2)] False d show ?thesis by (subst show_nat.simps) simp
  next
    case True
    with 1(3) show ?thesis by (subst show_nat.simps) simp
  qed
qed

lemma config_loop_reads:
  assumes "\<forall>(key, n) \<in> set kvs. setting_ok key n"
  shows "config_loop (config_text kvs) 0 w =
    (Inr 0, w\<lparr>st := foldl (\<lambda>s (key, n). store_setting key n s) (st w) kvs\<rparr>)"
  using assms
proof (induction kvs arbitrary: w)
  case Nil
  then show ?case by (subst config_loop.simps) (simp add: config_text_def fgets_def io_exec)
next
  case (Cons kv kvs)
  obtain key n where kv: "kv = (key, n)" by (cases kv)
  with Cons(2) have ok: "setting_ok key n" by simp
  note k = setting_ok_key [OF ok]
  have "length (show_nat (nat n)) \<le> 5" by (rule show_nat_length) (use k in simp_all)
  then have f: "fgets MAX_LINE_LEN (setting key n @ config_text kvs) = Some (setting key n, config_text kvs)"
    by (intro fgets_setting) (use k in \<open>simp_all add: setting_def srv_consts\<close>)
  have "config_loop (config_text (kv # kvs)) 0 w = config_loop (config_text kvs) 0
      (w\<lparr>st := store_setting key n (st w)\<rparr>)"
    by (subst config_loop.simps) (simp add: config_text_def kv f [unfolded config_text_def] io_bind_Inr [OF parse_setting [OF ok]])
  with Cons kv show ?case by simp
qed

text \<open>The same settings given on the command line.\<close>

definition setting_opt :: "string \<Rightarrow> char" where
  "setting_opt key = (if key = ''port'' then CHR ''p'' else if key = ''num_workers'' then CHR ''w'' else CHR ''l'')"

definition config_args :: "(string \<times> int) list \<Rightarrow> string list" where
  "config_args kvs = concat (map (\<lambda>(key, n). [[CHR ''-'', setting_opt key], show_nat (nat n)]) kvs)"

lemma getopt_pair:
  assumes "opt_kind c = Some True" and "c \<noteq> CHR ''-''"
  shows "getopt_all ([CHR ''-'', c] # v # args) = (c, v) # getopt_all args"
  by (subst getopt_all.simps) (simp add: assms)

lemma getopt_config_args: "getopt_all (config_args kvs) = map (\<lambda>(key, n). (setting_opt key, show_nat (nat n))) kvs"
proof (induction kvs)
  case Nil
  show ?case by (subst getopt_all.simps) (simp add: config_args_def)
next
  case (Cons kv kvs)
  have "opt_kind (setting_opt key) = Some True" "setting_opt key \<noteq> CHR ''-''" for key
    by (simp_all add: opt_kind_def setting_opt_def)
  with Cons show ?case by (simp add: config_args_def getopt_pair split: prod.splits)
qed

lemma apply_setting:
  assumes "setting_ok key n"
  shows "apply_opt (setting_opt key) (show_nat (nat n)) w = (Inr None, w\<lparr>st := store_setting key n (st w)\<rparr>)"
proof -
  note k = setting_ok_key [OF assms]
  have v: "io_bind (set_range (show_nat (nat n)) lo hi store) f w = f 0 (w\<lparr>st := store n (st w)\<rparr>)"
    if "lo \<le> n" "n \<le> hi" for lo hi store and f :: "int \<Rightarrow> int option main_io"
    by (rule io_bind_Inr, rule setting_value) (use that k in simp_all)
  from assms show ?thesis
    unfolding store_setting_def setting_ok_def
    by (elim disjE conjE) (simp_all add: apply_opt_def setting_opt_def v io_exec)
qed

lemma opts_loop_reads:
  assumes "\<forall>(key, n) \<in> set kvs. setting_ok key n"
  shows "opts_loop (map (\<lambda>(key, n). (setting_opt key, show_nat (nat n))) kvs) w =
    (Inr 0, w\<lparr>st := foldl (\<lambda>s (key, n). store_setting key n s) (st w) kvs\<rparr>)"
  using assms
proof (induction kvs arbitrary: w)
  case (Cons kv kvs)
  obtain key n where kv: "kv = (key, n)" by (cases kv)
  with Cons(2) have ok: "setting_ok key n" by simp
  from Cons(1) [of "w\<lparr>st := store_setting key n (st w)\<rparr>"] Cons(2) show ?case
    by (simp add: kv io_bind_Inr [OF apply_setting [OF ok]])
qed (simp add: io_exec)

end
