(* ===== verification/Srv_Main.thy ===== *)
theory Srv_Main
  imports Config Sock
begin

text \<open>
  \<open>srv_async/srv_async.c\<close>: the main process. It reads its configuration, makes the listening
  socket, forks the workers and waits for them. \<open>handle_connections_routine\<close> never returns, so a
  child's part ends where it calls it; what it does there is \<open>Scheduler\<close>'s.
\<close>

section \<open>Workers and the log\<close>

definition WIFEXITED :: "int \<Rightarrow> bool" where "WIFEXITED status = (status mod 128 = 0)"
definition WEXITSTATUS :: "int \<Rightarrow> int" where "WEXITSTATUS status = (status div 256) mod 256"
definition WTERMSIG :: "int \<Rightarrow> int" where "WTERMSIG status = status mod 128"

definition worker_status :: "int \<Rightarrow> worker_end" where
  "worker_status status =
     (if WIFEXITED status then Exited_with (WEXITSTATUS status) else Terminated_by (WTERMSIG status))"

text \<open>\<open>fprintf\<close> to a stream that may be null.\<close>

definition fprintf_to :: "stream_file option \<Rightarrow> (stream_file \<Rightarrow> main_event) \<Rightarrow> unit main_io" where
  "fprintf_to fout e = (case fout of None \<Rightarrow> stop_with (Fault Null_deref) | Some f \<Rightarrow> emit (e f))"

definition wait_body :: "stream_file option \<Rightarrow> unit \<Rightarrow> (unit + unit) main_io" where
  "wait_body fout u =
     io_bind (answer Wait) (\<lambda>r. case r of
       A_wait ret_pid status \<Rightarrow>
         if ret_pid > 0
         then io_then (fprintf_to fout (\<lambda>f. Me_report f ret_pid (worker_status status))) (ret (Inl ()))
         else ret (Inr ())
     | _ \<Rightarrow> stop_with Mismatch)"

definition wait_for_workers :: "unit main_io" where
  "wait_for_workers = io_bind (gets_st log_file_desc) (\<lambda>fout. io_loop (wait_body fout) ())"

definition close_srv_log :: "unit main_io" where
  "close_srv_log =
     io_bind (gets_st log_file_desc) (\<lambda>desc. case desc of
       None \<Rightarrow> ret ()
     | Some f \<Rightarrow>
         io_when (f \<noteq> Stdout)
           (io_then (emit (Me_fclose f)) (modify_st (\<lambda>s. s\<lparr>log_file_desc := Some Stdout\<rparr>))))"

definition handle_sigint :: "unit main_io" where
  "handle_sigint = io_then wait_for_workers close_srv_log"

text \<open>The handler the workers install instead (\<open>sigint_handler\<close> of \<open>srv_routines.c\<close>). A child that calls
  \<open>exit(code)\<close> is reported to its parent with the status \<open>exit_status code\<close>: a worker stopped by its
  handler counts as exited, not as terminated by the signal.\<close>

definition sigint_handler :: "int \<Rightarrow> unit main_io" where
  "sigint_handler sig =
     io_bind (gets_st log_file_desc) (\<lambda>fout. io_then (emit (Me_fflush fout)) (stop_with (Exit (128 + sig))))"

definition exit_status :: "int \<Rightarrow> int" where "exit_status code = (code mod 256) * 256"

lemma exit_status_reported: "worker_status (exit_status code) = Exited_with (code mod 256)"
  by (simp add: worker_status_def exit_status_def WIFEXITED_def WEXITSTATUS_def)

lemma sigint_reported:
  assumes "0 \<le> sig" "sig < 128" and "sigint_handler sig w = (Inl (Exit code), v)"
  shows "worker_status (exit_status code) = Exited_with (128 + sig)"
  using assms by (simp add: sigint_handler_def io_exec exit_status_reported)

section \<open>Start\<close>

definition print_srv_config :: "unit main_io" where
  "print_srv_config =
     io_bind (gets_st (\<lambda>s. s)) (\<lambda>s. fprintf_to (log_file_desc s) (\<lambda>f. Me_config (port s) (num_workers s)))"

definition init_srv_config_default :: "srv_config_t \<Rightarrow> srv_config_t" where
  "init_srv_config_default s =
     s\<lparr>port := DEFAULT_SRV_PORT, num_workers := DEFAULT_NUM_WORKERS, log_file_name := None,
       log_file_desc := Some Stdout, log_level := 0, help_opt := False\<rparr>"

text \<open>A socket call of the main process.\<close>

definition main_sock_op :: "sock_call \<Rightarrow> int main_io" where
  "main_sock_op op =
     io_then (emit (Me_sock op))
       (io_bind (answer Wait) (\<lambda>r. case r of A_sock n \<Rightarrow> ret n | _ \<Rightarrow> stop_with Mismatch))"

text \<open>The loop that forks the workers: whether this process is a child.\<close>

fun fork_loop :: "nat \<Rightarrow> bool main_io" where
  "fork_loop 0 = ret False"
| "fork_loop (Suc n) =
     io_then (emit Me_fork) (io_bind (answer Wait) (\<lambda>r. case r of
       A_fork ret_pid \<Rightarrow> if ret_pid = 0 then ret True else fork_loop n
     | _ \<Rightarrow> stop_with Mismatch))"

datatype main_result = Returned int | In_worker int

definition main :: "string list \<Rightarrow> main_result main_io" where
  "main args =
     io_then (modify_st init_srv_config_default)
     (io_bind parse_srv_config (\<lambda>r.
      io_then (io_when (r < 0) (emit (Me_usage HELP_MSG)))
     (io_bind (parse_srv_cmdline_opts args) (\<lambda>r.
      if r < 0 then io_then (emit (Me_usage HELP_MSG)) (stop_with (Exit EXIT_FAILURE))
      else io_bind (gets_st help_opt) (\<lambda>h.
        if h then io_then (emit (Me_usage HELP_MSG)) (ret (Returned 0))
        else io_then print_srv_config
          (io_bind (gets_st (\<lambda>s. (port s, num_workers s))) (\<lambda>(srv_port, n_w).
           io_bind (create_listening_socket main_sock_op srv_port) (\<lambda>srv_sock.
           if srv_sock < 0 then stop_with (Exit EXIT_FAILURE)
           else io_bind (fork_loop (nat n_w)) (\<lambda>child.
             if child then ret (In_worker srv_sock)
             else io_then wait_for_workers (io_then close_srv_log (ret (Returned 0))))))))))))"

section \<open>Waiting and closing\<close>

lemma wait_body_report:
  assumes "script w = A_wait p x # s" and "0 < p"
  shows "wait_body (Some f) u w =
    (Inr (Inl ()), w\<lparr>script := s, trace := trace w @ [Me_report f p (worker_status x)]\<rparr>)"
  using assms by (simp add: wait_body_def fprintf_to_def io_exec)

lemma wait_for_workers_reports:
  assumes "script w = map (\<lambda>(p, x). A_wait p x) ws @ A_wait r y # s" and "\<forall>(p, x) \<in> set ws. 0 < p" and "r \<le> 0"
    and "log_file_desc (st w) = Some f"
  shows "wait_for_workers w =
    (Inr (), w\<lparr>script := s, trace := trace w @ map (\<lambda>(p, x). Me_report f p (worker_status x)) ws\<rparr>)"
proof -
  have "io_loop (wait_body (Some f)) () w =
      (Inr (), w\<lparr>script := s, trace := trace w @ map (\<lambda>(p, x). Me_report f p (worker_status x)) ws\<rparr>)"
    using assms(1,2)
  proof (induction ws arbitrary: w)
    case Nil
    with assms(3) show ?case by (intro io_loop_done [THEN trans]) (auto simp: wait_body_def io_exec)
  next
    case (Cons px ws)
    obtain p x where px: "px = (p, x)" by (cases px)
    with Cons(2) have sc: "script w = A_wait p x # (map (\<lambda>(p, x). A_wait p x) ws @ A_wait r y # s)" by simp
    have b: "wait_body (Some f) () w = (Inr (Inl ()), w\<lparr>script := map (\<lambda>(p, x). A_wait p x) ws @ A_wait r y # s,
        trace := trace w @ [Me_report f p (worker_status x)]\<rparr>)"
      by (rule wait_body_report [OF sc]) (use Cons(3) px in simp)
    have "io_loop (wait_body (Some f)) () w = io_loop (wait_body (Some f)) ()
        (w\<lparr>script := map (\<lambda>(p, x). A_wait p x) ws @ A_wait r y # s,
          trace := trace w @ [Me_report f p (worker_status x)]\<rparr>)"
      by (rule io_loop_continue [where body = "wait_body (Some f)", OF b]) (simp add: sc)
    with Cons(1) [of "w\<lparr>script := map (\<lambda>(p, x). A_wait p x) ws @ A_wait r y # s,
        trace := trace w @ [Me_report f p (worker_status x)]\<rparr>"] Cons(3) px show ?case by simp
  qed
  then show ?thesis using assms(4) by (simp add: wait_for_workers_def io_exec)
qed

lemma close_srv_log_result:
  "close_srv_log w = (Inr (), case log_file_desc (st w) of
     Some (Log_file h) \<Rightarrow> w\<lparr>st := (st w)\<lparr>log_file_desc := Some Stdout\<rparr>, trace := trace w @ [Me_fclose (Log_file h)]\<rparr>
   | _ \<Rightarrow> w)"
  by (auto simp: close_srv_log_def io_exec split: option.splits stream_file.splits)

lemma close_srv_log_once: "io_then close_srv_log close_srv_log w = close_srv_log w"
proof -
  have "io_then close_srv_log close_srv_log w = close_srv_log (snd (close_srv_log w))"
    by (rule io_then_Inr [where a = "()"]) (simp add: close_srv_log_result)
  then show ?thesis by (auto simp: close_srv_log_result split: option.splits stream_file.splits)
qed

section \<open>Forking\<close>

lemma fork_loop_result:
  assumes "fork_loop n w = (Inr child, v)"
  shows "\<exists>j \<le> n. trace v = trace w @ replicate j Me_fork \<and> st v = st w \<and> (if child then 0 < j else j = n)"
  using assms
proof (induction n arbitrary: w)
  case (Suc n)
  from Suc(2) obtain r rs where s: "script w = A_fork r # rs"
    by (cases "script w"; cases "hd (script w)") (auto simp: io_exec)
  let ?w = "w\<lparr>trace := trace w @ [Me_fork], script := rs\<rparr>"
  have eq: "fork_loop (Suc n) w = (if r = 0 then (Inr True, ?w) else fork_loop n ?w)"
    using s by (simp add: io_exec)
  show ?case
  proof (cases "r = 0")
    case True
    with eq Suc(2) show ?thesis by (intro exI [of _ 1]) auto
  next
    case False
    with eq Suc(2) have "fork_loop n ?w = (Inr child, v)" by simp
    from Suc(1) [OF this] obtain j where j: "j \<le> n" "trace v = trace ?w @ replicate j Me_fork" "st v = st ?w"
      "if child then 0 < j else j = n" by blast
    show ?thesis by (rule exI [of _ "Suc j"]) (use j in \<open>auto split: if_splits\<close>)
  qed
qed (auto simp: io_exec)

section \<open>The start of the server\<close>

lemma default_config_ok: "config_ok (init_srv_config_default s)"
  by (simp add: config_ok_def init_srv_config_default_def srv_consts)

lemma main_sock_op_result:
  assumes "main_sock_op op w = (Inr n, v)"
  shows "st v = st w \<and> trace v = trace w @ [Me_sock op] \<and> script w = A_sock n # script v"
  using assms by (cases "script w"; cases "hd (script w)") (auto simp: main_sock_op_def io_exec)

lemma listening_socket_result:
  assumes "create_listening_socket main_sock_op p w = (Inr sock, v)" and "0 \<le> sock"
  shows "st v = st w \<and> trace v = trace w @ map Me_sock (listening_calls sock p) \<and>
    script w = [A_sock sock, A_sock 0, A_sock 0] @ script v"
proof -
  from assms obtain w1 w2 r where c: "main_sock_op Sc_socket w = (Inr sock, w1)"
    "main_sock_op (Sc_setsockopt sock SOL_SOCKET SO_REUSEPORT 1) w1 = (Inr 0, w2)"
    "main_sock_op (Sc_bind sock INADDR_ANY (word_of_int p)) w2 = (Inr 0, v)"
    unfolding create_listening_socket_def reuse_option by (auto simp: io_bind_returns ret_def split: if_splits)
  from main_sock_op_result [OF c(1)] main_sock_op_result [OF c(2)] main_sock_op_result [OF c(3)]
  show ?thesis by (simp add: listening_calls_def)
qed

text \<open>The listening socket \<open>sock\<close>: all three calls succeeded, and \<open>sock\<close> is what the first returned.\<close>

definition listens :: "main_resp list \<Rightarrow> int \<Rightarrow> bool" where
  "listens s sock \<longleftrightarrow> (\<exists>us rs. s = us @ [A_sock sock, A_sock 0, A_sock 0] @ rs)"

text \<open>What \<open>main\<close> has done when it reaches the loop of forks.\<close>

lemma main_forks:
  assumes "main args w = (Inr res, v)"
  shows "(res = Returned 0 \<and> help_opt (st v)) \<or>
    (\<exists>sock u child x. fork_loop (nat (num_workers (st u))) u = (Inr child, x) \<and> config_ok (st u) \<and>
       log_file_desc (st u) \<noteq> None \<and> 0 \<le> sock \<and> forks (trace u) = forks (trace w) \<and>
       sock_calls (trace u) = sock_calls (trace w) @ listening_calls sock (port (st u)) \<and> listens (script w) sock \<and>
       (if child then res = In_worker sock \<and> v = x
        else io_then wait_for_workers (io_then close_srv_log (ret (Returned 0))) x = (Inr res, v)))"
proof -
  define start where "start = w\<lparr>st := init_srv_config_default (st w)\<rparr>"
  define fin :: "int \<Rightarrow> bool \<Rightarrow> main_result main_io" where
    "fin sock child = (if child then ret (In_worker sock)
       else io_then wait_for_workers (io_then close_srv_log (ret (Returned 0))))" for sock child
  define rest where "rest = (\<lambda>(srv_port, n_w).
     io_bind (create_listening_socket main_sock_op srv_port) (\<lambda>srv_sock.
     if srv_sock < 0 then stop_with (Exit EXIT_FAILURE)
     else io_bind (fork_loop (nat n_w)) (fin srv_sock)))"
  from assms obtain r0 u0 u1 r2 u2 where
    p: "parse_srv_config start = (Inr r0, u0)" "io_when (r0 < 0) (emit (Me_usage HELP_MSG)) u0 = (Inr (), u1)"
      "parse_srv_cmdline_opts args u1 = (Inr r2, u2)"
    and tl: "(if r2 < 0 then io_then (emit (Me_usage HELP_MSG)) (stop_with (Exit EXIT_FAILURE))
      else io_bind (gets_st help_opt) (\<lambda>h.
        if h then io_then (emit (Me_usage HELP_MSG)) (ret (Returned 0))
        else io_then print_srv_config (io_bind (gets_st (\<lambda>s. (port s, num_workers s))) rest))) u2 = (Inr res, v)"
    unfolding main_def start_def rest_def fin_def by (auto simp: io_then_returns io_bind_returns modify_st_def)
  have "config_ok (st start)" by (simp add: start_def default_config_ok)
  then have "config_ok (st u0)" using keepsD [OF cfg_config p(1)] by (simp add: keeps_config_def)
  moreover have "st u1 = st u0 \<and> forks (trace u1) = forks (trace u0) \<and> script u1 = script u0 \<and>
      sock_calls (trace u1) = sock_calls (trace u0)"
    using p(2) by (auto simp: io_when_def io_exec split: if_splits)
  ultimately have ok: "config_ok (st u2)" "forks (trace u2) = forks (trace w)"
    and sc: "suffix (script u2) (script w)" "sock_calls (trace u2) = sock_calls (trace w)"
    using keepsD [OF cfg_opts p(3) [unfolded parse_srv_cmdline_opts_def]] keepsD [OF cfg_config p(1)]
    by (auto simp: keeps_config_def start_def dest: suffix_order.trans)
  from tl have "\<not> r2 < 0" by (auto simp: io_exec)
  show ?thesis
  proof (cases "help_opt (st u2)")
    case True
    with tl \<open>\<not> r2 < 0\<close> have "res = Returned 0" "st v = st u2" by (auto simp: io_exec)
    with True show ?thesis by simp
  next
    case False
    with tl \<open>\<not> r2 < 0\<close> obtain u3 where
      pr: "print_srv_config u2 = (Inr (), u3)" and rs: "rest (port (st u3), num_workers (st u3)) u3 = (Inr res, v)"
      by (auto simp: io_bind_returns io_then_returns gets_st_def)
    from pr obtain f where d: "log_file_desc (st u2) = Some f" and s3: "st u3 = st u2"
      and f3: "forks (trace u3) = forks (trace u2)" "script u3 = script u2" "sock_calls (trace u3) = sock_calls (trace u2)"
      by (auto simp: print_srv_config_def fprintf_to_def io_exec split: option.splits)
    from rs obtain sock u4 where ls: "create_listening_socket main_sock_op (port (st u3)) u3 = (Inr sock, u4)" "0 \<le> sock"
      and fk: "io_bind (fork_loop (nat (num_workers (st u3)))) (fin sock) u4 = (Inr res, v)"
      by (auto simp: rest_def io_bind_returns stop_with_def split: if_splits)
    note l = listening_socket_result [OF ls]
    have "forks (map Me_sock (listening_calls sock p)) = 0" "sock_calls (map Me_sock (listening_calls sock p)) = listening_calls sock p"
      for p by (simp_all add: listening_calls_def forks_def sock_calls_def)
    with l s3 f3 have s4: "st u4 = st u2" "forks (trace u4) = forks (trace u2)"
      "sock_calls (trace u4) = sock_calls (trace u2) @ listening_calls sock (port (st u4))" by simp_all
    from l sc(1) f3(2) have la: "listens (script w) sock" by (auto simp: listens_def suffix_def)
    from fk obtain child x where "fork_loop (nat (num_workers (st u4))) u4 = (Inr child, x)"
      "fin sock child x = (Inr res, v)"
      by (auto simp: io_bind_returns s3 s4)
    with ok d ls(2) s4 la sc(2) show ?thesis by (intro disjI2 exI [of _ sock] exI [of _ u4] exI [of _ child] exI [of _ x])
        (auto simp: fin_def ret_def split: if_splits)
  qed
qed

lemma wait_no_forks: "keeps keeps_config wait_for_workers"
proof -
  have f: "keeps keeps_config (fprintf_to d (\<lambda>f. Me_report f p x))" for d p x
    by (cases d) (simp_all add: fprintf_to_def cfg_rules)
  have "keeps keeps_config (wait_body d u)" for d u
    unfolding wait_body_def by (intro cfg_rules) (auto intro!: cfg_rules f split: main_resp.splits)
  then show ?thesis
    unfolding wait_for_workers_def by (intro cfg.keeps_bind cfg.keeps_loop cfg.keeps_gets)
qed

definition same_state :: "('r, 's, 'e) world \<Rightarrow> ('r, 's, 'e) world \<Rightarrow> bool" where
  "same_state w v \<longleftrightarrow> st v = st w"

interpretation ss: world_preorder same_state
  by unfold_locales (auto simp: same_state_def)

lemma wait_same_state: "keeps same_state wait_for_workers"
proof -
  have e: "keeps same_state (emit e)" and a: "keeps same_state (answer s)" for e s
    by (rule keepsI; auto simp: emit_def answer_def same_state_def split: list.splits)+
  have f: "keeps same_state (fprintf_to d g)" for d g
    by (cases d) (simp_all add: fprintf_to_def e ss.keeps_stop)
  have "keeps same_state (wait_body d u)" for d u
    unfolding wait_body_def
    by (intro ss.keeps_bind a) (auto intro!: ss.keeps_then ss.keeps_ret ss.keeps_stop f split: main_resp.splits)
  then show ?thesis
    unfolding wait_for_workers_def by (intro ss.keeps_bind ss.keeps_loop ss.keeps_gets)
qed

lemma wait_and_close:
  assumes "io_then wait_for_workers (io_then close_srv_log (ret (Returned 0))) x = (Inr res, v)"
  shows "res = Returned 0 \<and> num_workers (st v) = num_workers (st x) \<and> forks (trace v) = forks (trace x)"
proof -
  from assms obtain y where y: "wait_for_workers x = (Inr (), y)" "res = Returned 0" "v = snd (close_srv_log y)"
    by (auto simp: io_then_returns ret_def close_srv_log_result)
  have "forks (trace v) = forks (trace y)" "num_workers (st v) = num_workers (st y)"
    by (auto simp: y(3) close_srv_log_result split: option.splits stream_file.splits)
  then show ?thesis
    using keepsD [OF wait_no_forks y(1)] keepsD [OF wait_same_state y(1)] y(2)
    by (simp add: keeps_config_def same_state_def)
qed

lemma main_workers:
  assumes "main args w = (Inr res, v)"
  shows "case res of
      In_worker sock \<Rightarrow> config_ok (st v) \<and> log_file_desc (st v) \<noteq> None \<and> 0 \<le> sock \<and>
        listens (script w) sock \<and> sock_calls (trace v) = sock_calls (trace w) @ listening_calls sock (port (st v)) \<and>
        forks (trace w) < forks (trace v) \<and> int (forks (trace v)) \<le> int (forks (trace w)) + num_workers (st v)
    | Returned r \<Rightarrow> r = 0 \<and> (help_opt (st v) \<or>
        (1 \<le> num_workers (st v) \<and> num_workers (st v) \<le> MAX_NUM_WORKERS \<and>
         int (forks (trace v)) = int (forks (trace w)) + num_workers (st v)))"
  using main_forks [OF assms]
proof (elim disjE exE conjE)
  fix sock u child x
  assume f: "fork_loop (nat (num_workers (st u))) u = (Inr child, x)" and ok: "config_ok (st u)"
    "log_file_desc (st u) \<noteq> None" "0 \<le> sock" "forks (trace u) = forks (trace w)" "listens (script w) sock"
    "sock_calls (trace u) = sock_calls (trace w) @ listening_calls sock (port (st u))"
    and r: "if child then res = In_worker sock \<and> v = x
        else io_then wait_for_workers (io_then close_srv_log (ret (Returned 0))) x = (Inr res, v)"
  from fork_loop_result [OF f] obtain j where j: "j \<le> nat (num_workers (st u))"
    "trace x = trace u @ replicate j Me_fork" "st x = st u" "if child then 0 < j else j = nat (num_workers (st u))" by blast
  show ?thesis
  proof (cases child)
    case True
    with r j ok show ?thesis by (auto simp: config_ok_def)
  next
    case False
    with wait_and_close [of x res v] r j ok show ?thesis by (auto simp: config_ok_def)
  qed
qed simp

text \<open>The socket a worker listens on was bound to the port of its configuration, which \<open>htons\<close> does not cut.\<close>

lemma port_fits: "config_ok s \<Longrightarrow> uint (word_of_int (port s) :: 16 word) = port s"
  by (simp add: config_ok_def uint_word_of_int)

lemma worker_socket:
  assumes "main args w = (Inr (In_worker sock), v)"
  shows "\<exists>us rs p. script w = us @ [A_sock sock, A_sock 0, A_sock 0] @ rs \<and> uint p = port (st v) \<and>
    sock_calls (trace v) = sock_calls (trace w) @
      [Sc_socket, Sc_setsockopt sock SOL_SOCKET SO_REUSEPORT 1, Sc_bind sock INADDR_ANY p]"
proof -
  from main_workers [OF assms] have w: "config_ok (st v)" "listens (script w) sock"
    "sock_calls (trace v) = sock_calls (trace w) @ listening_calls sock (port (st v))" by simp_all
  with port_fits [OF w(1)] show ?thesis unfolding listens_def listening_calls_def by blast
qed

text \<open>A start that succeeds: the settings of the command line override those of the file.\<close>

lemma store_keeps:
  assumes "setting_ok key n"
  shows "config_ok s \<Longrightarrow> config_ok (store_setting key n s)"
    and "log_file_desc (store_setting key n s) = log_file_desc s"
    and "help_opt (store_setting key n s) = help_opt s"
  using assms by (auto simp: setting_ok_def store_setting_def config_ok_def)

definition store_all :: "(string \<times> int) list \<Rightarrow> srv_config_t \<Rightarrow> srv_config_t" where
  "store_all kvs s = foldl (\<lambda>s (key, n). store_setting key n s) s kvs"

lemma store_all_keeps:
  assumes "\<forall>(key, n) \<in> set kvs. setting_ok key n"
  shows "(config_ok s \<longrightarrow> config_ok (store_all kvs s)) \<and> log_file_desc (store_all kvs s) = log_file_desc s \<and>
    help_opt (store_all kvs s) = help_opt s"
  using assms
proof (induction kvs arbitrary: s)
  case (Cons kv kvs)
  obtain key n where kv: "kv = (key, n)" by (cases kv)
  with Cons(2) have "setting_ok key n" by simp
  with store_keeps [OF this, of s] Cons(1) [of "store_setting key n s"] Cons(2) kv show ?case
    by (simp add: store_all_def)
qed (simp add: store_all_def)

lemma main_reads:
  assumes ok: "\<forall>(key, n) \<in> set kvs. setting_ok key n" "\<forall>(key, n) \<in> set kvs'. setting_ok key n"
    and sc: "script w = A_config (Some (config_text kvs)) # A_sock sock # A_sock 0 # A_sock 0 # A_fork 0 # s" and "0 \<le> sock"
    and c: "c = store_all (kvs @ kvs') (init_srv_config_default (st w))"
  shows "main (config_args kvs') w = (Inr (In_worker sock), w\<lparr>script := s, st := c, trace := trace w @
    Me_config (port c) (num_workers c) # map Me_sock (listening_calls sock (port c)) @ [Me_fork]\<rparr>)"
proof -
  let ?s0 = "init_srv_config_default (st w)" and ?r1 = "A_sock sock # A_sock 0 # A_sock 0 # A_fork 0 # s"
  have p1: "parse_srv_config (w\<lparr>st := ?s0\<rparr>) = (Inr 0, w\<lparr>script := ?r1, st := store_all kvs ?s0\<rparr>)"
    using config_loop_reads [OF ok(1), of "w\<lparr>st := ?s0, script := ?r1\<rparr>"]
    by (simp add: parse_srv_config_def sc io_exec store_all_def)
  have p2: "parse_srv_cmdline_opts (config_args kvs') (w\<lparr>script := ?r1, st := store_all kvs ?s0\<rparr>) =
      (Inr 0, w\<lparr>script := ?r1, st := c\<rparr>)"
    using opts_loop_reads [OF ok(2), of "w\<lparr>script := ?r1, st := store_all kvs ?s0\<rparr>"]
    by (simp add: parse_srv_cmdline_opts_def getopt_config_args c store_all_def)
  have s0: "log_file_desc ?s0 = Some Stdout" "\<not> help_opt ?s0" by (simp_all add: init_srv_config_default_def)
  have all: "\<forall>(key, n) \<in> set (kvs @ kvs'). setting_ok key n" using ok by auto
  have "config_ok c \<and> log_file_desc c = Some Stdout \<and> \<not> help_opt c"
    using store_all_keeps [OF all, of ?s0] default_config_ok [of "st w"] s0 unfolding c by simp
  then have c': "log_file_desc c = Some Stdout" "\<not> help_opt c" and n: "1 \<le> num_workers c" by (auto simp: config_ok_def)
  from n obtain m where m: "nat (num_workers c) = Suc m" by (cases "nat (num_workers c)") auto
  have ls: "create_listening_socket main_sock_op p u = (Inr sock, u\<lparr>script := rs, trace := trace u @ map Me_sock (listening_calls sock p)\<rparr>)"
    if "script u = A_sock sock # A_sock 0 # A_sock 0 # rs" for p u rs
    using \<open>0 \<le> sock\<close> that by (simp add: create_listening_socket_def main_sock_op_def listening_calls_def reuse_option io_exec)
  have gb: "io_bind (gets_st f) g u = g (f (st u)) u" for f and g :: "'b \<Rightarrow> 'c main_io" and u
    by (rule io_bind_Inr) (rule gets_st_run)
  show ?thesis
    using \<open>0 \<le> sock\<close>
    by (simp add: gb main_def io_exec p1 p2 c' print_srv_config_def fprintf_to_def io_bind_Inr [OF ls] m)
qed

end
