(* ===== verification/Sync_Srv.thy ===== *)
theory Sync_Srv
  imports Config Conn_IO Sock
begin

text \<open>
  \<open>srv/srv.c\<close>: the older server, which starts a thread for every client. A thread's run and the
  run of the accepting thread are separate worlds: what one sees of the other is the counter
  \<open>n_conn\<close>, which a thread increments atomically (an event) and the accepting thread loads (an
  answer).
\<close>

section \<open>Answers, events and state\<close>

datatype sync_resp =
    S_read "errno + bytes"         \<comment> \<open>what a \<open>read\<close> of the client's socket returns\<close>
  | S_write "errno + nat"          \<comment> \<open>how much a \<open>write\<close> takes at most\<close>
  | S_pthread int errno            \<comment> \<open>result of \<open>pthread_create\<close>, and \<open>errno\<close> after it\<close>
  | S_call int                     \<comment> \<open>result of a socket call\<close>
  | S_accept "errno + int"
  | S_clock "64 word" "64 word"
  | S_time int
  | S_load "64 word"               \<comment> \<open>\<open>atomic_load(&n_conn)\<close>\<close>

datatype sync_event =
    Se_write int bytes
  | Se_close int
  | Se_served                      \<comment> \<open>\<open>atomic_fetch_add(&n_conn, 1)\<close>\<close>
  | Se_thread int                  \<comment> \<open>a detached thread for this socket\<close>
  | Se_sock sock_call
  | Se_listen int int
  | Se_report "64 word" "64 word" "64 word"

datatype thread_end = Thread_returned | Pthread_exit int

record sync_state =
  accept_time :: "64 word"
  handle_time :: "64 word"
  prev_served :: "64 word"

type_synonym 'a sync_io = "(sync_resp, sync_state, sync_event, 'a) io"

definition READ_BUF_SIZE :: nat where "READ_BUF_SIZE = 1024"
definition WRITE_BUF_SIZE :: nat where "WRITE_BUF_SIZE = 1024"
definition ECHILD :: errno where "ECHILD = 10"
definition EXIT_SUCCESS :: int where "EXIT_SUCCESS = 0"

section \<open>The response\<close>

definition resp_headers :: bytes where
  "resp_headers =
     ''HTTP/1.1 200 OK'' @ [LF] @
     ''Content-Type: text/html; charset=UTF-8'' @ [LF] @
     ''Content-Length: 156'' @ [LF] @
     ''Date: Sat, 04 Oct 2025 14:51:00 GMT'' @ [LF] @
     ''Server: my_srv/1.0 (Ubuntu)'' @ [LF] @ [LF]"

definition resp_page :: bytes where
  "resp_page =
     ''<!DOCTYPE html>'' @ [LF] @
     ''<html>'' @ [LF] @
     ''<head>'' @ [LF] @
     ''    <title>Example Page</title>'' @ [LF] @
     ''</head>'' @ [LF] @
     ''<body>'' @ [LF] @
     ''    <h1>Welcome!</h1>'' @ [LF] @
     ''    <p>This is an example HTML page.</p>'' @ [LF] @
     ''</body>'' @ [LF] @
     ''</html>'' @ [LF]"

text \<open>The initialiser of an array fills it up with zeros.\<close>

definition resp_buf :: bytes where
  "resp_buf = (let text_bytes = resp_headers @ resp_page in
     text_bytes @ replicate (WRITE_BUF_SIZE - length text_bytes) NUL)"

section \<open>A client's thread\<close>

text \<open>The second half of \<open>conn_routine\<close>: the response, and the end of the connection.\<close>

definition conn_respond :: "int \<Rightarrow> thread_end sync_io" where
  "conn_respond new_socket =
     io_bind (answer Wait) (\<lambda>r. case r of
       S_write (Inl errno) \<Rightarrow>
         if errno = EPIPE then stop_with (Fault Sigpipe) else ret (Pthread_exit EXIT_FAILURE)
     | S_write (Inr n) \<Rightarrow>
         io_then (emit (Se_write new_socket (take n (take WRITE_BUF_SIZE resp_buf))))
         (io_then (emit (Se_close new_socket))
         (io_then (emit Se_served) (ret Thread_returned)))
     | _ \<Rightarrow> stop_with Mismatch)"

definition conn_routine :: "int \<Rightarrow> thread_end sync_io" where
  "conn_routine new_socket =
     io_bind (answer Wait) (\<lambda>r. case r of
       S_read (Inl errno) \<Rightarrow> ret (Pthread_exit EXIT_FAILURE)
     | S_read (Inr data) \<Rightarrow>
         if length (take READ_BUF_SIZE data) = 0 then ret (Pthread_exit EXIT_SUCCESS)
         else conn_respond new_socket
     | _ \<Rightarrow> stop_with Mismatch)"

definition thread_routine :: "int \<Rightarrow> thread_end sync_io" where
  "thread_routine arg = conn_routine arg"

section \<open>The accepting thread\<close>

definition retry_errno :: "errno \<Rightarrow> bool" where
  "retry_errno e \<longleftrightarrow> e = EAGAIN \<or> e = EINTR \<or> e = ECHILD"

definition thread_new_conn :: "int \<Rightarrow> unit sync_io" where
  "thread_new_conn new_socket =
     io_loop (\<lambda>_. io_bind (answer Wait) (\<lambda>r. case r of
       S_pthread ret_val errno \<Rightarrow>
         if ret_val \<noteq> 0
         then (if retry_errno errno then ret (Inl ()) else stop_with (Exit EXIT_FAILURE))
         else io_then (emit (Se_thread new_socket)) (ret (Inr ()))
     | _ \<Rightarrow> stop_with Mismatch)) ()"

definition sync_clock :: "64 word sync_io" where
  "sync_clock = io_bind (answer Wait) (\<lambda>r. case r of
     S_clock tv_sec tv_nsec \<Rightarrow> ret (tv_sec * 1000000000 + tv_nsec) | _ \<Rightarrow> stop_with Mismatch)"

definition load_served :: "64 word sync_io" where
  "load_served = io_bind (answer Wait) (\<lambda>r. case r of S_load n \<Rightarrow> ret n | _ \<Rightarrow> stop_with Mismatch)"

definition sync_time :: "int sync_io" where
  "sync_time = io_bind (answer Wait) (\<lambda>r. case r of S_time t \<Rightarrow> ret t | _ \<Rightarrow> stop_with Mismatch)"

text \<open>The report, once a second. The three loads of the counter can see different values.\<close>

definition sync_report :: "unit sync_io" where
  "sync_report =
     io_bind load_served (\<lambda>n. io_bind (gets_st prev_served) (\<lambda>prev.
     io_then (io_when (n - prev \<noteq> 0)
       (io_bind load_served (\<lambda>n. io_bind (gets_st (\<lambda>s. s)) (\<lambda>s.
          emit (Se_report (n - prev_served s) (accept_time s div 1000000) (handle_time s div 1000000))))))
     (io_then (modify_st (\<lambda>s. s\<lparr>accept_time := 0, handle_time := 0\<rparr>))
     (io_bind load_served (\<lambda>n. modify_st (\<lambda>s. s\<lparr>prev_served := n\<rparr>))))))"

definition accept_body :: "int \<Rightarrow> int \<Rightarrow> (int + unit) sync_io" where
  "accept_body server_fd all_start =
     io_bind sync_clock (\<lambda>ts.
     io_bind (answer Wait) (\<lambda>r. case r of
       S_accept (Inl errno) \<Rightarrow>
         if retry_errno errno then ret (Inl all_start) else stop_with (Exit EXIT_FAILURE)
     | S_accept (Inr new_socket) \<Rightarrow>
         io_bind sync_clock (\<lambda>te.
         io_then (modify_st (\<lambda>s. s\<lparr>accept_time := accept_time s + (te - ts)\<rparr>))
         (io_bind sync_clock (\<lambda>ts.
         io_then (thread_new_conn new_socket)
         (io_bind sync_clock (\<lambda>te.
         io_then (modify_st (\<lambda>s. s\<lparr>handle_time := handle_time s + (te - ts)\<rparr>))
         (io_bind sync_time (\<lambda>all_end.
         if all_end - all_start \<ge> 1 then io_then sync_report (ret (Inl all_end))
         else ret (Inl all_start))))))))
     | _ \<Rightarrow> stop_with Mismatch))"

definition sync_call :: "sync_event \<Rightarrow> int sync_io" where
  "sync_call e = io_then (emit e) (io_bind (answer Wait) (\<lambda>r. case r of
     S_call n \<Rightarrow> ret n | _ \<Rightarrow> stop_with Mismatch))"

definition sync_setup :: "int \<Rightarrow> int sync_io" where
  "sync_setup port_num =
     io_bind (sync_call (Se_sock Sc_socket)) (\<lambda>server_fd.
     if server_fd = -1 then stop_with (Exit EXIT_FAILURE)
     else io_bind (sync_call (Se_sock (Sc_setsockopt server_fd SOL_SOCKET SO_REUSEADDR 1))) (\<lambda>r.
     if r \<noteq> 0 then stop_with (Exit EXIT_FAILURE)
     else io_bind (sync_call (Se_sock (Sc_bind server_fd INADDR_ANY (word_of_int port_num)))) (\<lambda>r.
     if r \<noteq> 0 then stop_with (Exit EXIT_FAILURE)
     else io_bind (sync_call (Se_listen server_fd 1000)) (\<lambda>r.
     if r < 0 then stop_with (Exit EXIT_FAILURE) else ret server_fd))))"

definition sync_main :: "string list \<Rightarrow> unit sync_io" where
  "sync_main args =
     io_bind (case args of [] \<Rightarrow> ret 8080 | a # _ \<Rightarrow> lift_fault (atoi a)) (\<lambda>port_num.
     io_bind (sync_setup port_num) (\<lambda>server_fd.
     io_bind sync_time (\<lambda>all_start.
     io_loop (accept_body server_fd) all_start)))"

section \<open>What a thread does\<close>

lemma resp_lengths: "length resp_headers = 140" "length resp_page = 156"
  by code_simp+

lemma resp_buf_layout: "resp_buf = resp_headers @ resp_page @ replicate 728 NUL" "length resp_buf = WRITE_BUF_SIZE"
  by (simp_all add: resp_buf_def resp_lengths WRITE_BUF_SIZE_def Let_def)

lemma conn_respond_result:
  assumes "conn_respond sock w = (Inr r, v)"
  shows "case r of
      Thread_returned \<Rightarrow> \<exists>n. trace v = trace w @ [Se_write sock (take n resp_buf), Se_close sock, Se_served]
    | Pthread_exit code \<Rightarrow> trace v = trace w"
proof -
  have t: "take WRITE_BUF_SIZE resp_buf = resp_buf" using resp_buf_layout(2) by simp
  from assms obtain y rs where s: "script w = S_write y # rs"
    by (cases "script w"; cases "hd (script w)") (auto simp: conn_respond_def io_exec)
  with assms show ?thesis by (cases y) (auto simp: conn_respond_def io_exec t split: if_splits)
qed

lemma conn_routine_result:
  assumes "conn_routine sock w = (Inr r, v)"
  shows "case r of
      Thread_returned \<Rightarrow> \<exists>n. trace v = trace w @ [Se_write sock (take n resp_buf), Se_close sock, Se_served]
    | Pthread_exit code \<Rightarrow> trace v = trace w"
proof -
  from assms obtain x rs where s: "script w = S_read x # rs"
    by (cases "script w"; cases "hd (script w)") (auto simp: conn_routine_def io_exec)
  with assms consider code where "r = Pthread_exit code" "v = w\<lparr>script := rs\<rparr>"
    | "conn_respond sock (w\<lparr>script := rs\<rparr>) = (Inr r, v)"
    by (cases x) (auto simp: conn_routine_def io_exec split: if_splits)
  then show ?thesis
  proof cases
    case 2
    from conn_respond_result [OF this] show ?thesis by (cases r) simp_all
  qed simp
qed

lemma conn_routine_closes:
  assumes "conn_routine sock w = (Inr r, v)" and "trace w = []"
  shows "Se_close sock \<in> set (trace v) \<longleftrightarrow> r = Thread_returned"
  using conn_routine_result [OF assms(1)] assms(2) by (cases r) auto

section \<open>The threads of the accepted clients\<close>

definition threads :: "sync_event list \<Rightarrow> int list" where
  "threads t = concat (map (\<lambda>e. case e of Se_thread s \<Rightarrow> [s] | _ \<Rightarrow> []) t)"

lemma threads_append [simp]: "threads (t @ t') = threads t @ threads t'"
  by (simp add: threads_def)

lemma thread_new_conn_result:
  assumes "thread_new_conn sock w = (Inr u, v)"
  shows "threads (trace v) = threads (trace w) @ [sock] \<and> st v = st w"
proof -
  let ?b = "\<lambda>_. io_bind (answer Wait) (\<lambda>r. case r of
       S_pthread ret_val errno \<Rightarrow>
         if ret_val \<noteq> 0
         then (if retry_errno errno then ret (Inl ()) else stop_with (Exit EXIT_FAILURE))
         else io_then (emit (Se_thread sock)) (ret (Inr ()))
     | _ \<Rightarrow> stop_with Mismatch)"
  let ?same = "\<lambda>w' :: (sync_resp, sync_state, sync_event) world. trace w' = trace w \<and> st w' = st w"
  let ?done = "\<lambda>r w'. case r of Inl s \<Rightarrow> True | Inr u \<Rightarrow> threads (trace w') = threads (trace w) @ [sock] \<and> st w' = st w"
  have "triple ?same (io_loop ?b ()) ?done"
  proof (rule triple_loop)
    fix l
    show "triple ?same (?b l) (\<lambda>r v. case r of Inl s \<Rightarrow> ?done (Inl s) v | Inr (Inl l') \<Rightarrow> ?same v | Inr (Inr a) \<Rightarrow> ?done (Inr a) v)"
    proof (rule tripleI)
      fix w' r v assume s: "?same w'" and run: "?b l w' = (r, v)"
      show "case r of Inl s \<Rightarrow> ?done (Inl s) v | Inr (Inl l') \<Rightarrow> ?same v | Inr (Inr a) \<Rightarrow> ?done (Inr a) v"
        using s run by (cases "script w'"; cases "hd (script w')")
          (auto simp: io_exec threads_def split: if_splits)
    qed
  qed simp
  from tripleD [OF this, of w "Inr u" v] assms show ?thesis by (simp add: thread_new_conn_def)
qed

text \<open>The accept loop hands every accepted socket to one thread: \<open>handed rs d w\<close>, where \<open>rs\<close> are all answers
  of the run and \<open>d\<close> the sockets accepted and not yet handed on.\<close>

definition accepted :: "sync_resp list \<Rightarrow> int list" where
  "accepted rs = concat (map (\<lambda>r. case r of S_accept (Inr s) \<Rightarrow> [s] | _ \<Rightarrow> []) rs)"

lemma accepted_simps [simp]:
  "accepted [] = []" "accepted (rs @ rs') = accepted rs @ accepted rs'"
  "accepted (r # rs) = (case r of S_accept (Inr s) \<Rightarrow> [s] | _ \<Rightarrow> []) @ accepted rs"
  by (simp_all add: accepted_def)

lemma threads_simps [simp]:
  "threads [] = []" "threads (e # t) = (case e of Se_thread s \<Rightarrow> [s] | _ \<Rightarrow> []) @ threads t"
  by (simp_all add: threads_def)

definition handed :: "sync_resp list \<Rightarrow> int list \<Rightarrow> (sync_resp, sync_state, sync_event) world \<Rightarrow> bool" where
  "handed rs d w \<longleftrightarrow> (\<exists>used. rs = used @ script w \<and> accepted used = threads (trace w) @ d)"

definition hands :: "sync_resp list \<Rightarrow> int list \<Rightarrow> 'a sync_io \<Rightarrow> ('a \<Rightarrow> int list) \<Rightarrow> bool" where
  "hands rs d m d' \<longleftrightarrow> triple (handed rs d) m (\<lambda>r v. case r of
     Inl s \<Rightarrow> s \<noteq> Mismatch \<longrightarrow> (\<exists>e. length e \<le> 1 \<and> handed rs e v) | Inr a \<Rightarrow> handed rs (d' a) v)"

lemma hands_bind:
  assumes "hands rs d m d'" and "\<And>a. hands rs (d' a) (f a) e"
  shows "hands rs d (io_bind m f) e"
  unfolding hands_def
  by (rule triple_bind [OF assms(1) [unfolded hands_def]]) (use assms(2) in \<open>auto simp: hands_def\<close>)

lemma hands_then: "hands rs d m d' \<Longrightarrow> (\<And>a. hands rs (d' a) k e) \<Longrightarrow> hands rs d (io_then m k) e"
  unfolding io_then_def by (rule hands_bind)

lemma hands_ret: "d = e a \<Longrightarrow> hands rs d (ret a) e"
  by (auto simp: hands_def triple_def io_exec)

lemma hands_stop: "s = Mismatch \<or> length d \<le> 1 \<Longrightarrow> hands rs d (stop_with s) e"
  by (auto simp: hands_def triple_def io_exec)

lemma hands_gets: "hands rs d (gets_st f) (\<lambda>_. d)"
  by (auto simp: hands_def triple_def io_exec)

lemma hands_modify: "hands rs d (modify_st f) (\<lambda>_. d)"
  by (auto simp: hands_def triple_def io_exec handed_def)

lemma hands_emit: "(\<And>s. e \<noteq> Se_thread s) \<Longrightarrow> hands rs d (emit e) (\<lambda>_. d)"
  by (auto simp: hands_def triple_def io_exec handed_def split: sync_event.splits)

lemma hands_thread: "hands rs (s # d) (emit (Se_thread s)) (\<lambda>_. d)"
  by (auto simp: hands_def triple_def io_exec handed_def)

text \<open>An answer other than an accepted socket, or of the wrong kind.\<close>

lemma hands_answer:
  assumes "length d \<le> 1" and "\<And>r. accepted [r] = [] \<Longrightarrow> hands rs d (f r) e"
    and "\<And>s. hands rs (d @ [s]) (f (S_accept (Inr s))) e"
  shows "hands rs d (io_bind (answer Wait) f) e"
  unfolding hands_def
proof (rule tripleI)
  fix w r v
  assume w: "handed rs d w" and run: "io_bind (answer Wait) f w = (r, v)"
  show "case r of Inl s \<Rightarrow> s \<noteq> Mismatch \<longrightarrow> (\<exists>e. length e \<le> 1 \<and> handed rs e v) | Inr a \<Rightarrow> handed rs (e a) v"
  proof (cases "script w")
    case Nil
    with w run assms(1) show ?thesis by (auto simp: io_exec)
  next
    case (Cons x xs)
    from w obtain used where u: "rs = used @ script w" "accepted used = threads (trace w) @ d"
      by (auto simp: handed_def)
    let ?d = "d @ accepted [x]"
    have "handed rs ?d (w\<lparr>script := xs\<rparr>)"
      unfolding handed_def using u Cons by (intro exI [of _ "used @ [x]"]) simp
    moreover have "hands rs ?d (f x) e"
      using assms(2) [of x] assms(3) by (cases x) (auto split: sum.splits)
    moreover have "f x (w\<lparr>script := xs\<rparr>) = (r, v)" using run Cons by (simp add: io_exec)
    ultimately show ?thesis unfolding hands_def by (auto dest: tripleD)
  qed
qed

lemma hands_sync_clock: "length d \<le> 1 \<Longrightarrow> hands rs d sync_clock (\<lambda>_. d)"
  unfolding sync_clock_def by (rule hands_answer) (auto intro!: hands_ret hands_stop split: sync_resp.splits)

lemma hands_load_served: "length d \<le> 1 \<Longrightarrow> hands rs d load_served (\<lambda>_. d)"
  unfolding load_served_def by (rule hands_answer) (auto intro!: hands_ret hands_stop split: sync_resp.splits)

lemma hands_sync_time: "length d \<le> 1 \<Longrightarrow> hands rs d sync_time (\<lambda>_. d)"
  unfolding sync_time_def by (rule hands_answer) (auto intro!: hands_ret hands_stop split: sync_resp.splits)

lemma hands_report: "hands rs [] sync_report (\<lambda>_. [])"
  unfolding sync_report_def io_when_def
  by (intro hands_bind [where d' = "\<lambda>_. []"] hands_then [where d' = "\<lambda>_. []"] hands_load_served hands_gets hands_modify)
    (auto intro!: hands_bind [where d' = "\<lambda>_. []"] hands_load_served hands_gets hands_emit hands_ret)

lemma hands_loop:
  assumes "\<And>l. hands rs d (body l) (\<lambda>r. case r of Inl l' \<Rightarrow> d | Inr a \<Rightarrow> e a)" and "length d \<le> 1"
  shows "hands rs d (io_loop body l) e"
proof -
  let ?Q = "\<lambda>r v. case r of
     Inl s \<Rightarrow> s \<noteq> Mismatch \<longrightarrow> (\<exists>e. length e \<le> 1 \<and> handed rs e v) | Inr a \<Rightarrow> handed rs (e a) v"
  have "triple (handed rs d) (body l)
      (\<lambda>r v. case r of Inl s \<Rightarrow> ?Q (Inl s) v | Inr (Inl l') \<Rightarrow> handed rs d v | Inr (Inr a) \<Rightarrow> ?Q (Inr a) v)" for l
    by (rule triple_conseq [OF assms(1) [unfolded hands_def]]) (auto split: sum.splits)
  then show ?thesis
    unfolding hands_def using assms(2) by (intro triple_loop [where I = "\<lambda>_. handed rs d"]) auto
qed

lemma hands_thread_new_conn: "hands rs [sock] (thread_new_conn sock) (\<lambda>_. [])"
  unfolding thread_new_conn_def
  by (rule hands_loop, rule hands_answer)
    (auto intro!: hands_ret hands_stop hands_then [OF hands_thread] split: sync_resp.splits)

lemma hands_new_client:
  "hands rs [sock]
     (io_bind sync_clock (\<lambda>te. io_then (modify_st (\<lambda>s. f te s)) (io_bind sync_clock (\<lambda>ts.
        io_then (thread_new_conn sock) (m ts))))) e"
  if "\<And>ts. hands rs [] (m ts) e"
  by (intro hands_bind [OF hands_sync_clock] hands_then [OF hands_modify] hands_then [OF hands_thread_new_conn] that)
    simp_all

lemma hands_accept: "hands rs [] (accept_body fd l) (\<lambda>_. [])"
proof -
  have tail: "hands rs [] (io_bind sync_clock (\<lambda>te. io_then (modify_st (f ts te)) (io_bind sync_time (\<lambda>all_end.
      if all_end - l \<ge> 1 then io_then sync_report (ret (Inl all_end)) else ret (Inl l)))))
    (\<lambda>_. [])" for f :: "64 word \<Rightarrow> 64 word \<Rightarrow> sync_state \<Rightarrow> sync_state" and ts
    by (intro hands_bind [OF hands_sync_clock] hands_then [OF hands_modify] hands_bind [OF hands_sync_time])
      (auto intro!: hands_then [OF hands_report] hands_ret)
  show ?thesis
    unfolding accept_body_def
    by (intro hands_bind [OF hands_sync_clock] hands_answer)
      (auto intro!: hands_ret hands_stop hands_new_client tail split: sync_resp.splits sum.splits)
qed

lemma hands_sync_call: "(\<And>s. ev \<noteq> Se_thread s) \<Longrightarrow> hands rs [] (sync_call ev) (\<lambda>_. [])"
  unfolding sync_call_def
  by (rule hands_then [OF hands_emit], assumption, rule hands_answer)
    (auto intro!: hands_ret hands_stop split: sync_resp.splits)

lemma hands_setup: "hands rs [] (sync_setup p) (\<lambda>_. [])"
  unfolding sync_setup_def
  by (auto intro!: hands_bind [OF hands_sync_call] hands_ret hands_stop)

lemma hands_main: "hands rs [] (sync_main args) (\<lambda>_. [])"
proof -
  have port: "hands rs [] (case args of [] \<Rightarrow> ret 8080 | a # _ \<Rightarrow> lift_fault (atoi a)) (\<lambda>_. [])"
    by (auto simp: lift_fault_def intro!: hands_ret hands_stop split: list.splits sum.splits)
  have "hands rs [] (io_loop (accept_body fd) l) (\<lambda>_. [])" for fd l
    using hands_accept by (intro hands_loop) (auto simp: hands_def triple_def split: sum.splits)
  then show ?thesis
    unfolding sync_main_def
    by (intro hands_bind [OF port] hands_bind [OF hands_setup] hands_bind [OF hands_sync_time]) simp_all
qed

text \<open>The accept loop has no end of its own.\<close>

lemma accept_continues: "fst (accept_body fd l w) \<noteq> Inr (Inr u)"
proof -
  have "accept_body fd l w \<noteq> (Inr (Inr u), v)" for v
    by (auto simp: accept_body_def io_bind_returns io_then_returns io_exec
        split: sync_resp.splits sum.splits if_splits)
  then show ?thesis by (metis prod.collapse)
qed

lemma accept_loop_endless: "io_loop (accept_body fd) l w \<noteq> (Inr u, v)"
proof -
  have "triple (\<lambda>_. True) (io_loop (accept_body fd) l) (\<lambda>r v. isl r)"
    by (rule triple_loop [where I = "\<lambda>_ _. True"])
      (auto simp: triple_def accept_continues split: sum.splits prod.splits)
  then have "isl (fst (io_loop (accept_body fd) l w))" by (auto simp: triple_def)
  then show ?thesis by auto
qed

text \<open>Every socket is handed to one thread, in the order of the accepts.\<close>

lemma sync_main_hands:
  assumes "sync_main args w = (r, v)" and "trace w = []"
  shows "\<exists>s. r = Inl s \<and> (s = Mismatch \<or> (\<exists>used pending. script w = used @ script v \<and>
    accepted used = threads (trace v) @ pending \<and> length pending \<le> 1))"
proof -
  have "handed (script w) [] w" using assms(2) by (simp add: handed_def)
  from tripleD [OF hands_main [unfolded hands_def] this assms(1)]
  have h: "case r of Inl s \<Rightarrow> s \<noteq> Mismatch \<longrightarrow> (\<exists>e. length e \<le> 1 \<and> handed (script w) e v)
    | Inr a \<Rightarrow> handed (script w) [] v" .
  have "r \<noteq> Inr u" for u
    using assms(1) by (auto simp: sync_main_def io_bind_returns accept_loop_endless)
  then obtain s where "r = Inl s" by (cases r) auto
  with h show ?thesis by (auto simp: handed_def)
qed

end
