(* ===== verification/Client.thy ===== *)
theory Client
  imports Config Conn_IO Http_Wire
begin

text \<open>
  \<open>client.c\<close>: the load generator. It connects, sends one request, reads once and starts again.
\<close>

section \<open>Answers and events\<close>

datatype client_resp =
    C_call int            \<comment> \<open>result of a socket call\<close>
  | C_inet_pton int
  | C_send_cnt nat        \<comment> \<open>how much of the request the kernel took\<close>
  | C_send_err errno
  | C_read int            \<comment> \<open>result of \<open>read\<close>, which is not looked at\<close>

datatype client_event =
    Ce_sock sock_call
  | Ce_connect int string "16 word"\<comment> \<open>socket, address text, port\<close>
  | Ce_send int bytes
  | Ce_close int

type_synonym 'a client_io = "(client_resp, unit, client_event, 'a) io"

definition BUFFER_SIZE :: nat where "BUFFER_SIZE = 1024"
definition ADDR_SIZE :: nat where "ADDR_SIZE = 20"

definition client_request :: bytes where
  "client_request =
     '' GET / HTTP/1.0'' @ [LF] @ ''Host: 127.0.0.1:8080'' @ [LF] @ ''User-Agent: Srv/1.0'' @ [LF] @
     ''Accept: */*'' @ [LF]"

text \<open>The buffers as they are initialised and written, with the zeros behind the text.\<close>

definition send_buf :: bytes where
  "send_buf = client_request @ replicate (BUFFER_SIZE - length client_request) NUL"

definition default_addr :: bytes where
  "default_addr = ''127.0.0.1'' @ replicate (ADDR_SIZE - 9) NUL"

definition strncpy :: "string \<Rightarrow> nat \<Rightarrow> bytes" where
  "strncpy src n = (let t = take n (c_string src) in t @ replicate (n - length t) NUL)"

section \<open>One request\<close>

definition client_call :: "client_event \<Rightarrow> int client_io" where
  "client_call e = io_then (emit e) (io_bind (answer Wait) (\<lambda>r. case r of
     C_call n \<Rightarrow> ret n | _ \<Rightarrow> stop_with Mismatch))"

text \<open>\<open>inet_pton\<close> reads its argument up to the terminating zero, which an address of 20 or more
  characters does not have.\<close>

definition inet_pton :: "bytes \<Rightarrow> int client_io" where
  "inet_pton addr =
     (if NUL \<notin> set addr then stop_with (Fault (Out_of_bounds (int (length addr))))
      else io_bind (answer Wait) (\<lambda>r. case r of C_inet_pton n \<Rightarrow> ret n | _ \<Rightarrow> stop_with Mismatch))"

text \<open>
  \<open>send(sock, send_buf, to_send, 0)\<close>, with \<open>to_send\<close> the length of the text. Its result is not looked at; on a
  connection the peer has reset it raises \<open>SIGPIPE\<close>, which ends the program.
\<close>

definition client_send :: "int \<Rightarrow> unit client_io" where
  "client_send sock =
     io_bind (answer Wait) (\<lambda>r. case r of
       C_send_err e \<Rightarrow> if e = EPIPE then stop_with (Fault Sigpipe) else ret ()
     | C_send_cnt k \<Rightarrow> emit (Ce_send sock (take k (take (length (c_string send_buf)) send_buf)))
     | _ \<Rightarrow> stop_with Mismatch)"

text \<open>
  From the label \<open>again\<close> to the next jump there, with the part from \<open>connect\<close> on as a definition
  of its own: \<open>Inr\<close> is the return value of \<open>main\<close>.
\<close>

definition client_session :: "int \<Rightarrow> bytes \<Rightarrow> int \<Rightarrow> (unit + int) client_io" where
  "client_session sock srv_addr srv_port =
     io_bind (client_call (Ce_connect sock (c_string srv_addr) (word_of_int srv_port))) (\<lambda>r.
     if r < 0 then io_then (emit (Ce_close sock)) (ret (Inl ()))
     else io_then (client_send sock)
       (io_bind (answer Wait) (\<lambda>r. case r of
          C_read n \<Rightarrow> io_then (emit (Ce_close sock)) (ret (Inl ()))
        | _ \<Rightarrow> stop_with Mismatch)))"

definition client_round :: "bytes \<Rightarrow> int \<Rightarrow> (unit + int) client_io" where
  "client_round srv_addr srv_port =
     io_bind (client_call (Ce_sock Sc_socket)) (\<lambda>sock.
     if sock < 0 then ret (Inr (-1))
     else io_bind (client_call (Ce_sock (Sc_setsockopt sock SOL_SOCKET SO_REUSEADDR 1))) (\<lambda>r.
     if r \<noteq> 0 then stop_with (Exit EXIT_FAILURE)
     else io_bind (inet_pton srv_addr) (\<lambda>r.
     if r \<le> 0 then ret (Inr (-1)) else client_session sock srv_addr srv_port)))"

definition client_main :: "string list \<Rightarrow> int client_io" where
  "client_main args =
     io_bind (case args of
         addr # p # _ \<Rightarrow> io_bind (lift_fault (atoi p)) (\<lambda>n. ret (strncpy addr ADDR_SIZE, n))
       | _ \<Rightarrow> ret (default_addr, 8080))
       (\<lambda>(srv_addr, srv_port). io_loop (\<lambda>_. client_round srv_addr srv_port) ())"

section \<open>What a round does\<close>

lemma c_string_padded: "NUL \<notin> set s \<Longrightarrow> c_string (s @ replicate n NUL) = s"
  unfolding c_string_def by (subst takeWhile_append2) (auto simp: takeWhile_replicate)

lemma c_string_no_NUL: "NUL \<notin> set (c_string s)"
  by (auto simp: c_string_def dest: set_takeWhileD)

lemma client_request_facts:
  "length client_request = 69" "NUL \<notin> set client_request" "find_http_headers_end client_request = 0"
  by code_simp+

lemma sent_bytes: "take (length (c_string send_buf)) send_buf = client_request"
  by (simp add: send_buf_def c_string_padded client_request_facts(2))

text \<open>\<open>strncpy\<close> into the array keeps a text that fits and leaves no terminating zero behind one that does not.\<close>

lemma strncpy_fits: "length (c_string s) \<le> n \<Longrightarrow> c_string (strncpy s n) = c_string s"
  by (simp add: strncpy_def Let_def c_string_padded c_string_no_NUL)

lemma strncpy_unterminated: "NUL \<notin> set (strncpy s n) \<longleftrightarrow> n \<le> length (c_string s)"
  using c_string_no_NUL [of s] by (auto simp: strncpy_def Let_def dest: in_set_takeD)

lemma client_call_result:
  assumes "client_call e w = (Inr n, v)"
  shows "trace v = trace w @ [e] \<and> script w = C_call n # script v"
  using assms by (cases "script w"; cases "hd (script w)") (auto simp: client_call_def io_exec)

lemma inet_pton_result:
  assumes "inet_pton a w = (Inr n, v)"
  shows "NUL \<in> set a \<and> trace v = trace w \<and> script w = C_inet_pton n # script v"
  using assms by (cases "script w"; cases "hd (script w)") (auto simp: inet_pton_def io_exec split: if_splits)

text \<open>What is sent for the answer of \<open>send\<close>: nothing when it failed.\<close>

fun sent_by :: "int \<Rightarrow> client_resp \<Rightarrow> client_event list" where
  "sent_by sock (C_send_cnt k) = [Ce_send sock (take k client_request)]"
| "sent_by sock _ = []"

fun is_send_answer :: "client_resp \<Rightarrow> bool" where
  "is_send_answer (C_send_cnt k) = True"
| "is_send_answer (C_send_err e) = (e \<noteq> EPIPE)"
| "is_send_answer _ = False"

lemma client_send_result:
  assumes "client_send sock w = (Inr u, v)"
  shows "\<exists>a. script w = a # script v \<and> is_send_answer a \<and>
    trace v = trace w @ sent_by sock a"
  using assms unfolding client_send_def sent_bytes
  by (cases "script w"; cases "hd (script w)") (auto simp: io_exec split: if_splits)

lemma read_and_close:
  assumes "io_bind (answer Wait) (\<lambda>r. case r of
          C_read n \<Rightarrow> io_then (emit (Ce_close sock)) (ret (Inl ()))
        | _ \<Rightarrow> stop_with Mismatch) w = (Inr r, v)"
  shows "r = Inl () \<and> (\<exists>n. script w = C_read n # script v) \<and> trace v = trace w @ [Ce_close sock]"
  using assms by (cases "script w"; cases "hd (script w)") (auto simp: io_exec)

text \<open>From \<open>connect\<close> on: what the answers \<open>rs\<close> make the client do.\<close>

fun session_events :: "int \<Rightarrow> client_resp list \<Rightarrow> client_event list" where
  "session_events sock [C_call r] = [Ce_close sock]"
| "session_events sock [C_call r, a, C_read n] = sent_by sock a @ [Ce_close sock]"
| "session_events sock _ = []"

fun session_answers :: "client_resp list \<Rightarrow> bool" where
  "session_answers [C_call r] = (r < 0)"
| "session_answers [C_call r, a, C_read n] = (0 \<le> r \<and> is_send_answer a)"
| "session_answers _ = False"

lemma session_answers_cases:
  assumes "session_answers rs"
  shows "(\<exists>n < 0. rs = [C_call n]) \<or>
    (\<exists>n \<ge> 0. \<exists>m. (\<exists>k. rs = [C_call n, C_send_cnt k, C_read m]) \<or>
      (\<exists>e. e \<noteq> EPIPE \<and> rs = [C_call n, C_send_err e, C_read m]))"
  using assms
proof (cases rs rule: session_answers.cases)
  case (2 r a n)
  with assms show ?thesis by (cases a) auto
qed auto

lemma client_session_result:
  assumes "client_session sock addr p w = (Inr r, v)"
  shows "r = Inl () \<and> (\<exists>rs. script w = rs @ script v \<and> session_answers rs \<and>
    trace v = trace w @ Ce_connect sock (c_string addr) (word_of_int p) # session_events sock rs)"
proof -
  from assms obtain n w1 where c: "client_call (Ce_connect sock (c_string addr) (word_of_int p)) w = (Inr n, w1)"
    and k: "(if n < 0 then io_then (emit (Ce_close sock)) (ret (Inl ()))
     else io_then (client_send sock) (io_bind (answer Wait) (\<lambda>r. case r of
          C_read n \<Rightarrow> io_then (emit (Ce_close sock)) (ret (Inl ()))
        | _ \<Rightarrow> stop_with Mismatch))) w1 = (Inr r, v)"
    unfolding client_session_def io_bind_returns by blast
  note t = client_call_result [OF c]
  show ?thesis
  proof (cases "n < 0")
    case True
    with k have "r = Inl ()" "script v = script w1" "trace v = trace w1 @ [Ce_close sock]" by (auto simp: io_exec)
    with t True show ?thesis by (intro conjI exI [of _ "[C_call n]"]) simp_all
  next
    case False
    with k obtain w2 where s: "client_send sock w1 = (Inr (), w2)"
      and rd: "io_bind (answer Wait) (\<lambda>r. case r of
          C_read n \<Rightarrow> io_then (emit (Ce_close sock)) (ret (Inl ()))
        | _ \<Rightarrow> stop_with Mismatch) w2 = (Inr r, v)" by (auto simp: io_then_returns)
    from client_send_result [OF s] obtain a where a: "script w1 = a # script w2"
      "is_send_answer a" "trace w2 = trace w1 @ sent_by sock a" by blast
    from read_and_close [OF rd] obtain m where m: "r = Inl ()" "script w2 = C_read m # script v"
      "trace v = trace w2 @ [Ce_close sock]" by blast
    show ?thesis
      using t a m False by (intro conjI exI [of _ "[C_call n, a, C_read m]"]) simp_all
  qed
qed

lemma client_round_result:
  assumes "client_round addr p w = (Inr res, v)"
  shows "\<exists>sock rs. script w = C_call sock # rs @ script v \<and>
    (if sock < 0 then res = Inr (-1) \<and> rs = [] \<and> trace v = trace w @ [Ce_sock Sc_socket]
     else NUL \<in> set addr \<and> (\<exists>a rs'. rs = C_call 0 # C_inet_pton a # rs' \<and>
       (if a \<le> 0 then res = Inr (-1) \<and> rs' = [] \<and>
          trace v = trace w @ [Ce_sock Sc_socket, Ce_sock (Sc_setsockopt sock SOL_SOCKET SO_REUSEADDR 1)]
        else res = Inl () \<and> session_answers rs' \<and>
          trace v = trace w @ [Ce_sock Sc_socket, Ce_sock (Sc_setsockopt sock SOL_SOCKET SO_REUSEADDR 1),
            Ce_connect sock (c_string addr) (word_of_int p)] @ session_events sock rs')))"
proof -
  from assms obtain sock w1 where c: "client_call (Ce_sock Sc_socket) w = (Inr sock, w1)"
    and k: "(if sock < 0 then ret (Inr (-1))
     else io_bind (client_call (Ce_sock (Sc_setsockopt sock SOL_SOCKET SO_REUSEADDR 1))) (\<lambda>r.
     if r \<noteq> 0 then stop_with (Exit EXIT_FAILURE)
     else io_bind (inet_pton addr) (\<lambda>r.
     if r \<le> 0 then ret (Inr (-1)) else client_session sock addr p))) w1 = (Inr res, v)"
    unfolding client_round_def by (auto simp: io_bind_returns)
  note t = client_call_result [OF c]
  show ?thesis
  proof (cases "sock < 0")
    case True
    with k t show ?thesis by (intro exI [of _ sock] exI [of _ "[]"]) (auto simp: ret_def)
  next
    case False
    with k obtain w2 a w3 where d: "client_call (Ce_sock (Sc_setsockopt sock SOL_SOCKET SO_REUSEADDR 1)) w1 = (Inr 0, w2)"
      "inet_pton addr w2 = (Inr a, w3)" and e: "(if a \<le> 0 then ret (Inr (-1)) else client_session sock addr p) w3 = (Inr res, v)"
      by (auto simp: io_bind_returns stop_with_def split: if_splits)
    note t = t client_call_result [OF d(1)] inet_pton_result [OF d(2)]
    show ?thesis
    proof (cases "a \<le> 0")
      case True
      with e t False show ?thesis
        by (intro exI [of _ sock] exI [of _ "[C_call 0, C_inet_pton a]"]) (auto simp: ret_def)
    next
      case pos: False
      with client_session_result [of sock addr p w3 res v] e obtain rs where "res = Inl ()" "script w3 = rs @ script v"
        "session_answers rs" "trace v = trace w3 @ Ce_connect sock (c_string addr) (word_of_int p) # session_events sock rs"
        by auto
      with t False pos show ?thesis
        by (intro exI [of _ sock] exI [of _ "[C_call 0, C_inet_pton a] @ rs"]) auto
    qed
  qed
qed

lemma client_overlong_address:
  assumes "20 \<le> length (c_string addr)" and "script w = C_call sock # C_call 0 # s" and "0 \<le> sock"
  shows "fst (client_round (strncpy addr ADDR_SIZE) p w) = Inl (Fault (Out_of_bounds 20))"
proof -
  have "NUL \<notin> set (strncpy addr ADDR_SIZE)" using assms(1) strncpy_unterminated by (simp add: ADDR_SIZE_def)
  moreover have "length (strncpy addr ADDR_SIZE) = 20"
    using assms(1) by (simp add: ADDR_SIZE_def strncpy_def Let_def)
  ultimately show ?thesis using assms(2,3)
    by (simp add: client_round_def client_call_def inet_pton_def io_exec)
qed

end
