(* ===== verification/Spec2Isabelle.thy ===== *)
theory Spec2Isabelle
  imports Io_Result Service Srv_Main Sync_Srv Client "HOL-Library.Code_Target_Nat" "HOL-Library.Code_Target_Int"
begin

text \<open>
  Verification of the repository's programs: \<open>srv_async\<close>, an HTTP server whose workers serve
  many clients in one thread with coroutines; \<open>srv\<close>, a small server with a thread per client;
  and \<open>client\<close>, a load generator.

  \<^bold>\<open>The parts and how they interact.\<close> \<open>main\<close> (\<open>srv_async.c\<close>) reads \<open>srv.config\<close> and the command
  line, makes the listening socket and forks workers, then waits for them. A worker
  (\<open>handle_connections_routine\<close>, \<open>srv_routines.c\<close>) goes round: wait for clients, accept one, give
  every queued connection a turn. A turn switches to the coroutine of the connection, which runs
  until a call would block or its time is up and switches back. The coroutine
  (\<open>handle_one_connection\<close>) receives requests into the connection's buffer, parses them, makes and
  sends responses. Contexts come from a cache and go back to it.

  \<^bold>\<open>Effects.\<close> A piece of code that makes system calls is a function on a \<open>world\<close> (\<open>Env_IO\<close>): the
  answers still to come from the environment, the program's state, and the trace of what it did.
  The answers are arbitrary: what a peer sends, how much a call transfers, which error it
  returns, what the clock says. Every theorem holds for all of them. Every prefix of an execution
  is the run on some finite script; a run that needs an answer the script no longer holds ends
  with \<open>Wait\<close>, or with \<open>Suspended\<close> inside a switched-out coroutine. So a loop that may run for
  ever needs no fuel: it consumes an answer in each round, and a round without one would be the
  outcome \<open>Diverge\<close>, which \<open>Liveness\<close> proves never to occur. An answer of the wrong kind, or one
  that breaks the documented contract of its call, is \<open>Mismatch\<close>. The contracts are: \<open>mmap\<close> and
  \<open>malloc\<close> return memory not in use; \<open>strftime\<close> gives text without line breaks and outer blanks; a
  descriptor is not negative; a reading of the monotonic clock is not negative, has less than 10^9
  nanoseconds beside its seconds, and fits into a \<open>time_t\<close> as nanoseconds (\<open>clock_ok\<close>); and a coroutine is resumed with its own record unchanged, which for
  the worker is not assumed but proved (\<open>suspended_connection_resumes\<close>).

  \<^bold>\<open>Theories and sources\<close> (under \<open>src/srv_async\<close> unless said otherwise).
  \<^item> \<open>Prelude\<close>, \<open>Env_IO\<close>: bytes and the library functions the code uses; worlds, loops, triples
    and the locale \<open>world_preorder\<close> of relations that sequential composition and loops keep.
  \<^item> \<open>Srv_Defs\<close>: \<open>srv_defs.h\<close>. \<open>Qlist\<close>: \<open>srv_qlist.h\<close> on a heap of pointers, refining lists
    (\<open>ring_list\<close>).
  \<^item> \<open>Conn_Ctxt\<close>, \<open>Ctxt_Invariant\<close>: \<open>srv_conn_ctxt.c\<close> and its header; \<open>ctxt_inv\<close> ties queue, cache,
    counters and memory together.
  \<^item> \<open>Sock\<close>: \<open>srv_sock.c\<close>. \<open>Conn_IO\<close>, \<open>Msg_End\<close>, \<open>Recv_Send\<close>, \<open>Io_Result\<close>: \<open>srv_conn_send_recv.c\<close>, what its
    end-of-message test decides, what its two loops transfer (\<open>Recv_Send\<close>) and when they fail
    (\<open>Io_Result\<close>).
  \<^item> \<open>Http_Msg\<close>, \<open>Http_Request\<close>, \<open>Http_Response\<close>: the message classes of \<open>http/\<close>. A class hierarchy is
    a record with a class tag, a virtual method a case distinction on it, a header map a list of
    pairs; the order in which an \<open>unordered_map\<close> is visited is the parameter \<open>hash_order\<close>.
  \<^item> \<open>Http_Wire\<close>: parser against serialiser. \<open>Http_Send_Recv\<close>, \<open>Http_Exchange\<close>:
    \<open>http/srv_http_send_recv.cpp\<close>, and the conversation over the byte stream.
  \<^item> \<open>Coroutine\<close>, \<open>Routines\<close>, \<open>Framing\<close>: the coroutine of a connection, with an invariant of the
    rest of the process as the locale \<open>coroutine_state\<close>, and how it meets its answers.
  \<^item> \<open>Scheduler\<close>, \<open>Event_Loop\<close>, \<open>Worker\<close>, \<open>Liveness\<close>: \<open>swap_to_conn_ctx\<close> and the event loop. A
    suspended coroutine is represented by the answers it had so far, \<open>co_hist\<close>; a turn replays
    them and goes on with the new ones. \<open>Dialogue\<close>: what each client has been sent at any moment.
  \<^item> \<open>Progress\<close>, \<open>Delivery\<close>, \<open>Service\<close>: total correctness of the same code. \<open>runs\<close> says that a piece
    of a coroutine returns with the answers it is given; its rules follow the code from a single call
    over the receiving of a header section and the sending of a message to a request, a connection
    and a turn of the worker.
  \<^item> \<open>Config\<close>, \<open>Srv_Main\<close>: \<open>srv_config.c\<close>, \<open>srv_async.c\<close>, and the signal handlers.
  \<^item> \<open>Sync_Srv\<close>: \<open>src/srv/srv.c\<close>. \<open>Client\<close>: \<open>src/client.c\<close>.

  \<^bold>\<open>What is shown.\<close> Wherever a connection is stopped, it has answered exactly
  the requests in its byte stream, in order, up to a part of the last answer; it can fail only in
  four ways, each an error of the code; sending and receiving transfer what they report, and report -1
  only when a call failed. A client
  whose calls succeed is answered in full: its requests, those in error or valid with \<open>GET\<close> or \<open>HEAD\<close>
  (the others have no response), may come, as far as they fit into the buffer, in pieces of three bytes or more (with fewer the test for the
  end also reads old bytes), into a buffer that is empty at the start, after any number of waits and
  several at once, and the kernel may take the responses in any parts; the one bound is a window of
  \<open>CTX_SWAP_TIMEOUT\<close> for the clock, in which no timeout runs out. Without waits one
  turn of the worker serves the whole visit. A worker keeps its invariant through every turn, accept
  and round, gives each connection its turn, resumes every suspended coroutine where it stopped, and
  has no other faults than its connections. Requests parse back from what is serialised, accepted
  ones are well-formed, errors have the codes meant for them, responses are framed by their
  Content-Length, and a connection goes on or ends as the client asked and the response announces.
  Settings stay in range, the file and the command line mean the same, workers are forked and waited
  for as configured and accept clients on the port of their settings. Where the code does not do
  what it means to, the theorem states what it does: \<open>message_end_stale_bytes\<close>,
  \<open>message_end_overrun\<close>, \<open>valid_request_status\<close>,
  \<open>delete_request_reads_past_the_table\<close>, \<open>reused_context_keeps_bytes\<close>,
  \<open>unopened_log_file_crashes\<close>, \<open>test_client_gets_no_answer\<close>.

  \<^bold>\<open>Integers.\<close> Times and counters are \<open>64 word\<close>, ports \<open>16 word\<close>. A difference of two \<open>time_t\<close> is
  signed, and its overflow would be undefined: the model takes it as an integer (\<open>op_timeout_at\<close>), and since
  readings of the clock are not negative it never overflows (\<open>op_span_fits\<close>). The difference from
  \<open>last_active\<close> is unsigned and wraps around. Sizes, offsets
  and list lengths are \<open>int\<close> or \<open>nat\<close>: they are bounded by the buffer of 8192 bytes, by
  \<open>MAX_HTTP_BODY_SIZE\<close>, or by the number of live connections.

  \<^bold>\<open>Not modelled.\<close> What a store outside \<open>http_status_text\<close> does to other memory (the indices are
  recorded, reading there is a fault); the text of log lines and of messages on stderr; the arrival
  of a signal in the middle of an operation (the handlers themselves are modelled); several processes
  or threads interleaving, beyond the shared counter of \<open>srv\<close>; the addresses the kernel fills in;
  \<open>isspace\<close> of a byte above 127 in \<open>srv.config\<close>, a negative \<open>char\<close>, which C leaves undefined and the model
  answers with no, as the C library's tables do in the default locale;
  declarations, include guards and accessors that only return a field; build files and the shell tests.
\<close>

section \<open>A sample connection\<close>

text \<open>The connection and the worker the witnesses below run on: one queued connection, an empty buffer.\<close>

definition sample_conn :: conn_t where
  "sample_conn = \<lparr>conn_ctx = \<lparr>uc_ss_sp = 12288, uc_ss_size = 32768, uc_links_to_main = True, uc_func = None\<rparr>,
     ctx_buf_p = 0, ctx_buf_size = CTX_BUF_SIZE, recv_buf_p = 0, recv_buf_size = RECV_BUF_SIZE,
     recv_buf_have = 0, recv_buf_curr = 0, ss_sp = RECV_BUF_SIZE + GUARD_SIZE, ss_size = STACK_SIZE,
     conn_sock = 7, is_completed = False, is_active = True, last_active = 0, start_op = 0,
     recv_mem = (\<lambda>_. NUL)\<rparr>"

definition sample_links :: "node qheap" where
  "sample_links = the (qlist_add_head QueueHead (ConnNode 0)
     (qlist_head_init CacheHead (qlist_head_init QueueHead \<lparr>qprev = (\<lambda>_. None), qnext = (\<lambda>_. None)\<rparr>)))"

definition sample_state :: srv_state where
  "sample_state = \<lparr>links = sample_links, conns = (\<lambda>_. sample_conn), live_conns = {0}, regions = {0},
     curr_conn = Some 0, active_conn_cnt = 1, inactive_conn_cnt = 0, last_ctx_swap = 0, cache_cnt = 0,
     n_conn = 0\<rparr>"

abbreviation sample_world :: "resp list \<Rightarrow> (resp, srv_state, event) world" where
  "sample_world s \<equiv> \<lparr>script = s, st = sample_state, trace = []\<rparr>"

lemma sample_layout: "layout_ok sample_conn"
  by (simp add: layout_ok_def sample_conn_def srv_consts)

lemma sample_own: "own_ok 0 sample_state"
  using sample_layout by (simp add: own_ok_def sample_state_def)

lemma sample_inv: "ctxt_inv [0] [] [] sample_state"
proof -
  have "qlist_rep sample_links QueueHead (map ConnNode [0])" "qlist_rep sample_links CacheHead (map ConnNode [])"
    by (simp_all add: sample_links_def qlist_rep_def qlist_add_head_def qlist_head_init_def set_qnext_def
        set_qprev_def Let_def)
  then have "rings_inv [0] [] [] sample_links" by (simp add: rings_inv_def)
  moreover have "memory_inv sample_state"
    using sample_layout by (simp add: memory_inv_def sample_state_def sample_conn_def)
  moreover have "counts_inv [0] [] sample_state"
    by (simp add: counts_inv_def sample_state_def sample_conn_def srv_consts)
  ultimately show ?thesis by (simp add: ctxt_inv_def sample_state_def)
qed

section \<open>A connection\<close>

text \<open>C1: Whatever happens to a connection, and wherever its coroutine is stopped, the bytes left in the
  buffer before it followed by the bytes read from the socket split into a list of complete requests
  and a rest; the bytes sent so far are the responses to exactly these requests, in order, each kept
  alive, followed by nothing or by a part of the response to a last request that the rest begins
  with.\<close>
theorem connection_conversation:
  assumes "own_ok c (st w)" and "trace w = []" and "handle_one_connection hash_order w = (r, v)"
  shows "\<exists>bss outs rest.
    mem_view (recv_mem (conns (st w) c)) (nat (recv_buf_curr (conns (st w) c)))
        (nat (recv_buf_have (conns (st w) c) - recv_buf_curr (conns (st w) c))) @ recvd (trace v) =
      concat bss @ rest \<and>
    list_all2 (\<lambda>bs out. exchange hash_order bs out True) bss outs \<and>
    (sent (trace v) = concat outs \<or>
     (\<exists>bs out keep rest' n. rest = bs @ rest' \<and> exchange hash_order bs out keep \<and>
        sent (trace v) = concat outs @ take n out))"
  using connection_dialogue [OF assms] unfolding dialogue_def unused_input_def .

theorem connection_conversation_witness:
  "\<exists>(v :: (resp, srv_state, event) world) bss outs rest.
    recvd (trace v) = ''GET'' \<and> mem_view (recv_mem sample_conn) 0 0 @ recvd (trace v) = concat bss @ rest \<and>
    list_all2 (\<lambda>bs out. exchange (\<lambda>hs. hs) bs out True) bss outs \<and>
    (sent (trace v) = concat outs \<or>
     (\<exists>bs out keep rest' n. rest = bs @ rest' \<and> exchange (\<lambda>hs. hs) bs out keep \<and>
        sent (trace v) = concat outs @ take n out))"
proof -
  define w where "w = sample_world [R_fcntl 2, R_fcntl 0, R_fcntl 0, R_gettid 5, R_fcntl 0, R_fcntl 2, R_fcntl 0,
    R_clock 0 0, R_clock 0 0, R_read_data ''GET'', R_clock 0 9, R_read_err 11, R_clock 0 9]"
  have w: "own_ok 0 (st w)" "trace w = []" "conns (st w) 0 = sample_conn"
    using sample_own by (simp_all add: w_def sample_state_def)
  have r: "fst (handle_one_connection (\<lambda>hs. hs) w) = Inl Suspended"
    "recvd (trace (snd (handle_one_connection (\<lambda>hs. hs) w))) = ''GET''" unfolding w_def by code_simp+
  then obtain v where v: "handle_one_connection (\<lambda>hs. hs) w = (Inl Suspended, v)" by (metis prod.collapse)
  have "recvd (trace v) = ''GET''" using r(2) v by simp
  moreover have "recv_buf_curr sample_conn = 0" "recv_buf_have sample_conn - recv_buf_curr sample_conn = 0"
    by (simp_all add: sample_conn_def)
  ultimately show ?thesis
    using connection_conversation [OF w(1,2) v, unfolded w(3)]
    by (intro exI [of _ v]) (simp only: nat_0 simp_thms ex_simps)
qed

text \<open>C2: The coroutine of a connection is memory-safe but for the accesses named here: whatever the
  peer sends and whatever the calls return, it can fail only by reading up to three bytes past the
  receive buffer, by the signal of a write to a reset connection, or by the status texts 500 and
  501. It never spins without a call to the outside, and it ends only with the connection closed.\<close>
theorem connection_safe:
  assumes "own_ok c (st w)" and "handle_one_connection hash_order w = (r, v)"
  shows "case r of
      Inl s \<Rightarrow> s \<noteq> Diverge \<and>
        (\<forall>f. s = Fault f \<longrightarrow> f \<in> {Out_of_bounds RECV_BUF_SIZE, Sigpipe, Vector_index 500, Vector_index 501})
    | Inr u \<Rightarrow> is_completed (conns (st v) c)"
proof -
  have "fst (handle_one_connection hash_order w) \<noteq> Inl Diverge"
    using calm_live [OF calm_handle_one_connection] unfolding live_def by blast
  then have live: "r \<noteq> Inl Diverge" by (simp add: assms(2))
  let ?k = "conns (st w) c"
  let ?P = "mem_view (recv_mem ?k) (nat (recv_buf_curr ?k)) (nat (recv_buf_have ?k - recv_buf_curr ?k))"
  have "co_post c (\<lambda>_. True)
      (\<lambda>_ k t. is_completed k \<and> conv_result hash_order ?P (recvd (trace w)) (sent (trace w)) k t) r v"
    by (rule coD [OF solo.co_handle_one_connection _ _ assms(2)]) (simp_all add: stream_def assms(1))
  with live show ?thesis by (auto simp: co_post_def co_faults_def split: sum.splits)
qed

theorem connection_safe_witness:
  "case fst (handle_one_connection (\<lambda>hs. hs) (sample_world [R_fcntl 2, R_fcntl 0, R_fcntl 0, R_gettid 5, R_fcntl 0,
      R_fcntl 2, R_fcntl 0, R_clock 0 0, R_clock 0 0, R_read_err 104])) of
    Inl s \<Rightarrow> s = Suspended \<and> s \<noteq> Diverge
  | Inr u \<Rightarrow> False"
proof -
  define w where "w = sample_world [R_fcntl 2, R_fcntl 0, R_fcntl 0, R_gettid 5, R_fcntl 0,
      R_fcntl 2, R_fcntl 0, R_clock 0 0, R_clock 0 0, R_read_err 104]"
  have w: "own_ok 0 (st w)" using sample_own by (simp add: w_def)
  have r: "fst (handle_one_connection (\<lambda>hs. hs) w) = Inl Suspended" unfolding w_def by code_simp
  then obtain v where v: "handle_one_connection (\<lambda>hs. hs) w = (Inl Suspended, v)" by (metis prod.collapse)
  from connection_safe [OF w v] r show ?thesis unfolding w_def [symmetric] by simp
qed

text \<open>C3: \<open>recv_from_curr_conn\<close> stores exactly the bytes it read, in order, from the given offset on,
  never more than there is room for, and changes nothing else in the buffer. Either it returns their number
  and the connection is as open as before, or it returns -1 and has closed the connection, because a
  \<open>read\<close> failed with an error other than that there is nothing to read yet.\<close>
theorem recv_stores_what_it_read:
  assumes "own_ok c (st w)" and "0 \<le> off" "0 \<le> room" "off + room \<le> RECV_BUF_SIZE"
    and "recv_from_curr_conn room off timeout terminator w = (Inr r, v)"
  shows "\<exists>d. recvd (trace v) = recvd (trace w) @ d \<and> sent (trace v) = sent (trace w) \<and>
    recv_mem (conns (st v) c) = mem_store (nat off) d (recv_mem (conns (st w) c)) \<and>
    recv_buf_have (conns (st v) c) = recv_buf_have (conns (st w) c) \<and>
    recv_buf_curr (conns (st v) c) = recv_buf_curr (conns (st w) c) \<and>
    int (length d) \<le> room \<and>
    ((r = int (length d) \<and> is_completed (conns (st v) c) = is_completed (conns (st w) c)) \<or>
     (r = -1 \<and> is_completed (conns (st v) c) \<and>
        (\<exists>us e vs. script w = us @ R_read_err e # vs @ script v \<and> e \<noteq> EAGAIN \<and> e \<noteq> EWOULDBLOCK)))"
proof -
  let ?k = "conns (st w) c"
  have c: "curr_conn (st w) = Some c" using assms(1) by (simp add: own_ok_def)
  have "co_post c (\<lambda>_. True)
      (recv_result (recv_mem ?k) (recv_buf_have ?k) (recv_buf_curr ?k) (recvd (trace w)) (sent (trace w)) off room)
      (Inr r) v"
    by (rule coD [OF solo.co_recv_from _ _ assms(5)]) (simp_all add: co_view_def assms(1-4))
  with recv_outcome [OF assms(5) c] c show ?thesis
    by (auto simp: recv_result_def recv_state_def co_view_def io_outcome_def io_failed_def steady_def)
qed

theorem recv_stores_what_it_read_witness:
  "\<exists>(v :: (resp, srv_state, event) world) d. recvd (trace v) = d \<and> recv_mem (conns (st v) 0) = mem_store 2 d (recv_mem sample_conn) \<and>
    int (length d) = 4 \<and> \<not> is_completed (conns (st v) 0)"
proof -
  define w where "w = sample_world [R_clock 0 0, R_clock 0 0, R_read_data ''abcd'', R_clock 0 0, R_read_data [], R_clock 0 6]"
  have w: "own_ok 0 (st w)" "trace w = []" "conns (st w) 0 = sample_conn"
    using sample_own by (simp_all add: w_def sample_state_def)
  have "fst (recv_from_curr_conn 100 2 TIMEOUT_INF True w) = Inr 4" unfolding w_def by code_simp
  then obtain v where v: "recv_from_curr_conn 100 2 TIMEOUT_INF True w = (Inr 4, v)" by (metis prod.collapse)
  have "2 + 100 \<le> RECV_BUF_SIZE" by (simp add: srv_consts)
  then obtain d where "recvd (trace v) = d" "recv_mem (conns (st v) 0) = mem_store 2 d (recv_mem sample_conn)"
      "int (length d) = 4" "\<not> is_completed (conns (st v) 0)"
    using recv_stores_what_it_read [OF w(1) _ _ _ v] by (auto simp: w sample_conn_def)
  then show ?thesis by blast
qed

text \<open>C4: \<open>send_to_curr_conn\<close> sends a prefix of the given bytes and nothing else: after it the bytes sent
  are those sent before followed by the first \<open>n\<close> of the message. Either it returns \<open>n\<close> and the
  connection is as open as before, or it returns -1 and has closed the connection, because a \<open>write\<close>
  failed with an error other than that the socket is full. The receive buffer is untouched.\<close>
theorem send_sends_a_prefix:
  assumes "own_ok c (st w)" and "0 \<le> tot" "tot \<le> int (length buf)"
    and "send_to_curr_conn buf tot timeout w = (Inr r, v)"
  shows "\<exists>n. sent (trace v) = sent (trace w) @ take n buf \<and> int n \<le> tot \<and>
    recvd (trace v) = recvd (trace w) \<and> recv_mem (conns (st v) c) = recv_mem (conns (st w) c) \<and>
    ((r = int n \<and> is_completed (conns (st v) c) = is_completed (conns (st w) c)) \<or>
     (r = -1 \<and> is_completed (conns (st v) c) \<and>
        (\<exists>us e vs. script w = us @ R_write_err e # vs @ script v \<and> e \<noteq> EAGAIN \<and> e \<noteq> EWOULDBLOCK)))"
proof -
  let ?k = "conns (st w) c"
  have c: "curr_conn (st w) = Some c" using assms(1) by (simp add: own_ok_def)
  have "co_post c (\<lambda>_. True)
      (send_result (recv_mem ?k) (recv_buf_have ?k) (recv_buf_curr ?k) (recvd (trace w)) (sent (trace w)) buf tot)
      (Inr r) v"
    by (rule coD [OF solo.co_send_to _ _ assms(4)]) (simp_all add: co_view_def assms(1-3))
  then obtain n where "send_state (recv_mem ?k) (recv_buf_have ?k) (recv_buf_curr ?k) (recvd (trace w))
      (sent (trace w)) buf tot n (conns (st v) c) (trace v) \<and> (r = n \<or> r = -1)"
    by (auto simp: send_result_def)
  with send_outcome [OF assms(4) c] c show ?thesis
    by (intro exI [of _ "nat n"])
      (auto simp: send_state_def co_view_def io_outcome_def io_failed_def steady_def)
qed

theorem send_sends_a_prefix_witness:
  "\<exists>(v :: (resp, srv_state, event) world) n. sent (trace v) = take n ''hello'' \<and> n = 2 \<and> recvd (trace v) = [] \<and> \<not> is_completed (conns (st v) 0)"
proof -
  define w where "w = sample_world [R_clock 0 0, R_clock 0 0, R_write_cnt 2, R_clock 0 0, R_clock 6 0]"
  have w: "own_ok 0 (st w)" "trace w = []" "\<not> is_completed (conns (st w) 0)"
    using sample_own by (simp_all add: w_def sample_state_def sample_conn_def)
  have "fst (send_to_curr_conn ''hello'' 5 CLIENT_OP_TIMEOUT w) = Inr 2" unfolding w_def by code_simp
  then obtain v where v: "send_to_curr_conn ''hello'' 5 CLIENT_OP_TIMEOUT w = (Inr 2, v)"
    by (metis prod.collapse)
  obtain n where "sent (trace v) = take n ''hello''" "n = 2" "recvd (trace v) = []" "\<not> is_completed (conns (st v) 0)"
    using send_sends_a_prefix [OF w(1) _ _ v] by (auto simp: w)
  then show ?thesis by blast
qed

section \<open>The worker\<close>

text \<open>The sample worker: one connection that was just accepted.\<close>

definition sample_sched :: sched_state where
  "sample_sched = srv_state.extend (init_new_conn_ctx 0 7 sample_state)
     (sched_state.fields (\<lambda>_. []) (\<lambda>_. []) 0)"

abbreviation sched_world :: "sched_state \<Rightarrow> resp list \<Rightarrow> (resp, sched_state, event) world" where
  "sched_world s rs \<equiv> \<lparr>script = rs, st = s, trace = []\<rparr>"

definition empty_sched :: sched_state where
  "empty_sched = sample_sched\<lparr>live_conns := {}, regions := {}\<rparr>"

lemma sample_sched_simps [simp]:
  "links sample_sched = links sample_state" "live_conns sample_sched = {0}" "regions sample_sched = {0}"
  "conns sample_sched = conns (init_new_conn_ctx 0 7 sample_state)" "curr_conn sample_sched = Some 0"
  by (simp_all add: sample_sched_def srv_state.extend_def sched_state.fields_def sample_state_def
      init_new_conn_ctx_def)

lemma sample_sched_inv: "sched_inv hash_order [0] [] sample_sched"
proof -
  have "ctxt_inv [0] [] [] (init_new_conn_ctx 0 7 sample_state)"
    unfolding init_new_conn_ctx_def
    by (rule ctxt_inv_set_conn [OF sample_inv]) (simp_all add: sample_state_def sample_conn_def layout_ok_def)
  moreover have "ctxt_inv [0] [] [] sample_sched = ctxt_inv [0] [] [] (init_new_conn_ctx 0 7 sample_state)"
    by (rule ctxt_inv_agree)
      (simp_all add: sample_sched_def srv_state.extend_def sched_state.fields_def init_new_conn_ctx_def)
  moreover have "\<not> started 0 sample_sched" "\<not> is_completed (conns sample_sched 0)"
    by (simp_all add: started_def init_new_conn_ctx_def)
  ultimately show ?thesis
    by (simp add: sched_inv_def paused_def)
qed

text \<open>C5: A worker never returns, never spins without a call to the outside, and has no fault but those of
  the connections' code: whatever the peers send, whatever the calls return and however the turns of the
  connections fall, it is stopped only by an exit of its own, by waiting, or by one of the four faults
  named here.\<close>
theorem worker_safe:
  assumes "live_conns (st w) = {}" and "regions (st w) = {}"
    and "handle_connections_routine hash_order srv_sock w = (r, v)"
  shows "\<exists>s. r = Inl s \<and> s \<noteq> Diverge \<and>
    (\<forall>f. s = Fault f \<longrightarrow> f \<in> {Out_of_bounds RECV_BUF_SIZE, Sigpipe, Vector_index 500, Vector_index 501})"
proof -
  from workerD [OF worker_routine _ assms(3)] assms(1,2) have post: "case r of Inl s \<Rightarrow> stop_ok s | Inr a \<Rightarrow> False"
    by simp
  moreover have "fst (handle_connections_routine hash_order srv_sock w) \<noteq> Inl Diverge"
    using calm_live [OF calm_routine] unfolding live_def by blast
  ultimately show ?thesis
    using assms(3) by (cases r) (auto simp: co_faults_def)
qed

theorem worker_safe_witness:
  "\<exists>s. fst (handle_connections_routine (\<lambda>hs. hs) 3 (sched_world empty_sched (replicate 50 (R_mmap None)))) = Inl s \<and>
    s \<noteq> Diverge"
proof -
  obtain r v where r: "handle_connections_routine (\<lambda>hs. hs) 3 (sched_world empty_sched (replicate 50 (R_mmap None))) = (r, v)"
    by fastforce
  have e: "live_conns empty_sched = {}" "regions empty_sched = {}" by (simp_all add: empty_sched_def)
  from worker_safe [OF _ _ r] have "\<exists>s. r = Inl s \<and> s \<noteq> Diverge" by (auto simp: e)
  then show ?thesis by (simp add: r)
qed

text \<open>C6: In every state a worker is in between its rounds the queue and the cache are disjoint rings that
  hold all its contexts, the counters count the active and the inactive connections and the cached
  contexts, the regions mapped are those of the contexts, no two of which share one, and every queued connection is open and suspended
  where it can go on.\<close>
theorem worker_state_invariant:
  assumes "between_rounds hash_order s"
  shows "\<exists>q k. qlist_rep (links s) QueueHead (map ConnNode q) \<and> qlist_rep (links s) CacheHead (map ConnNode k) \<and>
    distinct (q @ k) \<and> set (q @ k) = live_conns s \<and> regions s = (\<lambda>c. ctx_buf_p (conns s c)) ` live_conns s \<and>
    inj_on (\<lambda>c. ctx_buf_p (conns s c)) (live_conns s) \<and>
    active_conn_cnt s = int (length (filter (\<lambda>c. is_active (conns s c)) q)) \<and>
    inactive_conn_cnt s = int (length (filter (\<lambda>c. \<not> is_active (conns s c)) q)) \<and>
    cache_cnt s = int (length k) \<and> cache_cnt s \<le> MAX_CONN_CTX_CACHE_CNT \<and>
    (\<forall>c \<in> set q. \<not> is_completed (conns s c) \<and> paused hash_order c s)"
proof -
  from between_rounds_inv [OF assms] obtain q k where "sched_inv hash_order q k s" by (auto simp: worker_inv_def)
  then show ?thesis
    by (intro exI [of _ q] exI [of _ k]) (auto simp: sched_inv_def ctxt_inv_defs)
qed

theorem worker_state_invariant_witness:
  "\<exists>s q k. between_rounds (\<lambda>hs. hs) s \<and> qlist_rep (links s) QueueHead (map ConnNode q) \<and>
    qlist_rep (links s) CacheHead (map ConnNode k) \<and> set (q @ k) = live_conns s"
proof -
  define w where "w = sched_world empty_sched (replicate 50 (R_mmap None) @
    [R_fcntl 2, R_fcntl 0, R_fcntl 0, R_gettid 5, R_fcntl 0, R_syscall 4, R_syscall 0, R_syscall 0, R_syscall 100])"
  have "fst (routine_setup 3 w) = Inr 100" unfolding w_def by code_simp
  then obtain v where "routine_setup 3 w = (Inr 100, v)" by (metis prod.collapse)
  then have b: "between_rounds (\<lambda>hs. hs) (st v)"
    by (rule between_rounds.started_up [rotated 2]) (simp_all add: w_def empty_sched_def)
  from worker_state_invariant [OF this] show ?thesis using b by blast
qed

text \<open>C7: In every state that satisfies the worker's invariant, and so in every state between its rounds
  (\<open>between_rounds_inv\<close>), every connection in the queue that was given a turn has been sent the answers
  to the requests it sent, in order, up to a part of the last answer, whatever the other connections
  did: its trace is a dialogue on the bytes received since it was entered first, in the state \<open>s1\<close>,
  after those its buffer then held.\<close>
theorem worker_answers_its_clients:
  assumes "sched_inv hash_order q k s" and "c \<in> set q" and "started c s"
  shows "\<exists>s1 rs. co_hist s c = R_resume (\<lambda>_. s1) # rs \<and> dialogue hash_order (unused_input c s1) (co_trace s c)"
  using paused_dialogue assms unfolding sched_inv_def by blast

theorem worker_answers_its_clients_witness:
  "\<exists>(s :: sched_state) s1 rs. recvd (co_trace s 0) = ''GE'' \<and> co_hist s 0 = R_resume (\<lambda>_. s1) # rs \<and>
    dialogue (\<lambda>hs. hs) (unused_input 0 s1) (co_trace s 0)"
proof -
  define w where "w = sched_world sample_sched [R_slice [R_fcntl 2, R_fcntl 0, R_fcntl 0, R_gettid 5, R_fcntl 0,
      R_fcntl 2, R_fcntl 0, R_clock 0 0, R_clock 0 0, R_read_data ''GE'', R_clock 0 0, R_read_err 11, R_clock 0 0],
      R_clock 0 0]"
  define v where "v = snd (turn (\<lambda>hs. hs) (ConnNode 0) w)"
  have r: "fst (turn (\<lambda>hs. hs) (ConnNode 0) w) = Inr ()" "started 0 (st v)" "recvd (co_trace (st v) 0) = ''GE''"
    "active_conn_cnt (st v) = 1"
    unfolding v_def w_def by code_simp+
  then have t: "turn (\<lambda>hs. hs) (ConnNode 0) w = (Inr (), v)" unfolding v_def by (metis prod.collapse)
  have "sched_inv (\<lambda>hs. hs) ([] @ 0 # []) [] (st w)" using sample_sched_inv by (simp add: w_def)
  from workerD [OF worker_turn this t] obtain k where
    "sched_inv (\<lambda>hs. hs) [0] k (st v) \<or> sched_inv (\<lambda>hs. hs) [] k (st v)" by auto
  with r(4) have "sched_inv (\<lambda>hs. hs) [0] k (st v)" by (auto simp: sched_inv_def ctxt_inv_defs)
  from worker_answers_its_clients [OF this _ r(2)] r(3) show ?thesis by auto
qed

text \<open>C8: A turn of a connection keeps the invariant of the worker. If the connection is not completed after
  it, it is still queued and suspended where it can go on, and nothing was unlinked; if it is completed, it
  is gone from the queue and its context is first in the cache, or is freed when the cache is full. Neither
  the record of another connection nor anything it has done changes.\<close>
theorem turn_keeps_invariant:
  assumes "sched_inv hash_order (as @ c # bs) k (st w)" and "turn hash_order (ConnNode c) w = (Inr (), v)"
  shows "(\<not> is_completed (conns (st v) c) \<longrightarrow> sched_inv hash_order (as @ c # bs) k (st v)) \<and>
    (is_completed (conns (st v) c) \<longrightarrow>
       sched_inv hash_order (as @ bs) (if length k < nat MAX_CONN_CTX_CACHE_CNT then c # k else k) (st v)) \<and>
    (\<forall>x. x \<noteq> c \<longrightarrow> conns (st v) x = conns (st w) x \<and> co_trace (st v) x = co_trace (st w) x)"
proof -
  have "turn_over hash_order as c bs k (st w) (st v)"
    using workerD [OF worker_turn_over [of hash_order as c bs k "st w"] _ assms(2)] assms(1) by simp
  then show ?thesis by (auto simp: turn_over_def given_up_def same_conn_def split: if_splits)
qed

theorem turn_keeps_invariant_witness:
  "\<exists>(v :: (resp, sched_state, event) world) (w :: (resp, sched_state, event) world). \<not> is_completed (conns (st v) 0) \<and> sched_inv (\<lambda>hs. hs) [0] [] (st v) \<and>
    is_completed (conns (st w) 0) \<and> sched_inv (\<lambda>hs. hs) [] [0] (st w)"
proof -
  define go where "go e = sched_world sample_sched [R_slice [R_fcntl 2, R_fcntl 0, R_fcntl 0, R_gettid 5, R_fcntl 0,
      R_fcntl 2, R_fcntl 0, R_clock 0 0, R_clock 0 0, R_read_err e, R_clock 0 0], R_clock 0 0]" for e
  define stop where "stop = sched_world sample_sched [R_slice [R_fcntl 2, R_fcntl 0, R_fcntl 0, R_gettid 5, R_fcntl 0,
      R_fcntl 2, R_fcntl 0, R_clock 0 0, R_clock 0 0, R_read_err 104], R_clock 0 0]"
  have r: "fst (turn (\<lambda>hs. hs) (ConnNode 0) (go 11)) = Inr ()" "fst (turn (\<lambda>hs. hs) (ConnNode 0) stop) = Inr ()"
    "\<not> is_completed (conns (st (snd (turn (\<lambda>hs. hs) (ConnNode 0) (go 11)))) 0)"
    "is_completed (conns (st (snd (turn (\<lambda>hs. hs) (ConnNode 0) stop))) 0)"
    unfolding go_def stop_def by code_simp+
  then obtain v w where v: "turn (\<lambda>hs. hs) (ConnNode 0) (go 11) = (Inr (), v)" "\<not> is_completed (conns (st v) 0)"
    and w: "turn (\<lambda>hs. hs) (ConnNode 0) stop = (Inr (), w)" "is_completed (conns (st w) 0)"
    by (metis prod.collapse)
  have "sched_inv (\<lambda>hs. hs) ([] @ 0 # []) [] (st (go 11))" "sched_inv (\<lambda>hs. hs) ([] @ 0 # []) [] (st stop)"
    using sample_sched_inv by (simp_all add: go_def stop_def)
  from turn_keeps_invariant [OF this(1) v(1)] turn_keeps_invariant [OF this(2) w(1)] v(2) w(2)
  have "sched_inv (\<lambda>hs. hs) [0] [] (st v)" "sched_inv (\<lambda>hs. hs) [] [0] (st w)" by (simp_all add: srv_consts)
  with v(2) w(2) show ?thesis by blast
qed

text \<open>C9: Each round gives every queued connection exactly one turn, in the order of the queue, although a
  turn may unlink and free the connection the loop stands at.\<close>
theorem every_connection_gets_its_turn:
  assumes "sched_inv hash_order q k (st w)"
  shows "handle_all hash_order w = foreach_list (turn hash_order) (map ConnNode q) w"
  using assms by (rule handle_all_list)

theorem every_connection_gets_its_turn_witness:
  "handle_all (\<lambda>hs. hs) (sched_world sample_sched []) =
    foreach_list (turn (\<lambda>hs. hs)) [ConnNode 0] (sched_world sample_sched [])"
  using every_connection_gets_its_turn [of "\<lambda>hs. hs" "[0]" "[]" "sched_world sample_sched []"] sample_sched_inv
  by simp

text \<open>C10: A worker blocks in its wait for clients only when no queued connection is active; otherwise it
  polls.\<close>
theorem worker_polls_when_active:
  assumes "sched_inv hash_order q k (st w)"
  shows "\<exists>t. trace (snd (wait_clients w)) =
    trace w @ Ev_epoll (if \<exists>c \<in> set q. is_active (conns (st w) c) then 0 else -1) # t"
  using assms by (rule wait_clients_polls)

theorem worker_polls_when_active_witness:
  "\<exists>t. trace (snd (wait_clients (sched_world sample_sched []))) = Ev_epoll 0 # t"
proof -
  have "\<exists>c \<in> set [0]. is_active (conns sample_sched c)" by (simp add: init_new_conn_ctx_def)
  with worker_polls_when_active [of "\<lambda>hs. hs" "[0]" "[]" "sched_world sample_sched []"] sample_sched_inv
  show ?thesis by simp
qed



section \<open>What a client gets\<close>

text \<open>Sample visits: \<open>GET\<close> requests for the main page, in two pieces, each after \<open>j\<close> waits; the second
  request comes with the end of the first.\<close>

definition sample_get :: "string \<Rightarrow> bytes" where
  "sample_get version = ''GET / '' @ version @ CRLF @ CRLF"

definition sample_delivery :: "pieces \<Rightarrow> bytes \<Rightarrow> delivery" where
  "sample_delivery ds hdr = (let resp = projr (MakeResponse ''d'' (request_of_header hdr)) in
     \<lparr>pieces_in = ds, header = hdr, date_now = ''d'', reply = resp,
      parts_out = map (\<lambda>m. [(0, m)]) (packets (length (Serialize_response (\<lambda>hs. hs) resp)))\<rparr>)"

definition sample_first :: "nat \<Rightarrow> delivery" where
  "sample_first j = sample_delivery
     [(j, take 9 (sample_get ''HTTP/1.1'')), (j, drop 9 (sample_get ''HTTP/1.1'') @ sample_get ''HTTP/1.0'')]
     (sample_get ''HTTP/1.1'')"

definition sample_last :: delivery where
  "sample_last = sample_delivery [] (sample_get ''HTTP/1.0'')"

lemma sample_requests:
  "IsOk (request_of_header (sample_get ''HTTP/1.1''))" "req_class (request_of_header (sample_get ''HTTP/1.1'')) = Get_msg"
  "IsOk (request_of_header (sample_get ''HTTP/1.0''))" "req_class (request_of_header (sample_get ''HTTP/1.0'')) = Get_msg"
  "WantKeepAlive (request_of_header (sample_get ''HTTP/1.1'')) = Inr True"
  "WantKeepAlive (request_of_header (sample_get ''HTTP/1.0'')) = Inr False"
  by code_simp+

lemma sample_delivered:
  assumes "header_arrives P ds hdr P'" and "IsOk (request_of_header hdr)" and "req_class (request_of_header hdr) = Get_msg"
  shows "delivered (\<lambda>hs. hs) P (sample_delivery ds hdr) P'"
proof -
  have d: "date_ok ''d''" by code_simp
  from MakeResponse_valid [OF assms(2) _ d] request_of_header_valid [OF assms(2)] assms(3)
  obtain resp where "MakeResponse ''d'' (request_of_header hdr) = Inr resp" by (auto simp: request_ok_def)
  with assms(1) d show ?thesis by (simp add: delivered_def sample_delivery_def request_of_def Let_def taken_whole)
qed

lemma sample_arrival:
  "header_arrives [] (pieces_in (sample_first j)) (sample_get ''HTTP/1.1'') (sample_get ''HTTP/1.0'')"
  "header_arrives (sample_get ''HTTP/1.0'') [] (sample_get ''HTTP/1.0'') []"
proof -
  have "find_http_headers_end (sample_get ''HTTP/1.1'') = length (sample_get ''HTTP/1.1'')"
    "find_http_headers_end (sample_get ''HTTP/1.0'') = length (sample_get ''HTTP/1.0'')"
    "find_http_headers_end (take 9 (sample_get ''HTTP/1.1'')) = 0" "length (sample_get ''HTTP/1.1'') = 18"
    "length (sample_get ''HTTP/1.0'') = 18"
    by code_simp+
  then show "header_arrives [] (pieces_in (sample_first j)) (sample_get ''HTTP/1.1'') (sample_get ''HTTP/1.0'')"
    "header_arrives (sample_get ''HTTP/1.0'') [] (sample_get ''HTTP/1.0'') []"
    by (auto simp: header_arrives_def sample_first_def sample_delivery_def Let_def srv_consts)
qed

lemma sample_left: "left_over [] (sample_first j) = sample_get ''HTTP/1.0''"
  by (simp add: left_over_def sample_first_def sample_delivery_def Let_def)

lemma sample_visit: "visit (\<lambda>hs. hs) [sample_first j] (Some sample_last)"
proof -
  have "delivered (\<lambda>hs. hs) [] (sample_first j) (sample_get ''HTTP/1.0'')"
    using sample_delivered [OF _ sample_requests(1,2)] sample_arrival(1) [of j]
    by (simp add: sample_first_def) (simp add: sample_delivery_def Let_def)
  moreover have "delivered (\<lambda>hs. hs) (sample_get ''HTTP/1.0'') sample_last []"
    unfolding sample_last_def by (rule sample_delivered [OF sample_arrival(2) sample_requests(3,4)])
  moreover have "request_of (sample_first j) = request_of_header (sample_get ''HTTP/1.1'')"
    "request_of sample_last = request_of_header (sample_get ''HTTP/1.0'')"
    by (simp_all add: request_of_def sample_first_def sample_last_def sample_delivery_def Let_def)
  moreover have "left_over (sample_get ''HTTP/1.0'') sample_last = []"
    by (simp add: left_over_def sample_last_def sample_delivery_def Let_def)
  ultimately show ?thesis by (simp add: visit_def sample_left sample_requests)
qed

lemma sample_input: "concat (map (\<lambda>x. bytes_of (pieces_in x)) (requests_of [sample_first j] (Some sample_last))) =
    sample_get ''HTTP/1.1'' @ sample_get ''HTTP/1.0''"
proof -
  have "take 9 s @ drop 9 s @ s' = s @ s'" for s s' :: bytes by (metis append.assoc append_take_drop_id)
  then show ?thesis by (simp add: requests_of_def sample_first_def sample_last_def sample_delivery_def Let_def)
qed

text \<open>C12: The requests of a client that the server has a response for are answered in full. They are those in
  error and the valid \<open>GET\<close> and \<open>HEAD\<close> requests; a valid request of another method faults instead. The
  requests \<open>xs\<close> ask to go on; they come into an empty buffer in pieces of three bytes or more, after any
  number of waits in which the coroutine is switched out, one after the other or several at once as far as
  they fit into the buffer together, and are followed by one that does not ask to go on or by none. While all calls succeed and the clock stays in its
  window the connection sends exactly the responses to all of them, in order. After the last it is
  closed, otherwise it waits for the next.\<close>
theorem requests_are_answered:
  assumes "visit hash_order xs final"
    and "own_ok c (st w)" "\<not> is_completed (conns (st w) c)" "on_time t0 (last_ctx_swap (st w))"
    and "unused_input c (st w) = []" and "trace w = []"
    and "list_all2 (fits c t0) (visit_cues fl tid fl' xs final) (script w)"
  shows "\<exists>v. handle_one_connection hash_order w = (Inl Suspended, v) \<and> script v = [] \<and>
    recvd (trace v) = concat (map (\<lambda>x. bytes_of (pieces_in x)) (requests_of xs final)) \<and>
    sent (trace v) = concat (map (\<lambda>x. Serialize_response hash_order (reply x)) (requests_of xs final)) \<and>
    (is_completed (conns (st v) c) \<longleftrightarrow> final \<noteq> None)"
proof -
  have "in_turn c t0 (st w)" using assms(2-4) by (simp add: in_turn_def)
  from connection_visit [OF assms(1) this assms(5-7)] show ?thesis
    by (cases final) (auto simp: visited_def input_of_def output_of_def)
qed

theorem requests_are_answered_witness:
  "\<exists>v :: (resp, srv_state, event) world. recvd (trace v) = sample_get ''HTTP/1.1'' @ sample_get ''HTTP/1.0'' \<and>
    is_completed (conns (st v) 0)"
proof -
  define w where "w = sample_world (map (sample_answer 0 0) (visit_cues 2 5 2 [sample_first 3] (Some sample_last)))"
  have "own_ok 0 (st w)" "\<not> is_completed (conns (st w) 0)" "on_time 0 (last_ctx_swap (st w))"
    "unused_input 0 (st w) = []" "trace w = []"
    using sample_own
    by (simp_all add: w_def on_time_def srv_consts unused_input_def mem_view_def)
      (simp_all add: sample_state_def sample_conn_def)
  moreover have "list_all2 (fits 0 0) (visit_cues 2 5 2 [sample_first 3] (Some sample_last)) (script w)"
    unfolding w_def by (simp add: sample_fits)
  ultimately show ?thesis
    using requests_are_answered [OF sample_visit, of 0 w 0 2 5 2 3] unfolding sample_input by blast
qed

text \<open>C13: The worker serves a visit like that of the previous theorem in one turn, when all of it has arrived:
  requests with a response that fit into the buffer, in pieces of three bytes or more, into an empty
  buffer, with the clock in its window and no failing call. The turn of the new connection returns, the client has been sent the responses to all of its
  requests, and the connection is queued for its next turn or, if the last request asked to close, out of
  the queue.\<close>
theorem worker_serves_a_visit:
  assumes "sched_inv hash_order (as @ c # bs) k (st w)"
    and "\<not> started c (st w)" "unused_input c (st w) = []" "on_time t0 (last_ctx_swap (st w))"
    and "visit hash_order xs final"
    and "list_all2 (fits c t0) (visit_cues fl tid fl' xs final) rs" "filter is_resume rs = []"
    and "script w = R_slice rs # R_clock s n # rest" "clock_ok s n"
  shows "\<exists>v k'. turn hash_order (ConnNode c) w = (Inr (), v) \<and> script v = rest \<and>
    recvd (co_trace (st v) c) = concat (map (\<lambda>x. bytes_of (pieces_in x)) (requests_of xs final)) \<and>
    sent (co_trace (st v) c) = concat (map (\<lambda>x. Serialize_response hash_order (reply x)) (requests_of xs final)) \<and>
    sched_inv hash_order (if final = None then as @ c # bs else as @ bs) k' (st v)"
  using turn_visit [OF assms] unfolding input_of_def output_of_def .

theorem worker_serves_a_visit_witness:
  "\<exists>(v :: (resp, sched_state, event) world) k'. recvd (co_trace (st v) 0) = sample_get ''HTTP/1.1'' @ sample_get ''HTTP/1.0'' \<and>
    sched_inv (\<lambda>hs. hs) [] k' (st v)"
proof -
  let ?qs = "visit_cues 2 5 2 [sample_first 0] (Some sample_last)"
  define rs where "rs = map (sample_answer 0 0) ?qs"
  define w where "w = sched_world sample_sched [R_slice rs, R_clock 0 0]"
  have inv: "sched_inv (\<lambda>hs. hs) ([] @ 0 # []) [] (st w)" using sample_sched_inv by (simp add: w_def)
  have "\<not> started 0 (st w)" "unused_input 0 (st w) = []"
    by (simp_all add: w_def started_def init_new_conn_ctx_def unused_input_def mem_view_def)
      (simp add: sample_state_def sample_conn_def)
  moreover have "on_time 0 (last_ctx_swap (st w))"
    by (simp add: w_def on_time_def sample_sched_def srv_state.extend_def sample_state_def init_new_conn_ctx_def srv_consts)
  moreover have fits: "list_all2 (fits 0 0) ?qs rs" unfolding rs_def by (rule sample_fits) simp
  moreover have "list_all at_once ?qs"
    by (rule at_once_visit) (auto simp: requests_of_def sample_first_def sample_last_def sample_delivery_def Let_def)
  then have "filter is_resume rs = []" by (rule at_once_slice [OF fits])
  moreover have "script w = R_slice rs # R_clock 0 0 # []" "clock_ok 0 0" by (simp_all add: w_def clock_ok_def)
  ultimately show ?thesis
    using worker_serves_a_visit [OF inv _ _ _ sample_visit, of 0 2 5 2 0 rs 0 0 "[]"]
    unfolding sample_input by auto
qed

text \<open>C14: One valid \<open>DELETE\<close> request leads the worker to an access out of bounds, whatever was served
  before: the request is accepted, its response is to carry the text of code 501, and reading that
  text is an access past the end of the table, in the middle of the turn, where the model stops with
  a fault.\<close>
theorem delete_request_reads_past_the_table:
  assumes "sched_inv hash_order (as @ c # bs) k (st w)"
    and "\<not> started c (st w)" "unused_input c (st w) = []" "on_time t0 (last_ctx_swap (st w))"
    and "session hash_order [] xs" "delete_arrives (rest_of [] xs) y P'"
    and "list_all2 (fits c t0) (setup_cues fl tid fl' @ session_cues xs @ delete_cues y) rs" "filter is_resume rs = []"
    and "script w = R_slice rs # rest"
  shows "\<exists>v. turn hash_order (ConnNode c) w = (Inl (Fault (Vector_index 501)), v) \<and>
    sent (co_trace (st v) c) = concat (map (\<lambda>x. Serialize_response hash_order (reply x)) xs)"
  using turn_delete [OF assms] unfolding output_of_def by blast

theorem delete_request_reads_past_the_table_witness:
  "\<exists>v. turn (\<lambda>hs. hs) (ConnNode 0) (sched_world sample_sched [R_slice [R_fcntl 2, R_fcntl 0, R_fcntl 0, R_gettid 5,
      R_fcntl 0, R_fcntl 2, R_fcntl 0, R_clock 0 0, R_clock 0 0, R_read_data (''DELETE / HTTP/1.1'' @ CRLF @ CRLF),
      R_clock 0 0, R_date ''d'']]) = (Inl (Fault (Vector_index 501)), v)"
proof -
  define hdr where "hdr = ''DELETE / HTTP/1.1'' @ CRLF @ CRLF"
  define y where "y = \<lparr>pieces_in = [(0, hdr)], header = hdr, date_now = ''d'',
      reply = projr (new_response HTTP_STATUS_OK), parts_out = []\<rparr>"
  let ?qs = "setup_cues 2 5 2 @ session_cues [] @ delete_cues y"
  define rs where "rs = map (sample_answer 0 0) ?qs"
  define w where "w = sched_world sample_sched [R_slice rs]"
  have inv: "sched_inv (\<lambda>hs. hs) ([] @ 0 # []) [] (st w)" using sample_sched_inv by (simp add: w_def)
  have h: "find_http_headers_end hdr = length hdr" "length hdr = 21" "IsOk (request_of_header hdr)"
    "get_method_token hdr = ''DELETE''" "date_ok ''d''" "find_http_headers_end [] = 0"
    unfolding hdr_def by code_simp+
  have y: "delete_arrives (rest_of [] []) y []"
    using h by (auto simp: delete_arrives_def header_arrives_def y_def request_of_def srv_consts)
  have "\<not> started 0 (st w)" "unused_input 0 (st w) = []"
    by (simp_all add: w_def started_def init_new_conn_ctx_def unused_input_def mem_view_def)
      (simp add: sample_state_def sample_conn_def)
  moreover have "on_time 0 (last_ctx_swap (st w))"
    by (simp add: w_def on_time_def sample_sched_def srv_state.extend_def sample_state_def init_new_conn_ctx_def srv_consts)
  moreover have "list_all2 (fits 0 0) ?qs rs" unfolding rs_def by (rule sample_fits) simp
  moreover have r: "rs = [R_fcntl 2, R_fcntl 0, R_fcntl 0, R_gettid 5, R_fcntl 0, R_fcntl 2, R_fcntl 0, R_clock 0 0,
      R_clock 0 0, R_read_data hdr, R_clock 0 0, R_date ''d'']"
    by (simp add: rs_def y_def setup_cues_def session_cues_def delete_cues_def hdr_cues_def again_def)
  ultimately show ?thesis
    using delete_request_reads_past_the_table [OF inv _ _ _ _ y, of 0 2 5 2 rs "[]"]
    by (auto simp: w_def hdr_def)
qed

section \<open>Requests and responses\<close>

text \<open>C15: A request the parser accepts survives printing and parsing: parsing the header section it
  serialises to, into a fresh object of any class, gives the same method, target, version and the
  same fields in the order they were printed, and no error.\<close>
theorem accepted_request_roundtrip:
  assumes "r = ParseRequestHeader buf (new_request cls)" and "IsOk r"
    and "mset (hash_order (headers r)) = mset (headers r)"
  shows "ParseRequestHeader (header_section hash_order r) (new_request cls) =
    r\<lparr>headers := hash_order (headers r)\<rparr>"
proof -
  have h: "headers (new_request cls) = []" "error_code (new_request cls) = HTTP_STATUS_NONE"
    by (simp_all add: new_request_def)
  have ok: "IsOk (ParseRequestHeader buf (new_request cls))" using assms(1,2) by simp
  have "error_code r = HTTP_STATUS_NONE" using assms(2) by (simp add: IsOk_def IsError_def)
  moreover have "req_class r = cls \<and> body r = []"
    using parse_keeps_class [OF h(1), of buf] assms(1) by (simp add: new_request_def)
  ultimately show ?thesis
    using parse_serialized [OF parse_request_ok [OF ok h(1)] parsed_writable [OF ok h(1)] _ h, of hash_order]
      assms(1,3) by (simp add: new_request_def)
qed

theorem accepted_request_roundtrip_witness:
  "ParseRequestHeader (header_section (\<lambda>hs. hs)
      (ParseRequestHeader (''GET / HTTP/1.1'' @ CRLF @ ''Host: a'' @ CRLF @ CRLF) (new_request Get_msg)))
      (new_request Get_msg) =
    (ParseRequestHeader (''GET / HTTP/1.1'' @ CRLF @ ''Host: a'' @ CRLF @ CRLF) (new_request Get_msg))
      \<lparr>headers := headers (ParseRequestHeader (''GET / HTTP/1.1'' @ CRLF @ ''Host: a'' @ CRLF @ CRLF)
         (new_request Get_msg))\<rparr>"
  by (rule accepted_request_roundtrip [OF refl]) (code_simp, simp)

text \<open>C16: Every byte string that fits the header limit is answered as one of the classes of the method
  table or as an error. An accepted header has the method, target and version of a request line, field
  names in lower case and each once, a Content-Length exactly where the method may carry a body, never
  above \<open>MAX_HTTP_BODY_SIZE\<close>, and the class the table gives for its method.\<close>
theorem accepted_request_valid:
  assumes "IsOk (request_of_header hdr)"
  shows "request_ok (request_of_header hdr) \<and>
    map_of methods_info (req_method (request_of_header hdr)) =
      Some (req_class (request_of_header hdr), MethodHasBody (req_method (request_of_header hdr))) \<and>
    (HasHeader ''content-length'' (request_of_header hdr) = MethodHasBody (req_method (request_of_header hdr))) \<and>
    declared_length (request_of_header hdr) \<le> MAX_HTTP_BODY_SIZE"
proof -
  let ?r = "request_of_header hdr"
  from request_of_header_valid [OF assms] have ok: "request_ok ?r" and m: "req_method ?r = get_method_token hdr"
    and t: "map_of methods_info (get_method_token hdr) = Some (req_class ?r, MethodHasBody (get_method_token hdr))"
    by simp_all
  have has: "HasHeader ''content-length'' ?r = MethodHasBody (req_method ?r)"
  proof (cases "MethodHasBody (req_method ?r)")
    case True
    with ok show ?thesis by (simp add: request_ok_def)
  next
    case False
    have "HasHeader ''content-length'' ?r \<Longrightarrow> False"
    proof -
      assume "HasHeader ''content-length'' ?r"
      then obtain v where "(''content-length'', v) \<in> set (headers ?r)"
        by (auto simp: HasHeader_find find_header_def dest: map_of_SomeD)
      with ok have "field_ok (req_method ?r) (''content-length'', v)" by (auto simp: request_ok_def fields_ok_def)
      with False show False by (cases v) (simp_all add: field_ok_def)
    qed
    with False show ?thesis by blast
  qed
  moreover have "declared_length ?r \<le> MAX_HTTP_BODY_SIZE"
    using declared_header(2) [OF assms] m by (cases "MethodHasBody (get_method_token hdr)") (simp_all add: declared_length_def)
  ultimately show ?thesis using ok t by (simp add: m)
qed

theorem accepted_request_valid_witness:
  "request_ok (request_of_header (''PUT /a HTTP/1.1'' @ CRLF @ ''Content-Length: 3'' @ CRLF @ CRLF)) \<and>
   declared_length (request_of_header (''PUT /a HTTP/1.1'' @ CRLF @ ''Content-Length: 3'' @ CRLF @ CRLF))
     \<le> MAX_HTTP_BODY_SIZE"
proof -
  have "IsOk (request_of_header (''PUT /a HTTP/1.1'' @ CRLF @ ''Content-Length: 3'' @ CRLF @ CRLF))"
    by code_simp
  from accepted_request_valid [OF this] show ?thesis by blast
qed

text \<open>C17: The error of a refused header: 431 exactly for a header above \<open>MAX_HTTP_HDR_SIZE\<close>, 405 exactly
  for a method outside the table, otherwise 400, 411 or 413.\<close>
theorem request_error_codes:
  "(error_code (request_of_header hdr) = HTTP_STATUS_HEADER_FIELDS_TOO_LARGE \<longleftrightarrow> length hdr > MAX_HTTP_HDR_SIZE) \<and>
   (error_code (request_of_header hdr) = HTTP_STATUS_METHOD_NOT_ALLOWED \<longleftrightarrow>
     length hdr \<le> MAX_HTTP_HDR_SIZE \<and> map_of methods_info (get_method_token hdr) = None) \<and>
   error_code (request_of_header hdr) \<in> {HTTP_STATUS_NONE, HTTP_STATUS_BAD_REQUEST,
     HTTP_STATUS_METHOD_NOT_ALLOWED, HTTP_STATUS_LENGTH_REQUIRED, HTTP_STATUS_PAYLOAD_TOO_LARGE,
     HTTP_STATUS_HEADER_FIELDS_TOO_LARGE}"
  by (intro conjI request_of_header_code request_of_header_codes)

text \<open>C18: The answer to a request the parser accepted is fixed by its class and target: GET and HEAD get 200
  for the main page and 404 for any other; the methods that are not implemented index the status table
  out of its range.\<close>
theorem valid_request_status:
  assumes "IsOk (request_of_header hdr)" and "date_ok date"
  shows "case MakeResponse date (AppendBody b (request_of_header hdr)) of
      Inr resp \<Rightarrow> req_method (request_of_header hdr) \<in> {''GET'', ''HEAD''} \<and>
        status_code resp = (if req_target (request_of_header hdr) \<in> {''/'', ''/index.html''}
          then HTTP_STATUS_OK else HTTP_STATUS_NOT_FOUND)
    | Inl f \<Rightarrow> req_method (request_of_header hdr) \<in> {''POST'', ''PUT'', ''DELETE'', ''PATCH''} \<and>
        f = Vector_index 501"
proof -
  let ?h = "request_of_header hdr"
  let ?r = "AppendBody b ?h"
  from request_of_header_valid [OF assms(1)] have ok: "IsOk ?r" "fields_ok ?r"
    and t: "map_of methods_info (req_method ?h) = Some (req_class ?h, MethodHasBody (req_method ?h))"
    using assms(1) by (auto simp: request_ok_def)
  from t have "(req_class ?h, req_method ?h) \<in> {(Get_msg, ''GET''), (Head_msg, ''HEAD''), (Post_msg, ''POST''),
      (Put_msg, ''PUT''), (Delete_msg, ''DELETE''), (Patch_msg, ''PATCH'')}"
    by (auto simp: methods_info_def split: if_splits)
  then consider (page) "req_class ?r \<in> {Get_msg, Head_msg}" "req_method ?h \<in> {''GET'', ''HEAD''}"
    | (unsupported) "req_class ?r \<in> {Post_msg, Put_msg, Delete_msg, Patch_msg}"
        "req_method ?h \<in> {''POST'', ''PUT'', ''DELETE'', ''PATCH''}"
    by fastforce
  then show ?thesis
  proof cases
    case page
    from MakeResponse_valid [OF ok assms(2)] page(1) obtain resp where "MakeResponse date ?r = Inr resp"
      "status_code resp = (if req_target ?r = ''/'' \<or> req_target ?r = ''/index.html''
        then HTTP_STATUS_OK else HTTP_STATUS_NOT_FOUND)" by blast
    with page(2) show ?thesis
      by (simp only: sum.case AppendBody_request(7) insert_iff empty_iff simp_thms)
  next
    case unsupported
    from MakeResponse_valid [OF ok assms(2)] unsupported(1) have "MakeResponse date ?r = Inl (Vector_index 501)"
      by blast
    with unsupported(2) show ?thesis by (simp only: sum.case simp_thms)
  qed
qed

theorem valid_request_status_witness:
  "case MakeResponse ''d'' (AppendBody [] (request_of_header (''HEAD /x HTTP/1.1'' @ CRLF @ CRLF))) of
      Inr resp \<Rightarrow> status_code resp = HTTP_STATUS_NOT_FOUND
    | Inl f \<Rightarrow> False"
proof -
  define h where "h = ''HEAD /x HTTP/1.1'' @ CRLF @ CRLF"
  have h: "IsOk (request_of_header h)" "req_method (request_of_header h) \<notin> {''POST'', ''PUT'', ''DELETE'', ''PATCH''}"
    "req_target (request_of_header h) \<notin> {''/'', ''/index.html''}"
    unfolding h_def by code_simp+
  have "date_ok ''d''" by code_simp
  from valid_request_status [OF h(1) this, of "[]"] h(2,3) show ?thesis
    unfolding h_def [symmetric] by (simp only: if_False simp_thms split: sum.splits) blast
qed

text \<open>C19: Every response that is sent can be cut by its reader: its header section ends with its first empty
  line, what follows is the body, and Content-Length is the length of the page. The page is the body,
  unless the request is a valid \<open>HEAD\<close> request; then there is no body, and the page is the body of the
  response that the same request with \<open>GET\<close> gets, from which this one differs in nothing else.\<close>
theorem response_framing:
  assumes "IsError r \<or> fields_ok r" and "date_ok date" and "MakeResponse date r = Inr resp"
    and "mset (hash_order (headers resp)) = mset (headers resp)"
  shows "\<exists>page. find_header ''Content-Length'' resp = Some (SizeT (length page)) \<and>
    (let msg = Serialize_response hash_order resp in
      drop (find_http_headers_end msg) msg = (if IsOk r \<and> req_class r = Head_msg then [] else page)) \<and>
    (if IsOk r \<and> req_class r = Head_msg
     then MakeResponse date (r\<lparr>req_method := ''GET'', req_class := Get_msg\<rparr>) = Inr (SetBody page resp)
     else body resp = page)"
proof -
  from MakeResponse_answers [OF assms(1-3)] have a: "answers r (omits_body r) resp" .
  note e = response_header_end [OF a, of hash_order, OF assms(4)]
  show ?thesis
  proof (cases "omits_body r")
    case True
    with head_like_get [OF True assms(3)] e show ?thesis
      by (auto simp: omits_body_def as_get_def Let_def)
  next
    case False
    with a e show ?thesis by (auto simp: answers_def omits_body_def Let_def)
  qed
qed

theorem response_framing_witness:
  "\<exists>r resp page. IsOk r \<and> req_class r = Head_msg \<and> MakeResponse ''d'' r = Inr resp \<and>
    MakeResponse ''d'' (r\<lparr>req_method := ''GET'', req_class := Get_msg\<rparr>) = Inr (SetBody page resp) \<and>
    find_header ''Content-Length'' resp = Some (SizeT (length page))"
proof -
  define r where "r = request_of_header (''HEAD / HTTP/1.1'' @ CRLF @ CRLF)"
  have r: "IsOk r" "req_class r = Head_msg" "date_ok ''d''" unfolding r_def by code_simp+
  from request_of_header_valid r(1) have f: "fields_ok r" unfolding r_def by (auto simp: request_ok_def)
  from MakeResponse_valid [OF r(1) f r(3)] r(2) obtain resp where m: "MakeResponse ''d'' r = Inr resp" by auto
  from response_framing [OF disjI2 [OF f] r(3) m, of "\<lambda>hs. hs"] r(1,2) m show ?thesis by auto
qed

text \<open>C20: A request in error is answered with its own code, and the connection is announced as closing.\<close>
theorem error_response_closes:
  assumes "IsError (request_of_header hdr)" and "date_ok date"
  shows "\<exists>resp. MakeResponse date (request_of_header hdr) = Inr resp \<and>
    status_code resp = error_code (request_of_header hdr) \<and>
    find_header ''Connection'' resp = Some (Str ''close'') \<and>
    WantKeepAlive (request_of_header hdr) = Inr False"
proof -
  have "error_code (request_of_header hdr) \<notin> {HTTP_STATUS_INTERNAL_SERVER_ERROR, HTTP_STATUS_NOT_IMPLEMENTED}"
    using request_of_header_codes [of hdr] by auto
  from MakeResponse_error [OF assms(1) this assms(2)] WantKeepAlive_error [OF assms(1)] show ?thesis by blast
qed

theorem error_response_closes_witness:
  "\<exists>resp. MakeResponse ''d'' (request_of_header ''TRACE / HTTP/1.1'') = Inr resp \<and>
    status_code resp = HTTP_STATUS_METHOD_NOT_ALLOWED"
proof -
  have "IsError (request_of_header ''TRACE / HTTP/1.1'')" "date_ok ''d''"
    "error_code (request_of_header ''TRACE / HTTP/1.1'') = HTTP_STATUS_METHOD_NOT_ALLOWED" by code_simp+
  with error_response_closes [of "''TRACE / HTTP/1.1''" "''d''"] show ?thesis by auto
qed

text \<open>C21: Whether a connection goes on after a valid request: not when the request's Connection field
  names close, and otherwise when it names keep-alive or the version is not HTTP/1.0; the names are
  found in any case. The Connection field of the response announces the same decision.\<close>
theorem connection_persistence:
  assumes "IsOk (request_of_header hdr)" and "r = AppendBody b (request_of_header hdr)"
    and "date_ok date" and "MakeResponse date r = Inr resp"
  shows "\<exists>keep. WantKeepAlive r = Inr keep \<and>
    (keep \<longleftrightarrow> \<not> names_option ''close'' r \<and> (names_option ''keep-alive'' r \<or> req_version r \<noteq> ''HTTP/1.0'')) \<and>
    find_header ''Connection'' resp = Some (Str (if keep then ''keep-alive'' else ''close''))"
proof -
  from request_of_header_valid [OF assms(1)] assms(1,2) have ok: "IsOk r" "fields_ok r"
    by (auto simp: request_ok_def)
  from MakeResponse_answers [OF _ assms(3,4)] ok(2) have "answers r (omits_body r) resp" by blast
  with WantKeepAlive_valid [OF ok] show ?thesis by (auto simp: answers_def)
qed

theorem connection_persistence_witness:
  "\<exists>resp. MakeResponse ''d'' (request_of_header (''GET / HTTP/1.0'' @ CRLF @ ''Connection: Keep-Alive'' @ CRLF @ CRLF)) =
      Inr resp \<and> find_header ''Connection'' resp = Some (Str ''keep-alive'')"
proof -
  define h where "h = ''GET / HTTP/1.0'' @ CRLF @ ''Connection: Keep-Alive'' @ CRLF @ CRLF"
  have h: "IsOk (request_of_header h)" "\<not> names_option ''close'' (request_of_header h)"
    "names_option ''keep-alive'' (request_of_header h)" "date_ok ''d''"
    unfolding h_def by code_simp+
  have "req_class (request_of_header h) = Get_msg" unfolding h_def by code_simp
  with MakeResponse_valid [OF h(1) _ h(4)] request_of_header_valid [OF h(1)]
  obtain resp where "MakeResponse ''d'' (request_of_header h) = Inr resp" by (auto simp: request_ok_def)
  with connection_persistence [OF h(1) _ h(4), of "request_of_header h" "[]" resp] h(2,3)
  show ?thesis unfolding h_def by auto
qed

section \<open>Reading a message from the socket\<close>

text \<open>C22: Where at least three bytes came with the last read, \<open>is_http_message_end\<close> decides exactly whether
  the bytes received so far hold the terminator, given that the bytes before the last read did not.\<close>
theorem message_end_decides:
  assumes "0 \<le> prev" "prev + 3 \<le> n" "n \<le> recv_buf_size k"
    and "find_sub term_seq (received k prev) = None"
  shows "is_http_message_end (mem_byte k) prev n = Inr (find_sub term_seq (received k n) \<noteq> None)"
proof -
  have "\<not> occurs_at term_seq (received k n) i" if "int i + 3 < prev" for i
    using assms(4) that by (simp add: find_sub_None occurs_received)
  from message_end_exact [OF assms(1-3) this] show ?thesis by (simp add: find_sub_None)
qed

definition sample_buffer :: "string \<Rightarrow> conn_t" where
  "sample_buffer s = sample_conn\<lparr>recv_mem := mem_store 0 s (\<lambda>_. NUL)\<rparr>"

theorem message_end_decides_witness:
  "is_http_message_end (mem_byte (sample_buffer (''a'' @ CRLF @ CRLF @ ''b''))) 2 6 = Inr True"
proof -
  let ?k = "sample_buffer (''a'' @ CRLF @ CRLF @ ''b'')"
  have "find_sub term_seq (received ?k 2) = None" "find_sub term_seq (received ?k 6) = Some 1" by code_simp+
  with message_end_decides [of 2 6 ?k] show ?thesis
    by (simp add: sample_buffer_def sample_conn_def srv_consts)
qed

text \<open>C23: Where fewer than three bytes came with the last read, and four or more are there, the check decides as
  if three had come, whatever the bytes are that were not received, as long as they are in the buffer: it finds a terminator in the buffer up to three bytes after the
  earlier ones. So with a terminator left there by an earlier message it reports an end that is not there
  yet; where at least three bytes came it decides on those received.\<close>
theorem message_end_stale_bytes:
  assumes "0 \<le> prev" "prev < n" "4 \<le> n" "n \<le> recv_buf_size k" "prev + 3 \<le> recv_buf_size k"
    and "find_sub term_seq (received k prev) = None"
  shows "is_http_message_end (mem_byte k) prev n =
    Inr (find_sub term_seq (received k (max n (prev + 3))) \<noteq> None)"
  using message_end_window [OF assms(1-5)] assms(6) by (simp add: find_sub_None)

theorem message_end_stale_bytes_witness:
  "find_sub term_seq (received (sample_buffer (''abc'' @ CRLF @ CRLF)) 5) = None \<and>
    is_http_message_end (mem_byte (sample_buffer (''abc'' @ CRLF @ CRLF))) 4 5 = Inr True"
proof -
  let ?k = "sample_buffer (''abc'' @ CRLF @ CRLF)"
  have "find_sub term_seq (received ?k 4) = None" "find_sub term_seq (received ?k 5) = None"
    "find_sub term_seq (received ?k 7) = Some 3" by code_simp+
  with message_end_stale_bytes [of 4 5 ?k] show ?thesis
    by (simp add: sample_buffer_def sample_conn_def srv_consts)
qed

text \<open>C24: At the end of the buffer the same check reads past it, into the guard page: one byte received into
  the last place, after a carriage return and a line feed, is enough.\<close>
theorem message_end_overrun:
  assumes "recv_buf_size k = RECV_BUF_SIZE"
    and "recv_mem k 8188 \<noteq> CR" "recv_mem k 8189 = CR" "recv_mem k 8190 = LF" "recv_mem k 8191 = CR"
  shows "is_http_message_end (mem_byte k) 8191 RECV_BUF_SIZE = Inl (Out_of_bounds RECV_BUF_SIZE)"
proof -
  have "3 = Suc (Suc (Suc 0))" by simp
  then show ?thesis
    using assms by (simp only: is_http_message_end_def boundary_loop.simps)
      (simp add: srv_consts term_seq_def mem_byte_def)
qed

theorem message_end_overrun_witness:
  "is_http_message_end (mem_byte (sample_conn\<lparr>recv_mem := mem_store 8189 [CR, LF, CR] (\<lambda>_. NUL)\<rparr>)) 8191
    RECV_BUF_SIZE = Inl (Out_of_bounds RECV_BUF_SIZE)"
  by (rule message_end_overrun) (simp_all add: sample_conn_def mem_store_def)

text \<open>The header section handed to the parser is the shortest prefix of the buffer that ends with an
  empty line, and it is empty exactly when there is none yet.\<close>
lemma header_section_is_first:
  "(find_http_headers_end s = 0 \<longleftrightarrow> (\<forall>i. \<not> occurs_at HEADERS_END s i)) \<and>
   (find_http_headers_end s \<noteq> 0 \<longrightarrow>
     occurs_at HEADERS_END s (find_http_headers_end s - 4) \<and> find_http_headers_end s \<le> length s \<and>
     (\<forall>i < find_http_headers_end s - 4. \<not> occurs_at HEADERS_END s i))"
proof (cases "find_sub HEADERS_END s")
  case None
  then have "\<forall>i. \<not> occurs_at HEADERS_END s i" using find_sub_None [of HEADERS_END s] by blast
  with None show ?thesis by (simp add: find_http_headers_end_def)
next
  case (Some i)
  from find_sub_bound [OF Some] have b: "i + 4 \<le> length s" by (simp add: HEADERS_END_def)
  have "\<exists>i. occurs_at HEADERS_END s i" using find_sub_Some_occurs [OF Some] by blast
  with Some find_sub_eq_Some [of HEADERS_END s i] b show ?thesis
    by (simp add: find_http_headers_end_def HEADERS_END_def)
qed

section \<open>Text and tables\<close>

text \<open>\<open>trim_spaces\<close> removes exactly the outer blanks: the value is what lies between two runs of blanks,
  it neither starts nor ends with one, and trimming again changes nothing.\<close>
lemma trim_removes_outer_blanks:
  "(\<exists>i j. s = replicate i (CHR '' '') @ trim_spaces s @ replicate j (CHR '' '')) \<and>
    trimmed (trim_spaces s) \<and> trim_spaces (trim_spaces s) = trim_spaces s"
proof -
  let ?b = "\<lambda>c. c = CHR '' ''"
  have run: "\<exists>i. takeWhile ?b t = replicate i (CHR '' '')" for t
    by (rule exI [of _ "length (takeWhile ?b t)"], rule replicate_length_same [symmetric]) (auto dest: set_takeWhileD)
  let ?t = "dropWhile ?b s"
  from run [of s] obtain i where i: "takeWhile ?b s = replicate i (CHR '' '')" by blast
  from run [of "rev ?t"] obtain j where "takeWhile ?b (rev ?t) = replicate j (CHR '' '')" by blast
  then have "rev ?t = replicate j (CHR '' '') @ dropWhile ?b (rev ?t)"
    using takeWhile_dropWhile_id [of ?b "rev ?t"] by simp
  then have "rev (rev ?t) = rev (replicate j (CHR '' '') @ dropWhile ?b (rev ?t))" by (rule arg_cong)
  then have "?t = trim_spaces s @ replicate j (CHR '' '')" by (simp add: trim_spaces_shape)
  with i have "s = replicate i (CHR '' '') @ trim_spaces s @ replicate j (CHR '' '')"
    using takeWhile_dropWhile_id [of ?b s] by simp
  with trimmed_trim_spaces [of s] trim_trimmed [OF trimmed_trim_spaces, of s] show ?thesis by blast
qed

text \<open>The header map answers a name, in any case, with the value it was given last.\<close>
lemma header_map_last_wins:
  "find_header n (foldl (\<lambda>m (k, v). AddHeader k v m) m hs) =
    (case map_of (rev (map (\<lambda>(k, v). (to_lower k, v)) hs)) (to_lower n) of
       None \<Rightarrow> find_header n m | Some v \<Rightarrow> Some v)"
  by (rule hdr.get_add_all [unfolded hdr.add_all_def])

section \<open>Time\<close>

text \<open>C25: The timeouts measure the time between two readings of the clock, in nanoseconds and with no overflow:
  an operation has timed out exactly when more than its timeout has passed since it was started, a
  connection has used up its turn exactly when more than 0.1 s have passed since it was switched to, and
  it is inactive exactly when more than 0.1 s have passed since it was last active, if the second reading
  is not before the first. The first two hold for any two readings.\<close>
theorem timeouts_measure_elapsed:
  assumes "clock_ok s n" "clock_ok s' n'" and "script w = R_clock s n # R_clock s' n' # rest"
    and "curr_conn (st w) = Some c"
    and "t = uint s * 1000000000 + uint n" "t' = uint s' * 1000000000 + uint n'"
  shows "fst (io_then curr_conn_start_op (curr_conn_op_timeout timeout) w) = Inr (t' - t > sint timeout) \<and>
    fst (io_then (io_bind curr_time (\<lambda>now. modify_st (\<lambda>s. s\<lparr>last_ctx_swap := now\<rparr>))) need_ctx_swap w) =
      Inr (t' - t > 100000000) \<and>
    (t \<le> t' \<longrightarrow>
      fst (io_then curr_conn_update_active curr_conn_active_timeout w) = Inr (t' - t > 100000000))"
proof -
  let ?t = "s * 1000000000 + n" and ?t' = "s' * 1000000000 + n'"
  have r: "uint ?t = t" "uint ?t' = t'" "sint ?t = t" "sint ?t' = t'"
    using clock_reading [OF assms(1)] clock_reading [OF assms(2)] assms(5,6) by simp_all
  have "uint (?t' - ?t) = t' - t" if "t \<le> t'" using uint_sub_lem [of ?t ?t'] r that by simp
  then have a: "active_timeout_at ?t' ?t = (t' - t > 100000000)" if "t \<le> t'"
    using that by (simp add: active_timeout_at_def srv_consts word_less_def)
  have o: "op_timeout_at ?t' ?t x = (t' - t > sint x)" for x by (auto simp: op_timeout_at_def r)
  have c: "sint CTX_SWAP_TIMEOUT = 100000000" by (simp add: srv_consts)
  have "fst (io_then curr_conn_start_op (curr_conn_op_timeout timeout) w) = Inr (t' - t > sint timeout)"
    using assms(1-4) by (simp add: curr_conn_start_op_def curr_conn_op_timeout_def curr_time_def with_curr_def
        curr_field_def io_exec o)
  moreover have "fst (io_then (io_bind curr_time (\<lambda>now. modify_st (\<lambda>s. s\<lparr>last_ctx_swap := now\<rparr>))) need_ctx_swap w) =
      Inr (t' - t > 100000000)"
    using assms(1-4) by (simp add: need_ctx_swap_def curr_time_def io_exec o c)
  moreover have "fst (io_then curr_conn_update_active curr_conn_active_timeout w) = Inr (t' - t > 100000000)"
    if "t \<le> t'"
    using assms(1-4) a [OF that] by (simp add: curr_conn_update_active_def curr_conn_active_timeout_def update_active_def
        Let_def curr_time_def with_curr_def curr_field_def io_exec)
  ultimately show ?thesis by blast
qed

theorem timeouts_measure_elapsed_witness:
  "\<exists>w :: (resp, srv_state, event) world. script w = [R_clock 1 0, R_clock 6 1] \<and>
    fst (io_then curr_conn_start_op (curr_conn_op_timeout CLIENT_OP_TIMEOUT) w) = Inr True \<and>
    fst (io_then curr_conn_update_active curr_conn_active_timeout w) = Inr True"
proof -
  define w where "w = sample_world [R_clock 1 0, R_clock 6 1]"
  have w: "script w = [R_clock 1 0, R_clock 6 1]" "curr_conn (st w) = Some 0" by (simp_all add: w_def sample_state_def)
  have ok: "clock_ok 1 0" "clock_ok 6 1" by (simp_all add: clock_ok_def)
  have "sint CLIENT_OP_TIMEOUT = 5000000000" by (simp add: srv_consts)
  with timeouts_measure_elapsed [OF ok w refl refl, of CLIENT_OP_TIMEOUT] w(1) show ?thesis
    by (intro exI [of _ w]) auto
qed

section \<open>Contexts, queue and sockets\<close>

text \<open>C26: A node added in front of a ring is its first entry, and deleting it gives the ring back: the links
  of the program represent the abstract list after every step.\<close>
theorem ring_add_del:
  assumes "qlist_rep h head xs" and "it \<notin> set (head # xs)"
  shows "\<exists>h1 h2. qlist_add_head head it h = Some h1 \<and> qlist_rep h1 head (it # xs) \<and>
    qlist_first_entry head h1 = Some it \<and> qlist_del_entry it h1 = Some h2 \<and> qlist_rep h2 head xs"
proof -
  from ql.add_head [OF assms] obtain h1 where h1: "qlist_add_head head it h = Some h1" "qlist_rep h1 head (it # xs)"
    by blast
  with ql.add_then_del [OF assms] show ?thesis by auto
qed

theorem ring_add_del_witness:
  "\<exists>h1 h2. qlist_add_head QueueHead (ConnNode 1) sample_links = Some h1 \<and>
    qlist_rep h1 QueueHead [ConnNode 1, ConnNode 0] \<and>
    qlist_first_entry QueueHead h1 = Some (ConnNode 1) \<and> qlist_del_entry (ConnNode 1) h1 = Some h2 \<and>
    qlist_rep h2 QueueHead [ConnNode 0]"
proof -
  have "qlist_rep sample_links QueueHead [ConnNode 0]"
    using sample_inv by (simp add: ctxt_inv_def rings_inv_def sample_state_def)
  from ring_add_del [OF this] show ?thesis by simp
qed

text \<open>C27: Accepting a client keeps the worker's data consistent whatever the allocations return: the queue
  and the cache stay disjoint rings, every context belongs to exactly one of them and owns one region
  laid out as buffer, guard page and stack, the counters count the active and inactive connections,
  and the new client is in front of the others. It never faults.\<close>
theorem new_client_keeps_invariant:
  assumes "ctxt_inv q k [] (st w)" and "create_new_conn sock w = (res, v)"
  shows "case res of Inl s \<Rightarrow> \<not> is_fault s
    | Inr r \<Rightarrow> \<exists>q' k'. ctxt_inv q' k' [] (st v) \<and> (if r = 0 then \<exists>c. q' = c # q else r = -1 \<and> q' = q)"
proof (cases res)
  case (Inl s)
  with hoare_no_fault [OF hoare_create_new_conn assms(1)] assms(2) show ?thesis by simp
next
  case (Inr r)
  from hoare_returns [OF hoare_create_new_conn assms(1) assms(2) [unfolded Inr]] obtain q' k' where
    "ctxt_inv q' k' [] (st v)" "if r = 0 then tl q' = q \<and> q' \<noteq> [] else r = -1 \<and> q' = q" by blast
  then have "ctxt_inv q' k' [] (st v) \<and> (if r = 0 then \<exists>c. q' = c # q else r = -1 \<and> q' = q)"
    by (cases q') (auto split: if_splits)
  with Inr show ?thesis by auto
qed

theorem new_client_keeps_invariant_witness:
  "\<exists>(v :: (resp, srv_state, event) world) q' k'. ctxt_inv q' k' [] (st v) \<and> (\<exists>c. q' = [c, 0])"
proof -
  define w where "w = sample_world (R_mmap (Some 90000) # R_mprotect 0 # R_malloc (Some 5) # replicate 49 (R_mmap None))"
  have w: "ctxt_inv [0] [] [] (st w)" using sample_inv by (simp add: w_def)
  have "fst (create_new_conn 9 w) = Inr 0" unfolding w_def by code_simp
  then obtain v where v: "create_new_conn 9 w = (Inr 0, v)" by (metis prod.collapse)
  from new_client_keeps_invariant [OF w v] show ?thesis by (intro exI [of _ v]) simp
qed

text \<open>C28: A client whose context comes from the cache is served with the receive buffer as the last client left
  it: accepting it sets neither the bytes nor the positions, so the bytes the last connection received
  and did not use are the first bytes of the new one's requests.\<close>
theorem reused_context_keeps_bytes:
  assumes "ctxt_inv q (c # k) [] (st w)"
  shows "\<exists>v. create_new_conn sock w = (Inr 0, v) \<and> ctxt_inv (c # q) k [] (st v) \<and>
    conn_sock (conns (st v) c) = sock \<and> recv_mem (conns (st v) c) = recv_mem (conns (st w) c) \<and>
    recv_buf_have (conns (st v) c) = recv_buf_have (conns (st w) c) \<and>
    recv_buf_curr (conns (st v) c) = recv_buf_curr (conns (st w) c)"
proof -
  from take_cached_Cons [OF assms] obtain u where
    u: "take_cached_ctx w = (Inr (Some c), u)" "ctxt_inv q k [c] (st u)" "conns (st u) = conns (st w)" by blast
  let ?s = "init_new_conn_ctx c sock (st u)"
  from ctxt_inv_add_queue [OF ctxt_inv_init_new [OF u(2)], of sock] obtain h where
    h: "qlist_add_head QueueHead (ConnNode c) (links ?s) = Some h" "ctxt_inv (c # q) k [] (count_in c 1 (?s\<lparr>links := h\<rparr>))"
    by blast
  have "create_new_conn sock w = (Inr 0, u\<lparr>st := count_in c 1 (?s\<lparr>links := h\<rparr>)\<rparr>)"
    using ctxt_inv_cache_cnt [OF assms] u(1) h(1)
    by (simp add: create_new_conn_def alloc_conn_ctx_def io_exec add_conn_to_queue_run)
  with h(2) show ?thesis by (simp add: count_in_def init_new_conn_ctx_def u(3))
qed

theorem reused_context_keeps_bytes_witness:
  "\<exists>v :: (resp, srv_state, event) world. conn_sock (conns (st v) 0) = 9 \<and> recv_buf_have (conns (st v) 0) = 4 \<and>
    recv_buf_curr (conns (st v) 0) = 0 \<and> mem_view (recv_mem (conns (st v) 0)) 0 4 = ''abcd''"
proof -
  define k where "k = sample_conn\<lparr>recv_buf_have := 4, recv_mem := mem_store 0 ''abcd'' (\<lambda>_. NUL)\<rparr>"
  define h where "h = the (qlist_add_head CacheHead (ConnNode 0)
     (qlist_head_init CacheHead (qlist_head_init QueueHead \<lparr>qprev = (\<lambda>_. None), qnext = (\<lambda>_. None)\<rparr>)))"
  define w :: "(resp, srv_state, event) world" where "w = \<lparr>script = [], st = sample_state\<lparr>links := h, conns := (\<lambda>_. k), active_conn_cnt := 0, cache_cnt := 1\<rparr>,
    trace = []\<rparr>"
  have "mem_view (mem_store 0 ''abcd'' (\<lambda>_. NUL)) 0 4 = ''abcd''" by code_simp
  then have k: "layout_ok k" "mem_view (recv_mem k) 0 4 = ''abcd''" "recv_buf_have k = 4" "recv_buf_curr k = 0"
    by (simp_all add: k_def layout_ok_def sample_conn_def srv_consts)
  have "rings_inv [] [0] [] h"
    by (simp add: rings_inv_def h_def qlist_rep_def qlist_add_head_def qlist_head_init_def set_qnext_def
        set_qprev_def Let_def)
  moreover have "memory_inv (st w)"
    using k(1) by (simp add: memory_inv_def w_def sample_state_def) (simp add: k_def sample_conn_def)
  moreover have "counts_inv [] [0] (st w)"
    by (simp add: counts_inv_def w_def sample_state_def srv_consts)
  ultimately have "ctxt_inv [] (0 # []) [] (st w)" by (simp add: ctxt_inv_def w_def sample_state_def)
  from reused_context_keeps_bytes [OF this, of 9] k(2,3,4) show ?thesis by (auto simp: w_def)
qed

section \<open>Configuration and main program\<close>

text \<open>The configuration the witnesses below start from.\<close>

definition sample_config :: srv_config_t where
  "sample_config = init_srv_config_default \<lparr>port = 0, num_workers = 0, log_file_name = None, log_file_desc = None,
     log_level = 0, help_opt = False\<rparr>"

abbreviation main_world :: "main_resp list \<Rightarrow> (main_resp, srv_config_t, main_event) world" where
  "main_world rs \<equiv> \<lparr>script = rs, st = sample_config, trace = []\<rparr>"

lemma sample_config_ok: "config_ok sample_config"
  unfolding sample_config_def by (rule default_config_ok)

text \<open>C29: Trimming a line in place keeps its length and leaves in it, terminated, exactly the characters
  before its end that are not white space, in order: also the white space inside a name or a value is
  lost.\<close>
theorem config_line_squeezed:
  assumes "NUL \<in> set s"
  shows "\<exists>buf. trim_spaces_in_place s = Inr buf \<and> length buf = length s \<and>
    c_string buf = filter (\<lambda>x. \<not> isspace x) (takeWhile (\<lambda>x. x \<noteq> NUL \<and> x \<noteq> LF) s)"
proof -
  let ?t = "takeWhile (\<lambda>x. x \<noteq> NUL \<and> x \<noteq> LF) s"
  let ?f = "filter (\<lambda>x. \<not> isspace x) ?t"
  have "length ?t < length s" using assms by (induction s) auto
  then have "length ?f < length s" using length_filter_le [of "\<lambda>x. \<not> isspace x" ?t] by linarith
  moreover have "trim_spaces_in_place s = Inr (?f @ NUL # drop (Suc (length ?f)) s)"
    using trim_loop_result [of 0 0 s] assms by (simp add: trim_spaces_in_place_def Let_def)
  moreover from trim_squeezes [OF assms] obtain buf where "trim_spaces_in_place s = Inr buf" "c_string buf = ?f"
    by (auto simp: squeezed_def)
  ultimately show ?thesis by auto
qed

theorem config_line_squeezed_witness:
  "\<exists>buf. trim_spaces_in_place (''a b: c'' @ [LF, NUL]) = Inr buf \<and> c_string buf = ''ab:c''"
proof -
  have "filter (\<lambda>x. \<not> isspace x) (takeWhile (\<lambda>x. x \<noteq> NUL \<and> x \<noteq> LF) (''a b: c'' @ [LF, NUL])) = ''ab:c''"
    by code_simp
  then show ?thesis using config_line_squeezed [of "''a b: c'' @ [LF, NUL]"] by auto
qed

text \<open>C30: The settings of the server stay in their ranges: neither the configuration file nor the command
  line, whatever they contain and wherever reading them stops, sets a port outside 1 to 65535, a
  number of workers outside 1 to \<open>MAX_NUM_WORKERS\<close> or a log level that does not exist.\<close>
theorem config_values_in_range:
  assumes "config_ok (st w)"
  shows "config_ok (st (snd (parse_srv_config w))) \<and> config_ok (st (snd (parse_srv_cmdline_opts args w)))"
  using cfg_config cfg_opts [of "getopt_all args"] assms
  unfolding parse_srv_cmdline_opts_def keeps_def keeps_config_def by blast

theorem config_values_in_range_witness:
  "config_ok (st (snd (parse_srv_config (main_world [A_config (Some (''port: 65536'' @ [LF]))]))))"
  using config_values_in_range [of "main_world [A_config (Some (''port: 65536'' @ [LF]))]" "[]"] sample_config_ok
  by simp

text \<open>C31: A list of settings of the port, the number of workers and the log level, each in its range, written
  as lines of the configuration file, and the same list given as command-line options, lead to the same
  result: all are stored, in order, the last one of a name wins.\<close>
theorem config_file_is_like_options:
  assumes "\<forall>(key, n) \<in> set kvs. setting_ok key n" and "script w = A_config (Some (config_text kvs)) # s"
  shows "parse_srv_config w = (Inr 0, w\<lparr>script := s, st := store_all kvs (st w)\<rparr>) \<and>
    parse_srv_cmdline_opts (config_args kvs) (w\<lparr>script := s\<rparr>) = parse_srv_config w"
proof -
  have "parse_srv_config w = (Inr 0, w\<lparr>script := s, st := store_all kvs (st w)\<rparr>)"
    using config_loop_reads [OF assms(1), of "w\<lparr>script := s\<rparr>"] assms(2)
    by (simp add: parse_srv_config_def io_exec store_all_def)
  moreover have "parse_srv_cmdline_opts (config_args kvs) (w\<lparr>script := s\<rparr>) =
      (Inr 0, w\<lparr>script := s, st := store_all kvs (st w)\<rparr>)"
    using opts_loop_reads [OF assms(1), of "w\<lparr>script := s\<rparr>"]
    by (simp add: parse_srv_cmdline_opts_def getopt_config_args store_all_def)
  ultimately show ?thesis by simp
qed

theorem config_file_is_like_options_witness:
  "\<exists>v. parse_srv_config (main_world [A_config (Some (config_text [(''port'', 81), (''port'', 80)]))]) = (Inr 0, v) \<and>
    port (st v) = 80"
proof -
  have ok: "\<forall>(key, n) \<in> set [(''port'', 81), (''port'', 80)]. setting_ok key n"
    by (simp add: setting_ok_def)
  have "port (store_all [(''port'', 81), (''port'', 80)] sample_config) = 80"
    by (simp add: store_all_def store_setting_def)
  with config_file_is_like_options [OF ok, of "main_world [A_config (Some (config_text [(''port'', 81), (''port'', 80)]))]" "[]"]
  show ?thesis by simp
qed

text \<open>A value out of its range is refused with \<open>-ERANGE\<close>, in the file and on the command line, and
  changes nothing.\<close>
lemma out_of_range_refused:
  assumes "(key, lo, hi) \<in> {(''port'', 1, 65535), (''num_workers'', 1, MAX_NUM_WORKERS),
      (''log_level'', level_code LOG_ERROR, level_code LOG_INFO2)}"
    and "atoi val = Inr n" and "n < lo \<or> hi < n" and "val \<noteq> []" "\<forall>c \<in> set val. \<not> isspace c \<and> c \<noteq> NUL \<and> c \<noteq> LF"
  shows "parse_srv_config_line (key @ '': '' @ val @ [LF, NUL]) w = (Inr (- ERANGE), w) \<and>
    apply_opt (setting_opt key) val w = (Inr (Some (- ERANGE)), w)"
proof -
  have range: "set_range val lo hi store w = (Inr (- ERANGE), w)" for store
    using assms(2,3) by (auto simp: set_range_result)
  have "setting_ok key lo" using assms(1) unfolding setting_ok_def by (elim insertE emptyE) (simp_all add: srv_consts)
  note k = setting_ok_key [OF this]
  then have key: "\<forall>c \<in> set key. \<not> isspace c \<and> c \<noteq> NUL \<and> c \<noteq> LF" "key \<noteq> []" "List.hd key \<noteq> CHR ''#''"
    "CHR '':'' \<notin> set key"
    by auto
  have "squeezed (key @ '': '' @ val @ [LF, NUL]) = key @ CHR '':'' # val"
    using key(1) assms(5) by (simp add: squeezed_def takeWhile_append2 filter_id_conv isspace_def char_code_def)
  from line_value [OF this _ key(2,3,4) assms(4), of w]
  have "parse_srv_config_line (key @ '': '' @ val @ [LF, NUL]) w = (Inr (- ERANGE), w)"
    using range assms(1) by (elim insertE emptyE) simp_all
  moreover have "apply_opt (setting_opt key) val w = (Inr (Some (- ERANGE)), w)"
    using range assms(1) unfolding apply_opt_def setting_opt_def Let_def
    by (elim insertE emptyE) (simp_all add: io_exec ERANGE_def)
  ultimately show ?thesis by simp
qed

text \<open>C32: The main process calls \<open>fork\<close> exactly as often as its settings say, 1 to \<open>MAX_NUM_WORKERS\<close> times,
  before it returns, and it returns only with 0; or it was asked for the help text. A worker it becomes
  itself by \<open>fork\<close> runs with a valid configuration, an open log and a listening socket, after at least one
  call of \<open>fork\<close> and at most that many.\<close>
theorem main_forks_workers:
  assumes "main args w = (Inr res, v)"
  shows "case res of
      In_worker sock \<Rightarrow> config_ok (st v) \<and> log_file_desc (st v) \<noteq> None \<and> 0 \<le> sock \<and>
        forks (trace w) < forks (trace v) \<and> int (forks (trace v)) \<le> int (forks (trace w)) + num_workers (st v)
    | Returned r \<Rightarrow> r = 0 \<and> (help_opt (st v) \<or>
        (1 \<le> num_workers (st v) \<and> num_workers (st v) \<le> MAX_NUM_WORKERS \<and>
         int (forks (trace v)) = int (forks (trace w)) + num_workers (st v)))"
  using main_workers [OF assms] by (auto split: main_result.splits)

theorem main_forks_workers_witness:
  "\<exists>(v :: (main_resp, srv_config_t, main_event) world). num_workers (st v) = 2 \<and> forks (trace v) = 2"
proof -
  define w where "w = main_world [A_config None, A_sock 3, A_sock 0, A_sock 0, A_fork 11, A_fork 12, A_wait 11 0, A_wait (-1) 0]"
  have r: "fst (main [''-w'', ''2''] w) = Inr (Returned 0)" "\<not> help_opt (st (snd (main [''-w'', ''2''] w)))"
    "num_workers (st (snd (main [''-w'', ''2''] w))) = 2"
    unfolding w_def by code_simp+
  then obtain v where v: "main [''-w'', ''2''] w = (Inr (Returned 0), v)" "\<not> help_opt (st v)" "num_workers (st v) = 2"
    by (metis prod.collapse)
  from main_forks_workers [OF v(1)] v(2,3) show ?thesis by (intro exI [of _ v]) (auto simp: w_def)
qed

text \<open>C33: The socket a worker accepts clients on was created, configured and bound by \<open>main\<close> in exactly these
  calls, the only calls on sockets it makes: the answer to \<open>socket\<close> is the socket, and it was bound to any
  address and to the port of the worker's settings, which \<open>htons\<close> does not cut. The option set is
  \<open>SO_REUSEPORT\<close> alone, since the two option numbers are or-ed.\<close>
theorem worker_listens_on_its_port:
  assumes "main args w = (Inr (In_worker sock), v)"
  shows "\<exists>us rs p. script w = us @ [A_sock sock, A_sock 0, A_sock 0] @ rs \<and> uint p = port (st v) \<and>
    sock_calls (trace v) = sock_calls (trace w) @
      [Sc_socket, Sc_setsockopt sock SOL_SOCKET SO_REUSEPORT 1, Sc_bind sock INADDR_ANY p]"
  using assms by (rule worker_socket)

theorem worker_listens_on_its_port_witness:
  "\<exists>v :: (main_resp, srv_config_t, main_event) world. port (st v) = 8081 \<and>
    sock_calls (trace v) = [Sc_socket, Sc_setsockopt 3 SOL_SOCKET SO_REUSEPORT 1, Sc_bind 3 INADDR_ANY 8081]"
proof -
  define w where "w = main_world [A_config None, A_sock 3, A_sock 0, A_sock 0, A_fork 0]"
  have r: "fst (main [''-p'', ''8081''] w) = Inr (In_worker 3)" "port (st (snd (main [''-p'', ''8081''] w))) = 8081"
    unfolding w_def by code_simp+
  then obtain v where v: "main [''-p'', ''8081''] w = (Inr (In_worker 3), v)" "port (st v) = 8081" by (metis prod.collapse)
  have "sock_calls (trace w) = []" by (simp add: w_def)
  with worker_listens_on_its_port [OF v(1)] v(2) obtain p where
    u: "sock_calls (trace v) = [Sc_socket, Sc_setsockopt 3 SOL_SOCKET SO_REUSEPORT 1, Sc_bind 3 INADDR_ANY p]" and p: "uint p = 8081"
    by auto
  have "p = word_of_int (uint p)" by simp
  with p have "p = 8081" by simp
  with u v(2) show ?thesis by blast
qed

text \<open>C34: The settings of the command line override those of the configuration file, and these the defaults.
  Here the file and the options set the port, the number of workers and the log level, in their ranges, and
  the calls up to the first worker succeed: the printed configuration, the port the listening socket is bound to and the worker's settings have the last
  value given.\<close>
theorem command_line_overrides_file:
  assumes "\<forall>(key, n) \<in> set kvs. setting_ok key n" and "\<forall>(key, n) \<in> set kvs'. setting_ok key n"
    and "script w = A_config (Some (config_text kvs)) # A_sock sock # A_sock 0 # A_sock 0 # A_fork 0 # s" and "0 \<le> sock"
    and "c = store_all (kvs @ kvs') (init_srv_config_default (st w))"
  shows "main (config_args kvs') w = (Inr (In_worker sock), w\<lparr>script := s, st := c, trace := trace w @
    [Me_config (port c) (num_workers c), Me_sock Sc_socket, Me_sock (Sc_setsockopt sock SOL_SOCKET SO_REUSEPORT 1),
     Me_sock (Sc_bind sock INADDR_ANY (word_of_int (port c))), Me_fork]\<rparr>)"
  using main_reads [OF assms] by (simp add: listening_calls_def)

theorem command_line_overrides_file_witness:
  "\<exists>v. main (config_args [(''port'', 81)]) (main_world [A_config (Some (config_text [(''port'', 80)])),
      A_sock 3, A_sock 0, A_sock 0, A_fork 0]) = (Inr (In_worker 3), v) \<and> port (st v) = 81 \<and>
    Me_sock (Sc_bind 3 INADDR_ANY 81) \<in> set (trace v)"
proof -
  have ok: "\<forall>(key, n) \<in> set [(''port'', 80)]. setting_ok key n" "\<forall>(key, n) \<in> set [(''port'', 81)]. setting_ok key n"
    by (simp_all add: setting_ok_def)
  have "port (store_all ([(''port'', 80)] @ [(''port'', 81)]) (init_srv_config_default sample_config)) = 81"
    by (simp add: store_all_def store_setting_def)
  with command_line_overrides_file [OF ok, of "main_world [A_config (Some (config_text [(''port'', 80)])),
      A_sock 3, A_sock 0, A_sock 0, A_fork 0]" 3 "[]"]
  show ?thesis by simp
qed

text \<open>C35: The main process waits until \<open>wait\<close> has no child left and reports how each ended, in the order in
  which they end; it returns whatever their number.\<close>
theorem all_workers_are_waited_for:
  assumes "script w = map (\<lambda>(p, x). A_wait p x) ws @ A_wait r y # s" and "\<forall>(p, x) \<in> set ws. 0 < p" and "r \<le> 0"
    and "log_file_desc (st w) = Some f"
  shows "wait_for_workers w =
    (Inr (), w\<lparr>script := s, trace := trace w @ map (\<lambda>(p, x). Me_report f p (worker_status x)) ws\<rparr>)"
  using assms by (rule wait_for_workers_reports)

theorem all_workers_are_waited_for_witness:
  "trace (snd (wait_for_workers (main_world [A_wait 11 256, A_wait 12 9, A_wait (-1) 0]))) =
    [Me_report Stdout 11 (Exited_with 1), Me_report Stdout 12 (Terminated_by 9)]"
proof -
  have "log_file_desc sample_config = Some Stdout"
    by (simp add: sample_config_def init_srv_config_default_def)
  then show ?thesis
    using all_workers_are_waited_for [of "main_world [A_wait 11 256, A_wait 12 9, A_wait (-1) 0]"
        "[(11, 256), (12, 9)]" "-1" 0 "[]" Stdout]
    by (simp add: worker_status_def WIFEXITED_def WEXITSTATUS_def WTERMSIG_def)
qed

text \<open>C36: When the log file the configuration names cannot be opened, the server does not fall back to the
  standard output: it goes on without a stream and is killed when it prints its configuration.\<close>
theorem unopened_log_file_crashes:
  assumes "script w = A_config (Some (''log_file: '' @ name @ [LF])) # A_malloc True # A_fopen_err e # s" and "0 < e"
    and "name \<noteq> []" "length name < 1000" "\<forall>c \<in> set name. \<not> isspace c \<and> c \<noteq> NUL \<and> c \<noteq> LF"
  shows "fst (main [] w) = Inl (Fault Null_deref)"
proof -
  define key where "key = ''log_file''"
  define line where "line = key @ '': '' @ name @ [LF]"
  have key: "\<forall>c \<in> set key. \<not> isspace c \<and> c \<noteq> NUL \<and> c \<noteq> LF" "key \<noteq> []" "List.hd key \<noteq> CHR ''#''"
    "CHR '':'' \<notin> set key" "length key = 8"
    by (simp_all add: key_def isspace_def char_code_def)
  have "squeezed (line @ [NUL]) = key @ CHR '':'' # name"
    using key(1) assms(5) by (simp add: line_def squeezed_def takeWhile_append2 filter_id_conv isspace_def char_code_def)
  from line_value [OF this _ key(2,3,4) assms(3)]
  have line: "parse_srv_config_line (line @ [NUL]) u = parse_log_file_name name u" for u :: "(main_resp, srv_config_t, main_event) world"
    by (simp add: key_def)
  have "takeWhile (\<lambda>c. c \<noteq> LF) line = key @ '': '' @ name"
    using key(1) assms(5) by (simp add: line_def takeWhile_append2)
  then have gets: "fgets MAX_LINE_LEN line = Some (line, [])"
    using assms(4) key(5) by (simp add: fgets_def Let_def line_def srv_consts)
  have sc: "script w = A_config (Some line) # A_malloc True # A_fopen_err e # s"
    using assms(1) by (simp add: line_def key_def)
  let ?w = "w\<lparr>st := init_srv_config_default (st w)\<rparr>"
  let ?c = "(st ?w)\<lparr>log_file_name := Some name, log_file_desc := None\<rparr>"
  have "parse_srv_config ?w = (Inr (- e), w\<lparr>script := s, st := ?c, trace := trace w @ [Me_fopen name]\<rparr>)"
    using sc assms(2) gets
    by (simp add: parse_srv_config_def config_loop.simps [of line] io_exec line parse_log_file_name_def)
  moreover have "\<not> help_opt ?c" by (simp add: init_srv_config_default_def)
  ultimately show ?thesis
    using assms(2) by (simp add: main_def io_exec parse_srv_cmdline_opts_def getopt_all.simps [of "[]"]
        print_srv_config_def fprintf_to_def)
qed

theorem unopened_log_file_crashes_witness:
  "fst (main [] (main_world [A_config (Some (''log_file: '' @ ''/x'' @ [LF])), A_malloc True, A_fopen_err 13])) =
    Inl (Fault Null_deref)"
proof -
  have "\<forall>c \<in> set ''/x''. \<not> isspace c \<and> c \<noteq> NUL \<and> c \<noteq> LF" by code_simp
  then show ?thesis
    using unopened_log_file_crashes [of "main_world [A_config (Some (''log_file: '' @ ''/x'' @ [LF])), A_malloc True,
        A_fopen_err 13]" "''/x''" 13 "[]"] by simp
qed

section \<open>The synchronous server and the test client\<close>

abbreviation sync_world :: "sync_resp list \<Rightarrow> (sync_resp, sync_state, sync_event) world" where
  "sync_world rs \<equiv> \<lparr>script = rs, st = \<lparr>accept_time = 0, handle_time = 0, prev_served = 0\<rparr>, trace = []\<rparr>"

text \<open>C37: The accept loop of the synchronous server hands every client it accepts to exactly one thread, in
  order: wherever the server is stopped, all accepted sockets but possibly the last have a thread. It
  never returns.\<close>
theorem sync_one_thread_per_client:
  assumes "sync_main args w = (r, v)" and "trace w = []"
  shows "\<exists>s. r = Inl s \<and> (s = Mismatch \<or> (\<exists>used pending. script w = used @ script v \<and>
    accepted used = threads (trace v) @ pending \<and> length pending \<le> 1))"
  using assms by (rule sync_main_hands)

theorem sync_one_thread_per_client_witness:
  "\<exists>(v :: (sync_resp, sync_state, sync_event) world) pending. threads (trace v) = [9] \<and> [9, 12] = threads (trace v) @ pending \<and> length pending \<le> 1"
proof -
  define rs where "rs = [S_call 3, S_call 0, S_call 0, S_call 0, S_time 100, S_clock 0 0, S_accept (Inr 9), S_clock 0 0,
    S_clock 0 0, S_pthread 11 11, S_pthread 0 0, S_clock 0 0, S_time 100, S_clock 0 0, S_accept (Inr 12), S_clock 0 0,
    S_clock 0 0]"
  have run: "fst (sync_main [] (sync_world rs)) = Inl Wait" "script (snd (sync_main [] (sync_world rs))) = []"
    "threads (trace (snd (sync_main [] (sync_world rs)))) = [9]" "accepted rs = [9, 12]"
    unfolding rs_def by code_simp+
  obtain v where v: "sync_main [] (sync_world rs) = (Inl Wait, v)" using run(1) by (metis prod.collapse)
  from sync_one_thread_per_client [OF v] v run(2,3,4) show ?thesis by fastforce
qed

text \<open>C38: A client's thread that returns has written the response or a part of it, closed the socket and
  counted the client, in this order; a thread that ends early has done nothing, so its socket stays
  open.\<close>
theorem sync_thread_serves_or_leaks:
  assumes "thread_routine sock w = (Inr r, v)"
  shows "case r of
      Thread_returned \<Rightarrow> \<exists>n. trace v = trace w @ [Se_write sock (take n resp_buf), Se_close sock, Se_served]
    | Pthread_exit code \<Rightarrow> trace v = trace w"
  using assms unfolding thread_routine_def by (rule conn_routine_result)

theorem sync_thread_serves_or_leaks_witness:
  "trace (snd (thread_routine 9 (sync_world [S_read (Inr [])]))) = []"
proof -
  have "fst (thread_routine 9 (sync_world [S_read (Inr [])])) = Inr (Pthread_exit EXIT_SUCCESS)" by code_simp
  then obtain v where v: "thread_routine 9 (sync_world [S_read (Inr [])]) = (Inr (Pthread_exit EXIT_SUCCESS), v)"
    by (metis prod.collapse)
  from sync_thread_serves_or_leaks [OF v] v show ?thesis by simp
qed

text \<open>C39: What a round of the test client that returns has done, for all its answers. When it goes on to the next round it has closed
  the socket it opened: at once when it could not connect, otherwise after its one \<open>send\<close>, which has sent
  as many bytes of the request as its answer says or has failed, and one \<open>read\<close>. It returns from \<open>main\<close> only
  when no socket could be opened, or when the address is not valid; then the socket stays open.\<close>
theorem client_round_closes:
  assumes "client_round addr p w = (Inr res, v)"
  shows "\<exists>sock rs. script w = C_call sock # rs @ script v \<and>
    (let opened = [Ce_sock Sc_socket, Ce_sock (Sc_setsockopt sock SOL_SOCKET SO_REUSEADDR 1)];
         conn = Ce_connect sock (c_string addr) (word_of_int p) in
     (sock < 0 \<and> res = Inr (-1) \<and> rs = [] \<and> trace v = trace w @ [Ce_sock Sc_socket]) \<or>
     (0 \<le> sock \<and> res = Inr (-1) \<and> (\<exists>a \<le> 0. rs = [C_call 0, C_inet_pton a]) \<and> trace v = trace w @ opened) \<or>
     (0 \<le> sock \<and> res = Inl () \<and> (\<exists>a > 0. \<exists>r < 0. rs = [C_call 0, C_inet_pton a, C_call r]) \<and>
       trace v = trace w @ opened @ [conn, Ce_close sock]) \<or>
     (0 \<le> sock \<and> res = Inl () \<and> (\<exists>a > 0. \<exists>r \<ge> 0. \<exists>k m.
       rs = [C_call 0, C_inet_pton a, C_call r, C_send_cnt k, C_read m] \<and>
       trace v = trace w @ opened @ [conn, Ce_send sock (take k client_request), Ce_close sock])) \<or>
     (0 \<le> sock \<and> res = Inl () \<and> (\<exists>a > 0. \<exists>r \<ge> 0. \<exists>e m. e \<noteq> EPIPE \<and>
       rs = [C_call 0, C_inet_pton a, C_call r, C_send_err e, C_read m]) \<and>
       trace v = trace w @ opened @ [conn, Ce_close sock]))"
proof -
  from client_round_result [OF assms] obtain sock rs where sc: "script w = C_call sock # rs @ script v"
    and k: "if sock < 0 then res = Inr (-1) \<and> rs = [] \<and> trace v = trace w @ [Ce_sock Sc_socket]
     else NUL \<in> set addr \<and> (\<exists>a rs'. rs = C_call 0 # C_inet_pton a # rs' \<and>
       (if a \<le> 0 then res = Inr (-1) \<and> rs' = [] \<and>
          trace v = trace w @ [Ce_sock Sc_socket, Ce_sock (Sc_setsockopt sock SOL_SOCKET SO_REUSEADDR 1)]
        else res = Inl () \<and> session_answers rs' \<and>
          trace v = trace w @ [Ce_sock Sc_socket, Ce_sock (Sc_setsockopt sock SOL_SOCKET SO_REUSEADDR 1),
            Ce_connect sock (c_string addr) (word_of_int p)] @ session_events sock rs'))" by blast
  show ?thesis
  proof (cases "sock < 0")
    case True
    with sc k show ?thesis by (intro exI [of _ sock] exI [of _ rs]) (simp add: Let_def)
  next
    case False
    with k obtain a rs' where a: "rs = C_call 0 # C_inet_pton a # rs'" and
      r: "if a \<le> 0 then res = Inr (-1) \<and> rs' = [] \<and>
          trace v = trace w @ [Ce_sock Sc_socket, Ce_sock (Sc_setsockopt sock SOL_SOCKET SO_REUSEADDR 1)]
        else res = Inl () \<and> session_answers rs' \<and>
          trace v = trace w @ [Ce_sock Sc_socket, Ce_sock (Sc_setsockopt sock SOL_SOCKET SO_REUSEADDR 1),
            Ce_connect sock (c_string addr) (word_of_int p)] @ session_events sock rs'" by auto
    from r have "\<not> a \<le> 0 \<Longrightarrow> session_answers rs'" by simp
    then have "\<not> a \<le> 0 \<Longrightarrow> (\<exists>n < 0. rs' = [C_call n]) \<or>
      (\<exists>n \<ge> 0. \<exists>m. (\<exists>k. rs' = [C_call n, C_send_cnt k, C_read m]) \<or>
        (\<exists>e. e \<noteq> EPIPE \<and> rs' = [C_call n, C_send_err e, C_read m]))"
      by (rule session_answers_cases)
    with False sc a r show ?thesis
      by (intro exI [of _ sock] exI [of _ rs]) (cases "a \<le> 0"; auto simp: Let_def)
  qed
qed

theorem client_round_closes_witness:
  "\<exists>v :: (client_resp, unit, client_event) world.
    trace v = [Ce_sock Sc_socket, Ce_sock (Sc_setsockopt 4 SOL_SOCKET SO_REUSEADDR 1),
      Ce_connect 4 (c_string default_addr) 8080, Ce_send 4 (take 4 client_request), Ce_close 4]"
proof -
  define w :: "(client_resp, unit, client_event) world" where
    "w = \<lparr>script = [C_call 4, C_call 0, C_inet_pton 1, C_call 0, C_send_cnt 4, C_read 0], st = (), trace = []\<rparr>"
  have "NUL \<in> set default_addr" by code_simp
  then obtain v where v: "client_round default_addr 8080 w = (Inr (Inl ()), v)" "script v = []"
    by (simp add: w_def client_round_def client_session_def client_call_def inet_pton_def client_send_def sent_bytes io_exec)
  from client_round_closes [OF v(1)] v(2) show ?thesis by (intro exI [of _ v]) (auto simp: w_def Let_def)
qed

text \<open>C40: The asynchronous server does not answer the test client, on a connection whose receive buffer is empty
  at the start: the request the client sends, whole or cut off, has no empty line that ends its header
  section, so a connection that received only this has sent nothing, wherever it is.\<close>
theorem test_client_gets_no_answer:
  assumes "own_ok c (st w)" and "trace w = []" and "handle_one_connection hash_order w = (r, v)"
    and "recv_buf_have (conns (st w) c) = recv_buf_curr (conns (st w) c)"
    and "recvd (trace v) @ unsent = client_request"
  shows "sent (trace v) = []"
proof (rule dialogue_no_request [OF connection_dialogue [OF assms(1-3)]])
  fix bs rest assume "unused_input c (st w) @ recvd (trace v) = bs @ rest"
  then have "client_request = bs @ rest @ unsent"
    using assms(4,5) by (simp add: unused_input_def mem_view_def)
  then show "find_http_headers_end bs = 0"
    using headers_end_append [of bs "rest @ unsent"] client_request_facts(3) by auto
qed

theorem test_client_gets_no_answer_witness:
  "\<exists>v :: (resp, srv_state, event) world. recvd (trace v) = take 4 client_request \<and> sent (trace v) = []"
proof -
  define w where "w = sample_world [R_fcntl 2, R_fcntl 0, R_fcntl 0, R_gettid 5, R_fcntl 0, R_fcntl 2, R_fcntl 0,
    R_clock 0 0, R_clock 0 0, R_read_data '' GET'', R_clock 0 9, R_read_err 11, R_clock 0 9]"
  have w: "own_ok 0 (st w)" "trace w = []" "conns (st w) 0 = sample_conn"
    using sample_own by (simp_all add: w_def sample_state_def)
  have run: "fst (handle_one_connection (\<lambda>hs. hs) w) = Inl Suspended"
    "recvd (trace (snd (handle_one_connection (\<lambda>hs. hs) w))) = take 4 client_request"
    unfolding w_def by code_simp+
  from run(1) obtain v where v: "handle_one_connection (\<lambda>hs. hs) w = (Inl Suspended, v)" by (metis prod.collapse)
  have "recvd (trace v) @ drop 4 client_request = client_request" using v run(2) by simp
  moreover have "recv_buf_have (conns (st w) 0) = recv_buf_curr (conns (st w) 0)"
    unfolding w(3) by (simp add: sample_conn_def)
  ultimately have "sent (trace v) = []"
    using test_client_gets_no_answer [OF w(1,2) v] by blast
  then show ?thesis using v run(2) by auto
qed

end
